(* ===== verification/Prelude.thy ===== *)
theory Prelude
  imports Main "HOL-Library.Word" "HOL-Library.List_Lexorder"
begin

text \<open>
  Shared vocabulary of the development.

  \<^item> Machine integers are words; arithmetic on them wraps, which is what the release profile of the
    workspace does (no Cargo manifest turns \<open>overflow-checks\<close> on, and \<open>docs/build.md\<close> builds with
    \<open>--release\<close>).  Where the source checks for overflow the check is written out.
  \<^item> \<open>'e + 'a\<close> is Rust's \<open>Result<T, E>\<close> (\<open>Inl\<close> the error).  A method that takes \<open>&mut self\<close> and may
    leave through \<open>?\<close> keeps the changes it made before it left, so such methods are of type
    \<open>('s, 'e, 'a) action\<close>: the result is paired with the state reached.
  \<^item> \<open>('k, 'v) btmap\<close> is \<open>BTreeMap<K, V>\<close>: the entries in key order.  A \<open>BTreeSet<T>\<close> of a type with
    its own \<open>Ord\<close> is the list of its elements in the order of that comparison, which need not agree
    with the type's \<open>Eq\<close>; the locale \<open>rust_ord\<close> states what the standard library asks of it.
\<close>

named_theorems res_simps \<open>unfolding of the result and action combinators\<close>
named_theorems btm_simps \<open>lookup in ordered maps after an update\<close>

type_synonym u8 = "8 word"
type_synonym u32 = "32 word"
type_synonym u64 = "64 word"
type_synonym bytes = "u8 list"
type_synonym ('s, 'e, 'a) action = "'s \<Rightarrow> ('e + 'a) \<times> 's"

section \<open>Results and actions\<close>

definition rbind :: "'e + 'a \<Rightarrow> ('a \<Rightarrow> 'e + 'b) \<Rightarrow> 'e + 'b" where
  "rbind r f = (case r of Inl e \<Rightarrow> Inl e | Inr x \<Rightarrow> f x)"

definition ok_or :: "'a option \<Rightarrow> 'e \<Rightarrow> 'e + 'a" where
  "ok_or v e = (case v of None \<Rightarrow> Inl e | Some x \<Rightarrow> Inr x)"

definition ret :: "'a \<Rightarrow> ('s, 'e, 'a) action" where
  "ret x s = (Inr x, s)"

definition fail :: "'e \<Rightarrow> ('s, 'e, 'a) action" where
  "fail e s = (Inl e, s)"

definition lift_res :: "'e + 'a \<Rightarrow> ('s, 'e, 'a) action" where
  "lift_res r s = (r, s)"

definition bind :: "('s, 'e, 'a) action \<Rightarrow> ('a \<Rightarrow> ('s, 'e, 'b) action) \<Rightarrow> ('s, 'e, 'b) action" where
  "bind m f s = (case m s of (Inl e, s') \<Rightarrow> (Inl e, s') | (Inr x, s') \<Rightarrow> f x s')"

definition gets :: "('s \<Rightarrow> 'a) \<Rightarrow> ('s, 'e, 'a) action" where
  "gets f s = (Inr (f s), s)"

definition modify :: "('s \<Rightarrow> 's) \<Rightarrow> ('s, 'e, unit) action" where
  "modify f s = (Inr (), f s)"

text \<open>\<open>let _ = m;\<close> runs an action and drops its result, error or not.\<close>

definition ignore :: "('s, 'e, 'a) action \<Rightarrow> ('s, 'e, unit) action" where
  "ignore m s = (Inr (), snd (m s))"

text \<open>A \<open>for\<close> loop whose body may leave the function, and one that carries an accumulator.\<close>

fun for_each :: "('x \<Rightarrow> ('s, 'e, unit) action) \<Rightarrow> 'x list \<Rightarrow> ('s, 'e, unit) action" where
  "for_each f [] = ret ()"
| "for_each f (x # xs) = bind (f x) (\<lambda>_. for_each f xs)"

fun for_acc :: "('x \<Rightarrow> 'a \<Rightarrow> ('s, 'e, 'a) action) \<Rightarrow> 'x list \<Rightarrow> 'a \<Rightarrow> ('s, 'e, 'a) action" where
  "for_acc f [] a = ret a"
| "for_acc f (x # xs) a = bind (f x a) (for_acc f xs)"

fun rfold :: "('x \<Rightarrow> 'a \<Rightarrow> 'e + 'a) \<Rightarrow> 'x list \<Rightarrow> 'a \<Rightarrow> 'e + 'a" where
  "rfold f [] a = Inr a"
| "rfold f (x # xs) a = rbind (f x a) (rfold f xs)"

lemma rbind_simps [simp, res_simps]:
  "rbind (Inl e) f = Inl e" "rbind (Inr x) f = f x"
  by (simp_all add: rbind_def)

definition map_err :: "('e \<Rightarrow> 'f) \<Rightarrow> 'e + 'a \<Rightarrow> 'f + 'a" where
  "map_err f r = (case r of Inl e \<Rightarrow> Inl (f e) | Inr x \<Rightarrow> Inr x)"

lemma map_err_simps [simp, res_simps]: "map_err f (Inl e) = Inl (f e)" "map_err f (Inr x) = Inr x"
  by (simp_all add: map_err_def)

lemma map_err_Inr [simp]: "map_err f r = Inr x \<longleftrightarrow> r = Inr x"
  by (cases r) simp_all

lemma rbind_Inr: "rbind r f = Inr y \<longleftrightarrow> (\<exists>x. r = Inr x \<and> f x = Inr y)"
  by (cases r) simp_all

lemma ok_or_simps [simp, res_simps]: "ok_or None e = Inl e" "ok_or (Some x) e = Inr x"
  by (simp_all add: ok_or_def)

lemma action_simps [simp, res_simps]:
  "ret x s = (Inr x, s)" "fail e s = (Inl e, s)" "lift_res r s = (r, s)"
  "gets f s = (Inr (f s), s)" "modify g s = (Inr (), g s)" "ignore m s = (Inr (), snd (m s))"
  by (simp_all add: ret_def fail_def lift_res_def gets_def modify_def ignore_def)

lemma bind_Inr [simp, res_simps]: "m s = (Inr x, s') \<Longrightarrow> bind m f s = f x s'"
  by (simp add: bind_def)

lemma bind_Inl [simp, res_simps]: "m s = (Inl e, s') \<Longrightarrow> bind m f s = (Inl e, s')"
  by (simp add: bind_def)

lemma bind_eq_Inr: "bind m f s = (Inr y, t) \<longleftrightarrow> (\<exists>x s'. m s = (Inr x, s') \<and> f x s' = (Inr y, t))"
  by (auto simp: bind_def split: prod.splits sum.splits)

lemma bind_assoc: "bind (bind m f) g = bind m (\<lambda>x. bind (f x) g)"
  by (rule ext) (simp add: bind_def split: prod.split sum.split)

lemma for_each_append: "for_each f (xs @ ys) s = bind (for_each f xs) (\<lambda>_. for_each f ys) s"
  by (induction xs arbitrary: s) (auto simp: bind_def split: prod.splits sum.splits)

lemma for_acc_append: "for_acc f (xs @ ys) a s = bind (for_acc f xs a) (for_acc f ys) s"
  by (induction xs arbitrary: a s) (auto simp: bind_def split: prod.splits sum.splits)

lemma rfold_append: "rfold f (xs @ ys) a = rbind (rfold f xs a) (rfold f ys)"
  by (induction xs arbitrary: a) (auto simp: rbind_def split: sum.splits)

lemma rfold_cong [fundef_cong]:
  "xs = ys \<Longrightarrow> a = b \<Longrightarrow> (\<And>x a. x \<in> set ys \<Longrightarrow> f x a = g x a) \<Longrightarrow> rfold f xs a = rfold g ys b"
  by (induction xs arbitrary: ys a b) (auto simp: rbind_def split: sum.splits)

text \<open>Invariants of actions: an action keeps \<open>P\<close> when \<open>P\<close> survives it, whether it returns or leaves with an error.\<close>

named_theorems keeps_intros \<open>introduction rules for invariants of actions\<close>

definition keeps :: "('s \<Rightarrow> bool) \<Rightarrow> ('s, 'e, 'a) action \<Rightarrow> bool" where
  "keeps P m \<longleftrightarrow> (\<forall>s. P s \<longrightarrow> P (snd (m s)))"

lemma keepsI: "(\<And>s. P s \<Longrightarrow> P (snd (m s))) \<Longrightarrow> keeps P m"
  by (simp add: keeps_def)

lemma keepsD: "keeps P m \<Longrightarrow> P s \<Longrightarrow> P (snd (m s))"
  by (simp add: keeps_def)

lemma keeps_basic [simp]: "keeps P (ret x)" "keeps P (fail e)" "keeps P (lift_res r)" "keeps P (gets f)"
  by (simp_all add: keeps_def)

lemma keeps_modify [keeps_intros]: "(\<And>s. P s \<Longrightarrow> P (f s)) \<Longrightarrow> keeps P (modify f)"
  by (simp add: keeps_def)

lemma keeps_bind [keeps_intros]:
  assumes "keeps P m" "\<And>x. keeps P (f x)"
  shows "keeps P (bind m f)"
proof (rule keepsI)
  fix s assume "P s"
  with assms(1) have "P (snd (m s))"
    by (rule keepsD)
  with assms(2) show "P (snd (bind m f s))"
    by (auto simp: bind_def keeps_def split: prod.splits sum.splits)
qed

lemma keeps_for_each [keeps_intros]: "(\<And>x. x \<in> set xs \<Longrightarrow> keeps P (f x)) \<Longrightarrow> keeps P (for_each f xs)"
  by (induction xs) (simp_all add: keeps_bind)

lemma keeps_for_acc [keeps_intros]: "(\<And>x a. x \<in> set xs \<Longrightarrow> keeps P (f x a)) \<Longrightarrow> keeps P (for_acc f xs a)"
  by (induction xs arbitrary: a) (simp_all add: keeps_bind)

section \<open>Comparison results\<close>

datatype ordering = Less | Equal | Greater

primrec reverse :: "ordering \<Rightarrow> ordering" where
  "reverse Less = Greater"
| "reverse Equal = Equal"
| "reverse Greater = Less"

definition cmp :: "'a::linorder \<Rightarrow> 'a \<Rightarrow> ordering" where
  "cmp x y = (if x < y then Less else if x = y then Equal else Greater)"

definition is_ge :: "ordering \<Rightarrow> bool" where
  "is_ge r \<longleftrightarrow> r \<noteq> Less"

definition is_le :: "ordering \<Rightarrow> bool" where
  "is_le r \<longleftrightarrow> r \<noteq> Greater"

lemma reverse_eq [simp]:
  "reverse r = Less \<longleftrightarrow> r = Greater" "reverse r = Equal \<longleftrightarrow> r = Equal" "reverse r = Greater \<longleftrightarrow> r = Less"
  by (cases r; simp)+

lemma cmp_eq [simp]:
  "cmp x y = Less \<longleftrightarrow> x < y" "cmp x y = Equal \<longleftrightarrow> x = y" "cmp x y = Greater \<longleftrightarrow> y < x"
  by (auto simp: cmp_def)

section \<open>Ordered maps\<close>

type_synonym ('k, 'v) btmap = "('k \<times> 'v) list"

fun btm_insert :: "'k::linorder \<Rightarrow> 'v \<Rightarrow> ('k, 'v) btmap \<Rightarrow> ('k, 'v) btmap" where
  "btm_insert k v [] = [(k, v)]"
| "btm_insert k v (e # m) =
     (case cmp k (fst e) of
        Less \<Rightarrow> (k, v) # e # m
      | Equal \<Rightarrow> (k, v) # m
      | Greater \<Rightarrow> e # btm_insert k v m)"

definition btm_remove :: "'k \<Rightarrow> ('k, 'v) btmap \<Rightarrow> ('k, 'v) btmap" where
  "btm_remove k m = filter (\<lambda>e. fst e \<noteq> k) m"

definition btm_get :: "('k, 'v) btmap \<Rightarrow> 'k \<Rightarrow> 'v option" where
  "btm_get m k = map_of m k"

definition btm_contains :: "('k, 'v) btmap \<Rightarrow> 'k \<Rightarrow> bool" where
  "btm_contains m k \<longleftrightarrow> btm_get m k \<noteq> None"

text \<open>\<open>drain_filter\<close>: the entries taken out, in order, and the map that stays.\<close>

definition btm_drain :: "('k \<times> 'v \<Rightarrow> bool) \<Rightarrow> ('k, 'v) btmap \<Rightarrow> ('k \<times> 'v) list \<times> ('k, 'v) btmap" where
  "btm_drain p m = (filter p m, filter (\<lambda>e. \<not> p e) m)"

definition btm_wf :: "('k::linorder, 'v) btmap \<Rightarrow> bool" where
  "btm_wf m \<longleftrightarrow> sorted_wrt (<) (map fst m)"

lemma btm_wf_Nil [simp]: "btm_wf []"
  by (simp add: btm_wf_def)

lemma btm_wf_Cons: "btm_wf (e # m) \<longleftrightarrow> (\<forall>e' \<in> set m. fst e < fst e') \<and> btm_wf m"
  by (simp add: btm_wf_def)

lemma btm_wf_filter: "btm_wf m \<Longrightarrow> btm_wf (filter p m)"
  by (induction m) (auto simp: btm_wf_Cons)

lemma btm_wf_distinct: "btm_wf m \<Longrightarrow> distinct (map fst m)"
  by (simp add: btm_wf_def strict_sorted_iff)

lemma set_btm_insert: "set (btm_insert k v m) \<subseteq> insert (k, v) (set m)"
  by (induction m) (auto split: ordering.splits)

lemma btm_wf_insert: "btm_wf m \<Longrightarrow> btm_wf (btm_insert k v m)"
proof (induction m)
  case (Cons e m)
  have "\<forall>e' \<in> set (btm_insert k v m). fst e < fst e'" if "fst e < k"
    using Cons.prems that set_btm_insert [of k v m] by (fastforce simp: btm_wf_Cons)
  with Cons show ?case
    by (auto simp: btm_wf_Cons split: ordering.splits)
qed (simp add: btm_wf_Cons)

lemma btm_get_insert [simp, btm_simps]:
  "btm_get (btm_insert k v m) k' = (if k' = k then Some v else btm_get m k')"
  unfolding btm_get_def by (induction m) (auto split: ordering.splits)

lemma btm_get_remove [simp, btm_simps]:
  "btm_get (btm_remove k m) k' = (if k' = k then None else btm_get m k')"
  unfolding btm_get_def btm_remove_def by (induction m) auto

lemma btm_get_Nil [simp, btm_simps]: "btm_get [] k = None"
  by (simp add: btm_get_def)

lemma btm_get_filter:
  "btm_wf m \<Longrightarrow> btm_get (filter p m) k = (case btm_get m k of None \<Rightarrow> None | Some v \<Rightarrow> if p (k, v) then Some v else None)"
proof (induction m)
  case (Cons e m)
  have "map_of m (fst e) = None"
    using Cons.prems by (auto simp: btm_wf_Cons map_of_eq_None_iff)
  with Cons show ?case
    by (cases e) (auto simp: btm_get_def btm_wf_Cons split: option.splits)
qed (simp add: btm_get_def)

lemma btm_get_iff: "btm_wf m \<Longrightarrow> btm_get m k = Some v \<longleftrightarrow> (k, v) \<in> set m"
  by (simp add: btm_get_def btm_wf_distinct)

lemma length_btm_insert:
  "length (btm_insert k v m) \<le> Suc (length m)"
  by (induction m) (auto split: ordering.splits)

text \<open>
  The interface of an ordered map: what clients of \<open>BTreeMap\<close> rely on.  Two maps with the same
  lookups list the same entries, so iteration order is a function of the contents.
\<close>

locale ordered_map =
  fixes get :: "'m \<Rightarrow> 'k::linorder \<Rightarrow> 'v option"
    and ins :: "'k \<Rightarrow> 'v \<Rightarrow> 'm \<Rightarrow> 'm"
    and rem :: "'k \<Rightarrow> 'm \<Rightarrow> 'm"
    and items :: "'m \<Rightarrow> ('k \<times> 'v) list"
    and wf :: "'m \<Rightarrow> bool"
  assumes get_ins: "get (ins k v m) k' = (if k' = k then Some v else get m k')"
    and get_rem: "get (rem k m) k' = (if k' = k then None else get m k')"
    and wf_ins: "wf m \<Longrightarrow> wf (ins k v m)"
    and wf_rem: "wf m \<Longrightarrow> wf (rem k m)"
    and items_sorted: "wf m \<Longrightarrow> sorted_wrt (<) (map fst (items m))"
    and items_get: "wf m \<Longrightarrow> get m k = Some v \<longleftrightarrow> (k, v) \<in> set (items m)"
begin

lemma items_ext:
  assumes "wf m" "wf m'" "\<And>k. get m k = get m' k"
  shows "items m = items m'"
proof -
  have set_eq: "set (items m) = set (items m')"
  proof (rule set_eqI)
    show "e \<in> set (items m) \<longleftrightarrow> e \<in> set (items m')" for e
      using assms items_get [of m "fst e" "snd e"] items_get [of m' "fst e" "snd e"] by simp
  qed
  have "distinct (map fst (items m))" "sorted (map fst (items m))"
    "distinct (map fst (items m'))" "sorted (map fst (items m'))"
    using assms(1,2) items_sorted by (auto simp: strict_sorted_iff)
  with set_eq show ?thesis
    by (intro map_sorted_distinct_set_unique [where f = fst]) (auto simp: distinct_map)
qed

end

interpretation btm: ordered_map btm_get btm_insert btm_remove "\<lambda>m. m" btm_wf
proof unfold_locales
  show "btm_wf m \<Longrightarrow> btm_wf (btm_remove k m)" for k and m :: "('k::linorder \<times> 'v) list"
    by (simp add: btm_remove_def btm_wf_filter)
  show "btm_wf m \<Longrightarrow> sorted_wrt (<) (map fst m)" for m :: "('k::linorder \<times> 'v) list"
    by (simp add: btm_wf_def)
qed (simp_all add: btm_wf_insert btm_get_iff)

definition btm_from_list :: "('k::linorder \<times> 'v) list \<Rightarrow> ('k, 'v) btmap" where
  "btm_from_list es = fold (\<lambda>(k, v). btm_insert k v) es []"

lemma btm_fold_insert:
  "btm_wf m \<Longrightarrow> btm_wf (fold (\<lambda>(k, v). btm_insert k v) es m)"
  "btm_get (fold (\<lambda>(k, v). btm_insert k v) es m) k = (case map_of (rev es) k of None \<Rightarrow> btm_get m k | Some v \<Rightarrow> Some v)"
  by (induction es arbitrary: m) (auto simp: btm_wf_insert map_add_def split: option.splits)

lemma btm_from_list_wf: "btm_wf (btm_from_list es)"
  by (simp add: btm_from_list_def btm_fold_insert)

lemma btm_from_list_get: "btm_get (btm_from_list es) k = map_of (rev es) k"
  by (simp add: btm_from_list_def btm_fold_insert split: option.split)

lemma btm_from_list_id: "btm_wf m \<Longrightarrow> btm_from_list m = m"
proof (rule btm.items_ext [where m = "btm_from_list m" and m' = m])
  assume wf: "btm_wf m"
  then have "map_of (rev m) = map_of m"
    by (intro map_of_inject_set [THEN iffD2]) (auto simp: btm_wf_distinct rev_map [symmetric])
  then show "btm_get (btm_from_list m) k = btm_get m k" for k
    by (simp only: btm_from_list_get) (simp add: btm_get_def)
qed (simp_all add: btm_from_list_wf)

section \<open>Ordered sets over a comparison\<close>

fun bts_insert :: "('a \<Rightarrow> 'a \<Rightarrow> ordering) \<Rightarrow> 'a \<Rightarrow> 'a list \<Rightarrow> 'a list" where
  "bts_insert c x [] = [x]"
| "bts_insert c x (y # ys) =
     (case c x y of Less \<Rightarrow> x # y # ys | Equal \<Rightarrow> y # ys | Greater \<Rightarrow> y # bts_insert c x ys)"

fun bts_remove :: "('a \<Rightarrow> 'a \<Rightarrow> ordering) \<Rightarrow> 'a \<Rightarrow> 'a list \<Rightarrow> bool \<times> 'a list" where
  "bts_remove c x [] = (False, [])"
| "bts_remove c x (y # ys) =
     (case c x y of
        Less \<Rightarrow> (False, y # ys)
      | Equal \<Rightarrow> (True, ys)
      | Greater \<Rightarrow> apsnd ((#) y) (bts_remove c x ys))"

definition bts_collect :: "('a \<Rightarrow> 'a \<Rightarrow> ordering) \<Rightarrow> 'a list \<Rightarrow> 'a list" where
  "bts_collect c xs = fold (bts_insert c) xs []"

definition bts_wf :: "('a \<Rightarrow> 'a \<Rightarrow> ordering) \<Rightarrow> 'a list \<Rightarrow> bool" where
  "bts_wf c xs \<longleftrightarrow> sorted_wrt (\<lambda>x y. c x y = Less) xs"

locale rust_ord =
  fixes c :: "'a \<Rightarrow> 'a \<Rightarrow> ordering"
  assumes c_refl: "c x x = Equal"
    and c_rev: "c y x = reverse (c x y)"
    and c_less_trans: "c x y = Less \<Longrightarrow> c y z = Less \<Longrightarrow> c x z = Less"
    and c_equal: "c x y = Equal \<Longrightarrow> c x z = c y z"
begin

lemma c_less_equal: "c x y = Less \<Longrightarrow> c y z = Equal \<Longrightarrow> c x z = Less"
  using c_equal [of y z x] c_rev [of x y] c_rev [of x z] by (cases "c x z") auto

lemma wf_Cons: "bts_wf c (x # xs) \<longleftrightarrow> (\<forall>y \<in> set xs. c x y = Less) \<and> bts_wf c xs"
  by (simp add: bts_wf_def)

lemma set_insert_subset: "set (bts_insert c x ys) \<subseteq> insert x (set ys)"
  by (induction ys) (auto split: ordering.splits)

lemma wf_insert: "bts_wf c ys \<Longrightarrow> bts_wf c (bts_insert c x ys)"
proof (induction ys)
  case (Cons y ys)
  have "\<forall>z \<in> set (bts_insert c x ys). c y z = Less" if "c x y = Greater"
    using Cons.prems that set_insert_subset [of x ys] c_rev [of y x] by (auto simp: wf_Cons)
  moreover have "\<forall>z \<in> set ys. c x z = Less" if "c x y = Less"
    using Cons.prems that c_less_trans by (auto simp: wf_Cons)
  ultimately show ?case
    using Cons by (auto simp: wf_Cons split: ordering.splits)
qed (simp add: bts_wf_def)

text \<open>An insertion is dropped when an element that compares equal is present.\<close>

lemma insert_present: "bts_wf c ys \<Longrightarrow> y \<in> set ys \<Longrightarrow> c x y = Equal \<Longrightarrow> bts_insert c x ys = ys"
proof (induction ys)
  case (Cons z zs)
  show ?case
  proof (cases "y = z")
    case False
    with Cons.prems have "c z y = Less" "y \<in> set zs"
      by (auto simp: wf_Cons)
    with Cons.prems(3) have "c z x = Less"
      using c_less_equal [of z y x] c_rev [of y x] by simp
    then have "c x z = Greater"
      using c_rev [of x z] by simp
    with Cons False show ?thesis
      by (simp add: wf_Cons)
  qed (use Cons.prems in simp)
qed simp

lemma insert_absent: "(\<forall>y \<in> set ys. c x y \<noteq> Equal) \<Longrightarrow> set (bts_insert c x ys) = insert x (set ys)"
  by (induction ys) (auto split: ordering.splits)

lemma wf_remove: "bts_wf c ys \<Longrightarrow> bts_wf c (snd (bts_remove c x ys)) \<and> set (snd (bts_remove c x ys)) \<subseteq> set ys"
  by (induction ys) (auto simp: wf_Cons split: ordering.splits)

lemma remove_present:
  "bts_wf c ys \<Longrightarrow> y \<in> set ys \<Longrightarrow> c x y = Equal \<Longrightarrow>
     fst (bts_remove c x ys) \<and> set (snd (bts_remove c x ys)) = set ys - {y}"
proof (induction ys)
  case (Cons z zs)
  show ?case
  proof (cases "y = z")
    case True
    with Cons.prems show ?thesis
      using c_refl [of z] by (force simp: wf_Cons)
  next
    case False
    with Cons.prems have less: "c z y = Less" "y \<in> set zs"
      by (auto simp: wf_Cons)
    with Cons.prems(3) have "c z x = Less"
      using c_less_equal [of z y x] c_rev [of y x] by simp
    then have "c x z = Greater"
      using c_rev [of x z] by simp
    with Cons False less show ?thesis
      by (auto simp: wf_Cons)
  qed
qed simp

lemma remove_absent: "(\<forall>y \<in> set ys. c x y \<noteq> Equal) \<Longrightarrow> bts_remove c x ys = (False, ys)"
  by (induction ys) (auto split: ordering.splits)

lemma collect_fold:
  "bts_wf c ys \<Longrightarrow> bts_wf c (fold (bts_insert c) xs ys) \<and> set (fold (bts_insert c) xs ys) \<subseteq> set xs \<union> set ys"
proof (induction xs arbitrary: ys)
  case (Cons x xs)
  from Cons.IH [OF wf_insert [OF Cons.prems, of x]] show ?case
    using set_insert_subset [of x ys] by auto
qed simp

lemma collect_wf: "bts_wf c (bts_collect c xs)"
  by (simp add: bts_collect_def collect_fold bts_wf_def [of c "[]"])

lemma collect_subset: "set (bts_collect c xs) \<subseteq> set xs"
  using collect_fold [of "[]" xs] by (simp add: bts_collect_def bts_wf_def)

end

text \<open>How the comparisons of the source are put together: by a key, reversed, and one after the other.\<close>

definition lex_cmp :: "('a \<Rightarrow> 'a \<Rightarrow> ordering) \<Rightarrow> ('a \<Rightarrow> 'a \<Rightarrow> ordering) \<Rightarrow> 'a \<Rightarrow> 'a \<Rightarrow> ordering" where
  "lex_cmp c d x y = (case c x y of Less \<Rightarrow> Less | Equal \<Rightarrow> d x y | Greater \<Rightarrow> Greater)"

lemma rust_ord_key: "rust_ord (\<lambda>x y. cmp (f x) (f y))"
  by unfold_locales (auto simp: cmp_def split: if_splits)

lemma rust_ord_reverse: "rust_ord c \<Longrightarrow> rust_ord (\<lambda>x y. reverse (c x y))"
proof
  assume c: "rust_ord c"
  fix x y z
  show "reverse (c x x) = Equal"
    using rust_ord.c_refl [OF c] by simp
  show "reverse (c y x) = reverse (reverse (c x y))"
    using rust_ord.c_rev [OF c, of y x] by simp
  show "reverse (c x z) = Less" if "reverse (c x y) = Less" "reverse (c y z) = Less"
    using that rust_ord.c_less_trans [OF c, of z y x] rust_ord.c_rev [OF c] by (metis reverse_eq)
  show "reverse (c x z) = reverse (c y z)" if "reverse (c x y) = Equal"
    using that rust_ord.c_equal [OF c, of x y z] by simp
qed

lemma rust_ord_lex:
  assumes c: "rust_ord c" and d: "rust_ord d"
  shows "rust_ord (lex_cmp c d)"
proof
  fix x y z
  show "lex_cmp c d x x = Equal"
    by (simp add: lex_cmp_def rust_ord.c_refl [OF c] rust_ord.c_refl [OF d])
  show "lex_cmp c d y x = reverse (lex_cmp c d x y)"
    using rust_ord.c_rev [OF c, of y x] rust_ord.c_rev [OF d, of y x] by (cases "c x y") (auto simp: lex_cmp_def)
  show "lex_cmp c d x z = Less" if "lex_cmp c d x y = Less" "lex_cmp c d y z = Less"
  proof (cases "c x y = Equal")
    case True
    with that show ?thesis
      using rust_ord.c_equal [OF c True, of z] rust_ord.c_less_trans [OF d, of x y z]
      by (cases "c y z") (auto simp: lex_cmp_def)
  next
    case False
    with that(1) have "c x y = Less"
      by (cases "c x y") (auto simp: lex_cmp_def)
    moreover have "c y z = Less \<or> c y z = Equal"
      using that(2) by (cases "c y z") (auto simp: lex_cmp_def)
    ultimately have "c x z = Less"
      using rust_ord.c_less_trans [OF c, of x y z] rust_ord.c_less_equal [OF c, of x y z] by blast
    then show ?thesis
      by (simp add: lex_cmp_def)
  qed
  show "lex_cmp c d x z = lex_cmp c d y z" if "lex_cmp c d x y = Equal"
  proof -
    have "c x y = Equal" "d x y = Equal"
      using that by (cases "c x y"; simp add: lex_cmp_def)+
    then show ?thesis
      using rust_ord.c_equal [OF c, of x y z] rust_ord.c_equal [OF d, of x y z] by (simp add: lex_cmp_def split: ordering.split)
  qed
qed

lemmas rust_ord_intros = rust_ord_key rust_ord_reverse rust_ord_lex

end
