(* ===== verification/Smt_Base.thy ===== *)
theory Smt_Base
  imports Prelude
begin

unbundle bit_operations_syntax

text \<open>
  The parts of the \<open>smt\<close> crate below the tree: \<open>smt/src/utils.rs\<close> (bits of a path),
  \<open>smt/src/treehasher.rs\<close> (layout of leaves and inner nodes), \<open>MemoryStorage\<close> of \<open>smt/src/lib.rs\<close>
  and the proof checker of \<open>smt/src/proof.rs\<close>.

  The digest (\<open>crypto::keccak256\<close> over the \<open>sha3\<close> crate) is a parameter \<open>dg\<close> of every definition that
  hashes; \<open>digest32 dg\<close> says that it returns 32 bytes.  An \<open>H256\<close> is a byte list of length 32.
\<close>

section \<open>Errors and 32-byte hashes\<close>

datatype smt_error =
    KeyAlreadyEmpty
  | NonMembershipPathError bytes bytes
  | StorageError
  | CustomError string
  | StorageErrorKeyNotFound
  | BadProof "bytes list list"
  | Panicked \<comment> \<open>an index, slice or copy that is out of range\<close>

type_synonym h256 = bytes

definition LEAF_PREFIX :: bytes where
  "LEAF_PREFIX = [0]"

definition NODE_PREFIX :: bytes where
  "NODE_PREFIX = [1]"

definition HASH_LEN :: nat where
  "HASH_LEN = 32"

definition h256_zero :: h256 where
  "h256_zero = replicate 32 0"

definition h256_is_zero :: "h256 \<Rightarrow> bool" where
  "h256_is_zero h \<longleftrightarrow> list_all (\<lambda>b. b = 0) h"

definition h256_from_slice :: "bytes \<Rightarrow> smt_error + h256" where
  "h256_from_slice b = (if length b = HASH_LEN then Inr b else Inl Panicked)"

definition digest32 :: "(bytes \<Rightarrow> h256) \<Rightarrow> bool" where
  "digest32 dg \<longleftrightarrow> (\<forall>d. length (dg d) = HASH_LEN)"

section \<open>Bits of a path\<close>

definition get_bits_at_from_msb :: "bytes \<Rightarrow> nat \<Rightarrow> smt_error + nat" where
  "get_bits_at_from_msb data position =
     (if position div 8 < length data
      then let t = data ! (position div 8) AND push_bit (8 - 1 - position mod 8) 1
           in Inr (if t > 0 then 1 else 0)
      else Inl Panicked)"

fun count_common_prefix_loop :: "bytes \<Rightarrow> bytes \<Rightarrow> nat list \<Rightarrow> nat \<Rightarrow> smt_error + nat" where
  "count_common_prefix_loop lhs rhs [] count = Inr count"
| "count_common_prefix_loop lhs rhs (i # is) count =
     rbind (get_bits_at_from_msb lhs i) (\<lambda>l.
     rbind (get_bits_at_from_msb rhs i) (\<lambda>r.
       if l = r then count_common_prefix_loop lhs rhs is (count + 1) else Inr count))"

definition count_common_prefix :: "bytes \<Rightarrow> bytes \<Rightarrow> smt_error + nat" where
  "count_common_prefix lhs rhs = count_common_prefix_loop lhs rhs [0..<length lhs * 8] 0"

section \<open>The tree hasher\<close>

definition path :: "(bytes \<Rightarrow> h256) \<Rightarrow> bytes \<Rightarrow> h256" where
  "path dg key = dg key"

definition digest_leaf :: "(bytes \<Rightarrow> h256) \<Rightarrow> bytes \<Rightarrow> bytes \<Rightarrow> h256 \<times> bytes" where
  "digest_leaf dg p leaf_data = (let value = LEAF_PREFIX @ p @ leaf_data in (dg value, value))"

definition digest_node :: "(bytes \<Rightarrow> h256) \<Rightarrow> bytes \<Rightarrow> bytes \<Rightarrow> h256 \<times> bytes" where
  "digest_node dg left_data right_data = (let value = NODE_PREFIX @ left_data @ right_data in (dg value, value))"

definition parse_leaf :: "bytes \<Rightarrow> smt_error + (bytes \<times> bytes)" where
  "parse_leaf data =
     (if length data < length LEAF_PREFIX + HASH_LEN then Inl Panicked
      else Inr (take HASH_LEN (drop (length LEAF_PREFIX) data), drop (length LEAF_PREFIX + HASH_LEN) data))"

definition parse_node :: "bytes \<Rightarrow> smt_error + (bytes \<times> bytes)" where
  "parse_node data =
     (if length data < length NODE_PREFIX + HASH_LEN then Inl Panicked
      else Inr (take HASH_LEN (drop (length NODE_PREFIX) data), drop (length NODE_PREFIX + HASH_LEN) data))"

definition is_leaf :: "bytes \<Rightarrow> smt_error + bool" where
  "is_leaf data =
     (if length data < length NODE_PREFIX then Inl Panicked
      else Inr (take (length NODE_PREFIX) data = LEAF_PREFIX))"

definition placeholder :: h256 where
  "placeholder = h256_zero"

definition path_size :: nat where
  "path_size = HASH_LEN"

section \<open>The in-memory storage backend\<close>

type_synonym memory_storage = "(bytes, bytes) btmap"

definition ms_put :: "bytes \<Rightarrow> bytes \<Rightarrow> (memory_storage, smt_error, unit) action" where
  "ms_put key value st = (Inr (), btm_insert key value st)"

definition ms_get :: "memory_storage \<Rightarrow> bytes \<Rightarrow> smt_error + bytes" where
  "ms_get st key = ok_or (btm_get st key) StorageErrorKeyNotFound"

definition ms_delete :: "bytes \<Rightarrow> (memory_storage, smt_error, unit) action" where
  "ms_delete key st = (if \<not> btm_contains st key then (Inl StorageError, st) else (Inr (), btm_remove key st))"

definition ms_get_or_default :: "memory_storage \<Rightarrow> bytes \<Rightarrow> bytes \<Rightarrow> smt_error + bytes" where
  "ms_get_or_default st key dflt = Inr (case btm_get st key of None \<Rightarrow> dflt | Some v \<Rightarrow> v)"

definition ms_snapshot :: "memory_storage \<Rightarrow> smt_error + (bytes \<times> bytes) list" where
  "ms_snapshot st = Inr (map (\<lambda>(k, v). (k, v)) st)"

definition ms_from_snapshot :: "(bytes \<times> bytes) list \<Rightarrow> smt_error + memory_storage" where
  "ms_from_snapshot snap = Inr (fold (\<lambda>(k, v) d. btm_insert k v d) snap [])"

definition ms_new :: memory_storage where
  "ms_new = []"

section \<open>The proof checker\<close>

record smt_proof =
  side_nodes :: "h256 list"
  non_membership_leaf_data :: "bytes option"
  sibling_data :: "bytes option"

text \<open>One turn of the loop of \<open>verify_proof_with_updates\<close>: the hash so far, and the updates.\<close>

definition verify_step ::
  "(bytes \<Rightarrow> h256) \<Rightarrow> h256 \<Rightarrow> h256 list \<Rightarrow> nat \<Rightarrow> h256 \<times> bytes list list \<Rightarrow> smt_error + (h256 \<times> bytes list list)" where
  "verify_step dg p nodes i acc =
     (let (current_hash, updates) = acc; node = nodes ! i
      in rbind (get_bits_at_from_msb p (length nodes - 1 - i)) (\<lambda>b.
           let (h, d) = (if b = 1 then digest_node dg node current_hash else digest_node dg current_hash node)
           in Inr (h, updates @ [[h, d]])))"

definition verify_start ::
  "(bytes \<Rightarrow> h256) \<Rightarrow> smt_proof \<Rightarrow> h256 \<Rightarrow> bytes \<Rightarrow> smt_error + (h256 \<times> bytes list list)" where
  "verify_start dg prf p value =
     (if value = [] then
        (case non_membership_leaf_data prf of
           None \<Rightarrow> Inr (placeholder, [])
         | Some leaf \<Rightarrow>
             rbind (parse_leaf leaf) (\<lambda>(actual_path, value_hash).
               if actual_path = p then Inl (NonMembershipPathError actual_path p)
               else let (l, current_data) = digest_leaf dg actual_path value_hash
                    in Inr (l, [[l, current_data]])))
      else
        let value_hash = dg value; (l, current_data) = digest_leaf dg p value_hash
        in Inr (l, [[l, current_data]]))"

definition verify_proof_with_updates ::
  "(bytes \<Rightarrow> h256) \<Rightarrow> smt_proof \<Rightarrow> h256 \<Rightarrow> bytes \<Rightarrow> bytes \<Rightarrow> smt_error + bytes list list" where
  "verify_proof_with_updates dg prf root key value =
     (let p = path dg key
      in rbind (verify_start dg prf p value) (\<lambda>start.
         rbind (rfold (verify_step dg p (side_nodes prf)) [0..<length (side_nodes prf)] start)
           (\<lambda>(current_hash, updates).
              if current_hash \<noteq> root then Inl (BadProof updates) else Inr updates)))"

definition verify_proof :: "(bytes \<Rightarrow> h256) \<Rightarrow> smt_proof \<Rightarrow> h256 \<Rightarrow> bytes \<Rightarrow> bytes \<Rightarrow> bool" where
  "verify_proof dg prf root key value =
     (case verify_proof_with_updates dg prf root key value of Inl _ \<Rightarrow> False | Inr _ \<Rightarrow> True)"

section \<open>Facts about bits, hashes and layouts\<close>

lemmas smt_consts = LEAF_PREFIX_def NODE_PREFIX_def HASH_LEN_def placeholder_def path_size_def

definition path_bit :: "bytes \<Rightarrow> nat \<Rightarrow> bool" where
  "path_bit p i \<longleftrightarrow> bit (p ! (i div 8)) (7 - i mod 8)"

lemma length_h256_zero [simp]: "length h256_zero = 32"
  by (simp add: h256_zero_def)

lemma h256_is_zero_iff: "length h = 32 \<Longrightarrow> h256_is_zero h \<longleftrightarrow> h = h256_zero"
  using replicate_length_same [of h 0] by (auto simp: h256_is_zero_def h256_zero_def list_all_iff)

lemma digest32_length [simp]: "digest32 dg \<Longrightarrow> length (dg d) = 32"
  by (simp add: digest32_def HASH_LEN_def)

lemma and_push_bit_1: "(x :: u8) AND push_bit k 1 > 0 \<longleftrightarrow> bit x k"
proof -
  have "x AND push_bit k 1 = (if bit x k then push_bit k 1 else 0)"
    by (rule bit_eqI) (auto simp: bit_simps)
  moreover have "push_bit k 1 \<noteq> (0 :: u8)" if "bit x k"
    using bit_imp_le_length [OF that] by (simp add: push_bit_of_1 exp_eq_zero_iff)
  ultimately show ?thesis
    by (auto simp: word_gt_0)
qed

lemma get_bits_in_range:
  "i < 8 * length p \<Longrightarrow> get_bits_at_from_msb p i = Inr (of_bool (path_bit p i))"
  by (auto simp: get_bits_at_from_msb_def path_bit_def Let_def and_push_bit_1 [unfolded push_bit_of_1]
      less_mult_imp_div_less mult.commute)

lemma get_bits_out_of_range:
  "8 * length p \<le> i \<Longrightarrow> get_bits_at_from_msb p i = Inl Panicked"
  by (simp add: get_bits_at_from_msb_def div_le_mono not_less less_eq_div_iff_mult_less_eq mult.commute)

lemma parse_leaf_digest_leaf:
  "length p = 32 \<Longrightarrow> parse_leaf (snd (digest_leaf dg p v)) = Inr (p, v)"
  by (simp add: parse_leaf_def digest_leaf_def smt_consts Let_def)

lemma parse_node_digest_node:
  "length l = 32 \<Longrightarrow> parse_node (snd (digest_node dg l r)) = Inr (l, r)"
  by (simp add: parse_node_def digest_node_def smt_consts Let_def)

lemma is_leaf_layouts [simp]:
  "is_leaf (snd (digest_leaf dg p v)) = Inr True" "is_leaf (snd (digest_node dg l r)) = Inr False"
  by (simp_all add: is_leaf_def digest_leaf_def digest_node_def smt_consts Let_def)

section \<open>The storage interface\<close>

text \<open>
  What the tree relies on in a \<open>StorageBackend\<close>: the laws between \<open>put\<close>, \<open>get\<close> and \<open>delete\<close>, and
  that a snapshot restores the store.
\<close>

locale storage_backend =
  fixes put :: "bytes \<Rightarrow> bytes \<Rightarrow> ('st, smt_error, unit) action"
    and get :: "'st \<Rightarrow> bytes \<Rightarrow> smt_error + bytes"
    and del :: "bytes \<Rightarrow> ('st, smt_error, unit) action"
    and snapshot :: "'st \<Rightarrow> smt_error + (bytes \<times> bytes) list"
    and restore :: "(bytes \<times> bytes) list \<Rightarrow> smt_error + 'st"
    and valid :: "'st \<Rightarrow> bool"
  assumes put_ok: "fst (put k v st) = Inr ()"
    and get_put: "get (snd (put k v st)) k' = (if k' = k then Inr v else get st k')"
    and del_ok: "get st k = Inr v \<Longrightarrow> fst (del k st) = Inr ()"
    and get_del: "get st k = Inr v \<Longrightarrow> k' \<noteq> k \<Longrightarrow> get (snd (del k st)) k' = get st k'"
    and del_missing: "get st k = Inl e \<Longrightarrow> del k st = (Inl StorageError, st)"
    and valid_put: "valid st \<Longrightarrow> valid (snd (put k v st))"
    and valid_del: "valid st \<Longrightarrow> valid (snd (del k st))"
    and restore_snapshot: "valid st \<Longrightarrow> rbind (snapshot st) restore = Inr st"
begin

text \<open>Storing strings under their names keeps every other key, and each string is found.\<close>

lemma put_all:
  "inj_on f (set xs) \<Longrightarrow>
     \<exists>st'. for_each (\<lambda>x. put (f x) x) xs st = (Inr (), st') \<and> (valid st \<longrightarrow> valid st')
           \<and> (\<forall>k. k \<notin> f ` set xs \<longrightarrow> get st' k = get st k) \<and> (\<forall>x \<in> set xs. get st' (f x) = Inr x)"
proof (induction xs arbitrary: st)
  case (Cons x xs)
  obtain st1 where st1: "put (f x) x st = (Inr (), st1)"
    using put_ok by (cases "put (f x) x st") (auto, metis fst_conv)
  have get1: "get st1 k = (if k = f x then Inr x else get st k)" for k
    using get_put [of "f x" x st k] st1 by simp
  obtain st' where st': "for_each (\<lambda>x. put (f x) x) xs st1 = (Inr (), st')" "valid st1 \<longrightarrow> valid st'"
    "\<forall>k. k \<notin> f ` set xs \<longrightarrow> get st' k = get st1 k" "\<forall>y \<in> set xs. get st' (f y) = Inr y"
    using Cons by (auto simp: inj_on_def) blast
  have "get st' (f x) = Inr x"
  proof (cases "f x \<in> f ` set xs")
    case True
    then have "x \<in> set xs"
      using Cons.prems by (auto simp: inj_on_def)
    with st'(4) show ?thesis by blast
  qed (use st'(3) get1 in auto)
  moreover have "valid st \<longrightarrow> valid st'"
    using st'(2) valid_put [of st "f x" x] st1 by simp
  ultimately show ?case
    using st' st1 get1 by auto
qed simp

text \<open>Deleting stored keys succeeds and leaves every other key as it was.\<close>

lemma del_all:
  "(\<forall>k \<in> set ks. \<exists>v. get st k = Inr v) \<Longrightarrow> distinct ks \<Longrightarrow>
     \<exists>st'. for_each del ks st = (Inr (), st') \<and> (valid st \<longrightarrow> valid st')
           \<and> (\<forall>k. k \<notin> set ks \<longrightarrow> get st' k = get st k)"
proof (induction ks arbitrary: st)
  case (Cons k ks)
  then obtain v where v: "get st k = Inr v"
    by auto
  obtain st1 where st1: "del k st = (Inr (), st1)"
    using del_ok [OF v] by (cases "del k st") auto
  have same: "k' \<noteq> k \<Longrightarrow> get st1 k' = get st k'" for k'
    using get_del [OF v] st1 by auto
  have "\<exists>st'. for_each del ks st1 = (Inr (), st') \<and> (valid st1 \<longrightarrow> valid st')
          \<and> (\<forall>k. k \<notin> set ks \<longrightarrow> get st' k = get st1 k)"
    using Cons.prems same by (intro Cons.IH) (auto, metis)
  moreover have "valid st \<longrightarrow> valid st1"
    using valid_del [of st k] st1 by simp
  ultimately show ?case
    using st1 same by auto
qed simp

end

interpretation ms: storage_backend ms_put ms_get ms_delete ms_snapshot ms_from_snapshot btm_wf
proof unfold_locales
  show "btm_wf st \<Longrightarrow> btm_wf (snd (ms_delete k st))" for k st
    by (simp add: ms_delete_def btm.wf_rem)
  show "btm_wf st \<Longrightarrow> rbind (ms_snapshot st) ms_from_snapshot = Inr st" for st
    using btm_from_list_id [of st]
    by (simp add: ms_snapshot_def ms_from_snapshot_def btm_from_list_def case_prod_beta')
qed (auto simp: ms_put_def ms_get_def ms_delete_def btm_contains_def btm_wf_insert ok_or_def split: option.splits)

section \<open>Common prefixes\<close>

lemma count_common_prefix_loop_spec:
  assumes "length lhs = length rhs" "b \<le> 8 * length lhs" "a \<le> b"
  shows "\<exists>n. count_common_prefix_loop lhs rhs [a..<b] c = Inr (c + n) \<and> a + n \<le> b
           \<and> (\<forall>i. a \<le> i \<and> i < a + n \<longrightarrow> path_bit lhs i = path_bit rhs i)
           \<and> (a + n < b \<longrightarrow> path_bit lhs (a + n) \<noteq> path_bit rhs (a + n))"
  using \<open>a \<le> b\<close>
proof (induction "b - a" arbitrary: a c)
  case 0
  then show ?case by (intro exI [of _ 0]) auto
next
  case (Suc d)
  then have ab: "a < b" "[a..<b] = a # [Suc a..<b]"
    by (auto simp: upt_conv_Cons)
  have bits: "get_bits_at_from_msb lhs a = Inr (of_bool (path_bit lhs a))"
    "get_bits_at_from_msb rhs a = Inr (of_bool (path_bit rhs a))"
    using assms ab get_bits_in_range [of a lhs] get_bits_in_range [of a rhs] by simp_all
  show ?case
  proof (cases "path_bit lhs a = path_bit rhs a")
    case True
    obtain n where n: "count_common_prefix_loop lhs rhs [Suc a..<b] (c + 1) = Inr (c + 1 + n)"
      "Suc a + n \<le> b" "\<forall>i. Suc a \<le> i \<and> i < Suc a + n \<longrightarrow> path_bit lhs i = path_bit rhs i"
      "Suc a + n < b \<longrightarrow> path_bit lhs (Suc a + n) \<noteq> path_bit rhs (Suc a + n)"
      using Suc.hyps(1) [of "Suc a" "c + 1"] Suc.hyps(2) ab by fastforce
    have "\<forall>i. a \<le> i \<and> i < a + Suc n \<longrightarrow> path_bit lhs i = path_bit rhs i"
      using n(3) True by (metis Suc_leI add_Suc_shift le_neq_implies_less)
    with n True ab bits show ?thesis
      by (intro exI [of _ "Suc n"]) auto
  next
    case False
    with ab bits show ?thesis
      by (intro exI [of _ 0]) auto
  qed
qed

lemma count_common_prefix_spec:
  assumes "length lhs = length rhs"
  obtains n where "count_common_prefix lhs rhs = Inr n" "n \<le> 8 * length lhs"
    "\<And>i. i < n \<Longrightarrow> path_bit lhs i = path_bit rhs i"
    "n < 8 * length lhs \<Longrightarrow> path_bit lhs n \<noteq> path_bit rhs n"
  using count_common_prefix_loop_spec [OF assms, of "length lhs * 8" 0 0]
  by (auto simp: count_common_prefix_def mult.commute)

lemma path_bits_ext:
  assumes "length p = length q" "\<And>i. i < 8 * length p \<Longrightarrow> path_bit p i = path_bit q i"
  shows "p = q"
proof (rule nth_equalityI)
  fix j assume j: "j < length p"
  have "bit (p ! j) k = bit (q ! j) k" if "k < 8" for k
  proof -
    define m where "m = 7 - k"
    have m: "m < 8" "7 - m = k"
      using that by (auto simp: m_def)
    then show ?thesis
      using assms(2) [of "8 * j + m"] j by (simp add: path_bit_def)
  qed
  then show "p ! j = q ! j"
    by (intro bit_word_eqI) simp
qed (rule assms(1))

end
