(* ===== verification/Smt_Proof.thy ===== *)
theory Smt_Proof
  imports Smt_Base
begin

text \<open>
  Soundness of the proof checker of \<open>smt/src/proof.rs\<close>.  The loop over the side nodes is shown equal to
  a recursion \<open>climb\<close> from the leaf to the root; two climbs that reach the same root agree unless the
  digest collides on one of the strings that were hashed on the way.
\<close>

section \<open>The climb from a leaf to the root\<close>

definition comb_data :: "bool \<Rightarrow> h256 \<Rightarrow> h256 \<Rightarrow> bytes" where
  "comb_data b n cur = 1 # (if b then n @ cur else cur @ n)"

fun climb :: "(bytes \<Rightarrow> h256) \<Rightarrow> h256 \<Rightarrow> nat \<Rightarrow> h256 list \<Rightarrow> h256 \<Rightarrow> h256" where
  "climb dg p d [] cur = cur"
| "climb dg p d (n # ns) cur = climb dg p d ns (dg (comb_data (path_bit p (d + length ns)) n cur))"

fun climb_data :: "(bytes \<Rightarrow> h256) \<Rightarrow> h256 \<Rightarrow> nat \<Rightarrow> h256 list \<Rightarrow> h256 \<Rightarrow> bytes list" where
  "climb_data dg p d [] cur = []"
| "climb_data dg p d (n # ns) cur =
     (let x = comb_data (path_bit p (d + length ns)) n cur in x # climb_data dg p d ns (dg x))"

lemma climb_snoc:
  "climb dg p d (ns @ [n]) cur = dg (comb_data (path_bit p d) n (climb dg p (Suc d) ns cur))"
  "climb_data dg p d (ns @ [n]) cur =
     climb_data dg p (Suc d) ns cur @ [comb_data (path_bit p d) n (climb dg p (Suc d) ns cur)]"
  by (induction ns arbitrary: cur) (simp_all add: Let_def)

lemma climb_data_prefix: "x \<in> set (climb_data dg p d ns cur) \<Longrightarrow> hd x = 1"
  by (induction ns arbitrary: cur) (auto simp: Let_def comb_data_def)

lemma length_climb:
  "digest32 dg \<Longrightarrow> length cur = 32 \<Longrightarrow> length (climb dg p d ns cur) = 32"
  by (induction ns arbitrary: cur) simp_all

lemma comb_data_inject:
  assumes "comb_data b n c = comb_data b n' c'" "length n = 32" "length n' = 32" "length c = 32" "length c' = 32"
  shows "n = n' \<and> c = c'"
  using assms by (auto simp: comb_data_def split: if_splits)

text \<open>
  Two climbs along the same path to the same hash used the same side nodes and began at the same
  hash, or one of them began at an inner node of the other.
\<close>

lemma climb_binding:
  assumes "digest32 dg" "length c1 = 32" "length c2 = 32"
    and "\<forall>n \<in> set ns1. length n = 32" "\<forall>n \<in> set ns2. length n = 32"
    and "inj_on dg (set (climb_data dg p d ns1 c1) \<union> set (climb_data dg p d ns2 c2))"
    and "climb dg p d ns1 c1 = climb dg p d ns2 c2"
  shows "ns1 = ns2 \<and> c1 = c2 \<or> c2 \<in> dg ` set (climb_data dg p d ns1 c1)
           \<or> c1 \<in> dg ` set (climb_data dg p d ns2 c2)"
  using assms(4-7)
proof (induction ns1 arbitrary: ns2 d rule: rev_induct)
  case Nil
  then show ?case by (cases ns2 rule: rev_cases) (auto simp: climb_snoc)
next
  case (snoc n1 ns1)
  show ?case
  proof (cases ns2 rule: rev_cases)
    case Nil
    with snoc.prems(4) show ?thesis by (auto simp: climb_snoc)
  next
    case (snoc ns2' n2)
    let ?e1 = "climb dg p (Suc d) ns1 c1" and ?e2 = "climb dg p (Suc d) ns2' c2"
    have "comb_data (path_bit p d) n1 ?e1 = comb_data (path_bit p d) n2 ?e2"
      by (rule inj_onD [OF snoc.prems(3)]) (use snoc.prems(4) in \<open>simp_all add: snoc climb_snoc\<close>)
    then have eq: "n1 = n2" "?e1 = ?e2"
      using snoc.prems(1,2) snoc assms(1-3) comb_data_inject [of _ n1 ?e1 n2 ?e2]
      by (auto simp: length_climb)
    moreover have "inj_on dg (set (climb_data dg p (Suc d) ns1 c1) \<union> set (climb_data dg p (Suc d) ns2' c2))"
      using snoc.prems(3) by (rule inj_on_subset) (auto simp: snoc climb_snoc)
    ultimately show ?thesis
      using snoc.IH [of ns2' "Suc d"] snoc.prems(1,2) by (auto simp: snoc climb_snoc)
  qed
qed

section \<open>The loop of the checker\<close>

lemma verify_loop:
  assumes "length (pre @ suf) \<le> 8 * length p"
  shows "rfold (verify_step dg p (pre @ suf)) [length pre..<length (pre @ suf)] (cur, ups) =
     Inr (climb dg p 0 suf cur, ups @ map (\<lambda>x. [dg x, x]) (climb_data dg p 0 suf cur))"
  using assms
proof (induction suf arbitrary: pre cur ups)
  case (Cons n suf)
  let ?x = "comb_data (path_bit p (length suf)) n cur"
  have bit: "get_bits_at_from_msb p (length suf) = Inr (of_bool (path_bit p (length suf)))"
    using Cons.prems by (intro get_bits_in_range) simp
  have "verify_step dg p (pre @ n # suf) (length pre) (cur, ups) = Inr (dg ?x, ups @ [[dg ?x, ?x]])"
    using bit by (simp add: verify_step_def digest_node_def comb_data_def smt_consts Let_def)
  moreover have "[length pre..<length (pre @ n # suf)] = length pre # [length (pre @ [n])..<length ((pre @ [n]) @ suf)]"
    using upt_conv_Cons [of "length pre" "length (pre @ n # suf)"] by simp
  ultimately show ?case
    using Cons.IH [of "pre @ [n]" "dg ?x" "ups @ [[dg ?x, ?x]]"] Cons.prems by (simp add: Let_def)
qed simp

lemma verify_loop_overlong:
  assumes "8 * length p < length ns"
  shows "rfold (verify_step dg p ns) [0..<length ns] start = Inl Panicked"
proof -
  have "0 < length ns"
    using assms by linarith
  from upt_conv_Cons [OF this] have "[0..<length ns] = 0 # [Suc 0..<length ns]"
    by simp
  moreover have "get_bits_at_from_msb p (length ns - 1) = Inl Panicked"
    using assms by (intro get_bits_out_of_range) simp
  ultimately show ?thesis
    by (simp add: verify_step_def Let_def case_prod_beta)
qed

text \<open>The data hashed on the way, as \<open>verify_proof_with_updates\<close> reports it.\<close>

definition hashed :: "bytes list list \<Rightarrow> bytes set" where
  "hashed ups = (\<lambda>u. u ! 1) ` set ups"

definition proof_typed :: "smt_proof \<Rightarrow> bool" where
  "proof_typed prf \<longleftrightarrow> list_all (\<lambda>n. length n = 32) (side_nodes prf)"

lemma verify_accepts:
  assumes "digest32 dg" "verify_proof_with_updates dg prf root key value = Inr ups"
  obtains cur ups0 where "verify_start dg prf (dg key) value = Inr (cur, ups0)"
    "climb dg (dg key) 0 (side_nodes prf) cur = root"
    "ups = ups0 @ map (\<lambda>x. [dg x, x]) (climb_data dg (dg key) 0 (side_nodes prf) cur)"
proof -
  from assms(2) obtain start where start: "verify_start dg prf (dg key) value = Inr start"
    by (auto simp: verify_proof_with_updates_def path_def rbind_Inr Let_def)
  have "length (side_nodes prf) \<le> 8 * length (dg key)"
    using verify_loop_overlong [of "dg key" "side_nodes prf" dg start] assms start
    by (fastforce simp: verify_proof_with_updates_def path_def Let_def)
  then show ?thesis
    using verify_loop [of "[]" "side_nodes prf" "dg key" dg "fst start" "snd start"] assms start
    by (auto simp: verify_proof_with_updates_def path_def Let_def split: if_splits intro!: that [of "fst start" "snd start"])
qed

text \<open>What the checker begins with: the placeholder, or the hash of a leaf; only a leaf at the path
  of the key carries a value.\<close>

lemma verify_start_cases:
  assumes "digest32 dg" "verify_start dg prf p value = Inr (cur, ups)" "length p = 32"
  obtains (empty) "value = []" "cur = h256_zero" "ups = []"
    | (leaf) q vh where "length q = 32" "cur = dg (0 # q @ vh)" "ups = [[cur, 0 # q @ vh]]"
        "value = [] \<Longrightarrow> q \<noteq> p" "value \<noteq> [] \<Longrightarrow> q = p \<and> vh = dg value"
proof (cases "value = []")
  case False
  then show ?thesis
    using assms by (intro leaf [of p "dg value"]) (auto simp: verify_start_def digest_leaf_def smt_consts Let_def)
next
  case True
  show ?thesis
  proof (cases "non_membership_leaf_data prf")
    case None
    with True show ?thesis
      using assms by (intro empty) (auto simp: verify_start_def smt_consts)
  next
    case (Some l)
    with True assms obtain q vh where q: "parse_leaf l = Inr (q, vh)" "q \<noteq> p"
      "(cur, ups) = (dg (0 # q @ vh), [[dg (0 # q @ vh), 0 # q @ vh]])"
      by (auto simp: verify_start_def digest_leaf_def smt_consts Let_def rbind_Inr split: if_splits)
    moreover from q(1) have "length q = 32"
      by (auto simp: parse_leaf_def smt_consts split: if_splits)
    ultimately show ?thesis
      using True by (intro leaf [of q vh]) auto
  qed
qed

section \<open>A root commits to one value per key\<close>

lemma hashed_accepts:
  "hashed (ups0 @ map (\<lambda>x. [dg x, x]) xs) = hashed ups0 \<union> set xs"
  by (force simp: hashed_def)

lemma leaf_not_node_data:
  assumes "inj_on dg A" "0 # d \<in> A" "X \<subseteq> A" "\<And>x. x \<in> X \<Longrightarrow> hd x = (1::u8)"
  shows "dg (0 # d) \<notin> dg ` X"
proof
  assume "dg (0 # d) \<in> dg ` X"
  then obtain x where "x \<in> X" "dg (0 # d) = dg x"
    by auto
  with assms(1-3) have "0 # d = x"
    by (auto dest: inj_onD)
  then have "hd x = 0"
    by auto
  with assms(4) [OF \<open>x \<in> X\<close>] show False
    by simp
qed

text \<open>A start of one run is not an inner node of the other run.\<close>

lemma start_not_inner:
  assumes "digest32 dg" "verify_start dg prf p value = Inr (cur, ups)" "length p = 32"
    and "inj_on dg A" "hashed ups \<subseteq> A" "X \<subseteq> A" "\<And>x. x \<in> X \<Longrightarrow> hd x = (1::u8)" "h256_zero \<notin> dg ` A"
  shows "cur \<notin> dg ` X"
  using assms(1-3)
proof (cases rule: verify_start_cases)
  case empty
  with assms(6,8) show ?thesis by auto
next
  case (leaf q vh)
  then have "0 # q @ vh \<in> A"
    using assms(5) by (auto simp: hashed_def)
  from leaf_not_node_data [OF assms(4) this assms(6,7)] leaf(2) show ?thesis
    by simp
qed

lemma start_binds_value:
  assumes dg: "digest32 dg" and p: "length p = 32"
    and 1: "verify_start dg prf1 p v1 = Inr (cur, ups1)" and 2: "verify_start dg prf2 p v2 = Inr (cur, ups2)"
    and inj: "inj_on dg A" and A: "{v1, v2} \<union> hashed ups1 \<union> hashed ups2 \<subseteq> A"
    and zero: "h256_zero \<notin> dg ` (hashed ups1 \<union> hashed ups2)"
  shows "v1 = v2"
  using dg 1 p
proof (cases rule: verify_start_cases)
  case empty
  from dg 2 p show ?thesis
    by (cases rule: verify_start_cases) (use empty zero in \<open>auto simp: hashed_def\<close>)
next
  case one: (leaf q vh)
  from dg 2 p show ?thesis
  proof (cases rule: verify_start_cases)
    case empty
    with one zero show ?thesis by (auto simp: hashed_def)
  next
    case two: (leaf q' vh')
    have "0 # q @ vh = 0 # q' @ vh'"
      by (rule inj_onD [OF inj]) (use one two A in \<open>auto simp: hashed_def\<close>)
    with one(1) two(1) have "q = q'" "vh = vh'"
      by auto
    then show ?thesis
      using one(4,5) two(4,5) A inj_onD [OF inj, of v1 v2] by (cases "v1 = []"; cases "v2 = []") auto
  qed
qed

text \<open>C4: a root hash commits to one value per key.  If two proofs are accepted for the same root and
  key, they prove the same value, where the empty value stands for \<open>not in the tree\<close>; so a membership
  proof and a non-membership proof are never both accepted.  The digest has to be injective only on the
  values and on the strings that the two runs of the checker hashed, none of them to the placeholder.\<close>

theorem root_binds_value:
  assumes "digest32 dg" "proof_typed prf1" "proof_typed prf2"
    and "verify_proof_with_updates dg prf1 root key v1 = Inr ups1"
    and "verify_proof_with_updates dg prf2 root key v2 = Inr ups2"
    and inj: "inj_on dg ({v1, v2} \<union> hashed ups1 \<union> hashed ups2)"
    and zero: "h256_zero \<notin> dg ` (hashed ups1 \<union> hashed ups2)"
  shows "v1 = v2"
proof -
  let ?p = "dg key" and ?A = "hashed ups1 \<union> hashed ups2"
  let ?D1 = "climb_data dg ?p 0 (side_nodes prf1)" and ?D2 = "climb_data dg ?p 0 (side_nodes prf2)"
  from verify_accepts [OF assms(1,4)] obtain c1 u1 where 1: "verify_start dg prf1 ?p v1 = Inr (c1, u1)"
    "climb dg ?p 0 (side_nodes prf1) c1 = root" "ups1 = u1 @ map (\<lambda>x. [dg x, x]) (?D1 c1)" .
  from verify_accepts [OF assms(1,5)] obtain c2 u2 where 2: "verify_start dg prf2 ?p v2 = Inr (c2, u2)"
    "climb dg ?p 0 (side_nodes prf2) c2 = root" "ups2 = u2 @ map (\<lambda>x. [dg x, x]) (?D2 c2)" .
  have p: "length ?p = 32" and injA: "inj_on dg ?A"
    using assms(1) inj_on_subset [OF inj] by auto
  have sub: "hashed u1 \<subseteq> ?A" "hashed u2 \<subseteq> ?A" "set (?D1 c1) \<subseteq> ?A" "set (?D2 c2) \<subseteq> ?A"
    using 1(3) 2(3) by (auto simp: hashed_accepts)
  have "c1 \<notin> dg ` set (?D2 c2)" "c2 \<notin> dg ` set (?D1 c1)"
    using start_not_inner [OF assms(1) 1(1) p injA sub(1,4) _ zero]
      start_not_inner [OF assms(1) 2(1) p injA sub(2,3) _ zero] climb_data_prefix by blast+
  moreover have "length c1 = 32" "length c2 = 32"
    using verify_start_cases [OF assms(1) 1(1) p] verify_start_cases [OF assms(1) 2(1) p] assms(1)
      digest32_length length_h256_zero by metis+
  ultimately have "c1 = c2"
    using climb_binding [of dg c1 c2 "side_nodes prf1" "side_nodes prf2" ?p 0] assms(1-3) 1(2) 2(2)
      inj_on_subset [OF injA, of "set (?D1 c1) \<union> set (?D2 c2)"] sub
    by (auto simp: proof_typed_def list_all_iff)
  with 2(1) have 2: "verify_start dg prf2 ?p v2 = Inr (c1, u2)"
    by simp
  show ?thesis
    by (rule start_binds_value [OF assms(1) p 1(1) 2 inj]) (use sub zero in auto)
qed

text \<open>A concrete digest for the examples: it mixes a few bytes of the string, so that it is cheap to
  evaluate, and is injective on the strings of the examples.\<close>

fun byte0 :: "bytes \<Rightarrow> u8" where
  "byte0 [] = 0"
| "byte0 (b # x) = b"

definition sum_digest :: "bytes \<Rightarrow> h256" where
  "sum_digest x = (let y = tl x; z = drop 32 y in
     [64 * byte0 x + byte0 y + 3 * byte0 z + 1, byte0 x + 5 * byte0 (tl y) + 7 * byte0 (tl z) + 1] @ replicate 30 0)"

lemma sum_digest32 [simp]: "digest32 sum_digest"
  by (simp add: digest32_def sum_digest_def HASH_LEN_def Let_def)

definition demo_proof :: smt_proof where
  "demo_proof = \<lparr>side_nodes = [sum_digest [9]], non_membership_leaf_data = None, sibling_data = None\<rparr>"

definition demo_root :: h256 where
  "demo_root = climb sum_digest (sum_digest [3]) 0 [sum_digest [9]]
                 (fst (digest_leaf sum_digest (sum_digest [3]) (sum_digest [5, 6])))"

definition demo_updates :: "bytes list list" where
  "demo_updates = (case verify_proof_with_updates sum_digest demo_proof demo_root [3] [5, 6] of Inl _ \<Rightarrow> [] | Inr u \<Rightarrow> u)"

lemma demo_accepts:
  "verify_proof_with_updates sum_digest demo_proof demo_root [3] [5, 6] = Inr demo_updates"
  "verify_proof_with_updates sum_digest (demo_proof\<lparr>sibling_data := Some [1, 2]\<rparr>) demo_root [3] [5, 6] = Inr demo_updates"
  by code_simp+

lemma demo_injective:
  "inj_on sum_digest ({[5, 6], [5, 6]} \<union> hashed demo_updates \<union> hashed demo_updates)"
  "h256_zero \<notin> sum_digest ` (hashed demo_updates \<union> hashed demo_updates)"
  unfolding hashed_def by code_simp+

lemma demo_typed: "proof_typed demo_proof" "proof_typed (demo_proof\<lparr>sibling_data := Some [1, 2]\<rparr>)"
  by code_simp+

theorem root_binds_value_witness:
  "verify_proof sum_digest demo_proof demo_root [3] [5, 6]
   \<and> verify_proof sum_digest (demo_proof\<lparr>sibling_data := Some [1, 2]\<rparr>) demo_root [3] [5, 6]
   \<and> [5, 6] = [5, 6 :: u8]"
  using root_binds_value [OF sum_digest32 demo_typed demo_accepts demo_injective]
  by (simp add: verify_proof_def demo_accepts)

end
