(* ===== verification/Smt_Tree.thy ===== *)
theory Smt_Tree
  imports Smt_Proof
begin

text \<open>
  \<open>SparseMerkleTree\<close> of \<open>smt/src/smt.rs\<close> over \<open>MemoryStorage\<close>: the node store, the value store, the
  root, and every operation on them.  The operations are actions on the record \<open>smt\<close>, so the writes
  made before an error stay, as they do behind \<open>&mut self\<close>.
\<close>

section \<open>State\<close>

record smt =
  smt_nodes :: memory_storage
  smt_values :: memory_storage
  smt_root :: h256
  smt_parent :: h256

datatype copy_strategy = Partial | Full | NoCopy

definition on_nodes :: "(memory_storage, smt_error, 'a) action \<Rightarrow> (smt, smt_error, 'a) action" where
  "on_nodes m t = (let (r, n) = m (smt_nodes t) in (r, t\<lparr>smt_nodes := n\<rparr>))"

definition on_values :: "(memory_storage, smt_error, 'a) action \<Rightarrow> (smt, smt_error, 'a) action" where
  "on_values m t = (let (r, n) = m (smt_values t) in (r, t\<lparr>smt_values := n\<rparr>))"

definition smt_new :: smt where
  "smt_new = \<lparr>smt_nodes = ms_new, smt_values = ms_new, smt_root = h256_zero, smt_parent = h256_zero\<rparr>"

definition new_with_hasher :: "memory_storage \<Rightarrow> memory_storage \<Rightarrow> smt" where
  "new_with_hasher nodes values = \<lparr>smt_nodes = nodes, smt_values = values, smt_root = h256_zero, smt_parent = h256_zero\<rparr>"

definition set_root :: "h256 \<Rightarrow> smt \<Rightarrow> smt" where
  "set_root new_root t = t\<lparr>smt_root := new_root\<rparr>"

definition depth :: nat where
  "depth = path_size * 8"

section \<open>Walking down\<close>

type_synonym side_nodes_result = "h256 list \<times> h256 list \<times> bytes \<times> bytes option"

text \<open>The loop of \<open>side_nodes_for_root\<close>: side nodes and path nodes so far, the data of the current node
  and the last side node.\<close>

fun side_nodes_loop ::
  "memory_storage \<Rightarrow> h256 \<Rightarrow> nat list \<Rightarrow> h256 list \<times> h256 list \<times> bytes \<times> bytes
     \<Rightarrow> smt_error + (h256 list \<times> h256 list \<times> bytes \<times> bytes)" where
  "side_nodes_loop nodes p [] acc = Inr acc"
| "side_nodes_loop nodes p (i # is) (sides, path_nodes, current_data, _) =
     rbind (parse_node current_data) (\<lambda>(left_node, right_node).
     rbind (get_bits_at_from_msb p i) (\<lambda>b.
       let (side_node, next) = (if b = 1 then (left_node, right_node) else (right_node, left_node)) in
       rbind (h256_from_slice next) (\<lambda>node_hash.
       rbind (h256_from_slice side_node) (\<lambda>side_hash.
         let sides = sides @ [side_hash]; path_nodes = path_nodes @ [node_hash] in
         if h256_is_zero node_hash then Inr (sides, path_nodes, [], side_node)
         else rbind (ms_get nodes node_hash) (\<lambda>current_data.
              rbind (is_leaf current_data) (\<lambda>leaf.
                if leaf then Inr (sides, path_nodes, current_data, side_node)
                else side_nodes_loop nodes p is (sides, path_nodes, current_data, side_node)))))))"

definition side_nodes_for_root :: "memory_storage \<Rightarrow> h256 \<Rightarrow> h256 \<Rightarrow> bool \<Rightarrow> smt_error + side_nodes_result" where
  "side_nodes_for_root nodes p root get_sibling_data =
     (if h256_is_zero root then Inr ([], [root], [], None)
      else rbind (ms_get nodes root) (\<lambda>current_data.
           rbind (is_leaf current_data) (\<lambda>leaf.
             if leaf then Inr ([], [root], current_data, None)
             else rbind (side_nodes_loop nodes p [0..<depth] ([], [root], current_data, []))
                   (\<lambda>(sides, path_nodes, current_data, side_node).
                     rbind (if get_sibling_data then ms_get nodes side_node else Inr []) (\<lambda>sibling.
                       Inr (rev sides, rev path_nodes, current_data, Some sibling))))))"

section \<open>Insertion\<close>

text \<open>Hash the current node with its side node, store the result.\<close>

definition put_parent ::
  "(bytes \<Rightarrow> h256) \<Rightarrow> h256 \<Rightarrow> nat \<Rightarrow> h256 \<Rightarrow> bytes \<Rightarrow> (smt, smt_error, h256 \<times> bytes) action" where
  "put_parent dg p pos side_node current_data =
     bind (lift_res (get_bits_at_from_msb p pos)) (\<lambda>b.
       let (c, t) = (if b = 1 then digest_node dg side_node current_data else digest_node dg current_data side_node)
       in bind (on_nodes (ms_put c t)) (\<lambda>_. ret (c, c)))"

text \<open>The side node that turn \<open>i\<close> of the loop uses; \<open>None\<close> is \<open>continue\<close>.\<close>

definition upd_side_node :: "h256 list \<Rightarrow> nat \<Rightarrow> nat \<Rightarrow> h256 option" where
  "upd_side_node sides common_prefix_count i =
     (let offset_side_nodes = int depth - int (length sides)
      in if int i - offset_side_nodes < 0 \<or> length sides \<le> nat (int i - offset_side_nodes)
         then if common_prefix_count \<noteq> depth \<and> common_prefix_count > depth - 1 - i then Some placeholder else None
         else Some (sides ! nat (int i - offset_side_nodes)))"

definition upd_turn ::
  "(bytes \<Rightarrow> h256) \<Rightarrow> h256 \<Rightarrow> h256 list \<Rightarrow> nat \<Rightarrow> nat \<Rightarrow> h256 \<times> bytes \<Rightarrow> (smt, smt_error, h256 \<times> bytes) action" where
  "upd_turn dg p sides common_prefix_count i cur =
     (case upd_side_node sides common_prefix_count i of
        None \<Rightarrow> ret cur
      | Some side_node \<Rightarrow> put_parent dg p (depth - 1 - i) side_node (snd cur))"

text \<open>The common prefix of the path and the path of the leaf that the walk ended at, with the hash of its
  value.\<close>

definition upd_prefix :: "h256 \<Rightarrow> h256 \<Rightarrow> bytes \<Rightarrow> smt_error + (nat \<times> h256 option)" where
  "upd_prefix p path_node0 old_leaf_data =
     (if h256_is_zero path_node0 then Inr (depth, None)
      else rbind (parse_leaf old_leaf_data) (\<lambda>(ap, op).
           rbind (h256_from_slice ap) (\<lambda>actual_path.
           rbind (h256_from_slice op) (\<lambda>old_value_hash.
           rbind (count_common_prefix p actual_path) (\<lambda>n. Inr (n, Some old_value_hash))))))"

text \<open>The part of \<open>update_with_sides_nodes\<close> between the new leaf and the loop: \<open>None\<close> when the same value
  is stored already, which ends the function.\<close>

definition upd_split ::
  "(bytes \<Rightarrow> h256) \<Rightarrow> h256 \<Rightarrow> h256 \<Rightarrow> nat \<Rightarrow> h256 option \<Rightarrow> h256 \<Rightarrow> h256 \<times> bytes
     \<Rightarrow> (smt, smt_error, (h256 \<times> bytes) option) action" where
  "upd_split dg p value_hash common_prefix_count old_value_hash path_node0 cur =
     (if common_prefix_count \<noteq> depth then
        bind (put_parent dg p common_prefix_count path_node0 (snd cur)) (\<lambda>c. ret (Some c))
      else case old_value_hash of
        None \<Rightarrow> ret (Some cur)
      | Some old \<Rightarrow>
          if old = value_hash then ret None
          else bind (on_nodes (ms_delete path_node0)) (\<lambda>_.
               bind (ignore (on_values (ms_delete p))) (\<lambda>_. ret (Some cur))))"

definition update_with_sides_nodes ::
  "(bytes \<Rightarrow> h256) \<Rightarrow> h256 \<Rightarrow> bytes \<Rightarrow> h256 list \<Rightarrow> h256 list \<Rightarrow> bytes \<Rightarrow> (smt, smt_error, h256) action" where
  "update_with_sides_nodes dg p value sides path_nodes old_leaf_data =
     (let value_hash = dg value; (current_hash, current_data) = digest_leaf dg p value_hash in
      bind (on_nodes (ms_put current_hash current_data)) (\<lambda>_.
        case path_nodes of
          [] \<Rightarrow> fail Panicked
        | path_node0 # upper \<Rightarrow>
            bind (lift_res (upd_prefix p path_node0 old_leaf_data)) (\<lambda>(common_prefix_count, old_value_hash).
              bind (upd_split dg p value_hash common_prefix_count old_value_hash path_node0 (current_hash, current_hash))
              (\<lambda>split. case split of
                 None \<Rightarrow> gets smt_root
               | Some cur \<Rightarrow>
                   bind (for_each (\<lambda>node. on_nodes (ms_delete node)) upper) (\<lambda>_.
                   bind (for_acc (upd_turn dg p sides common_prefix_count) [0..<depth] cur) (\<lambda>(current_hash, _).
                   bind (on_values (ms_put p value)) (\<lambda>_.
                     ret current_hash)))))))"

section \<open>Deletion\<close>

text \<open>One turn of the loop of \<open>delete_with_sides_nodes\<close>: the hash so far, the data so far, and whether a
  side node other than the placeholder was met.\<close>

definition del_turn ::
  "(bytes \<Rightarrow> h256) \<Rightarrow> h256 \<Rightarrow> h256 list \<Rightarrow> nat \<Rightarrow> h256 \<times> bytes \<times> bool \<Rightarrow> (smt, smt_error, h256 \<times> bytes \<times> bool) action" where
  "del_turn dg p sides i acc =
     (let (current_hash, current_data, non_placeholder_reached) = acc; side_node = sides ! i;
          combine = (\<lambda>data. bind (put_parent dg p (length sides - 1 - i) side_node data) (\<lambda>(c, t). ret (c, t, True)))
      in if current_data = [] then
           bind (gets smt_nodes) (\<lambda>nodes.
           bind (lift_res (ms_get nodes side_node)) (\<lambda>side_node_value.
           bind (lift_res (is_leaf side_node_value)) (\<lambda>leaf.
             if leaf then ret (side_node, side_node, non_placeholder_reached)
             else combine placeholder)))
         else if \<not> non_placeholder_reached \<and> side_node = placeholder then ret acc
         else combine current_data)"

definition delete_with_sides_nodes ::
  "(bytes \<Rightarrow> h256) \<Rightarrow> h256 \<Rightarrow> h256 list \<Rightarrow> h256 list \<Rightarrow> bytes \<Rightarrow> (smt, smt_error, h256) action" where
  "delete_with_sides_nodes dg p sides path_nodes old_leaf_data =
     (case path_nodes of
        [] \<Rightarrow> fail Panicked
      | path_node0 # _ \<Rightarrow>
          if h256_is_zero path_node0 then fail KeyAlreadyEmpty
          else bind (lift_res (parse_leaf old_leaf_data)) (\<lambda>(actual_path, _).
                 if actual_path \<noteq> p then fail KeyAlreadyEmpty
                 else bind (for_each (\<lambda>node. on_nodes (ms_delete node)) path_nodes) (\<lambda>_.
                      bind (for_acc (del_turn dg p sides) [0..<length sides] (h256_zero, [], False))
                        (\<lambda>(current_hash, _, _). ret current_hash))))"

section \<open>The public operations\<close>

definition update_for_root :: "(bytes \<Rightarrow> h256) \<Rightarrow> bytes \<Rightarrow> bytes \<Rightarrow> h256 \<Rightarrow> (smt, smt_error, h256) action" where
  "update_for_root dg key value root =
     (let p = path dg key in
      bind (gets smt_nodes) (\<lambda>nodes.
      bind (lift_res (side_nodes_for_root nodes p root False)) (\<lambda>(sides, path_nodes, old_leaf_data, _).
        if value = [] then
          bind (on_values (ms_delete p)) (\<lambda>_. delete_with_sides_nodes dg p sides path_nodes old_leaf_data)
        else update_with_sides_nodes dg p value sides path_nodes old_leaf_data)))"

definition smt_update :: "(bytes \<Rightarrow> h256) \<Rightarrow> bytes \<Rightarrow> bytes \<Rightarrow> (smt, smt_error, h256) action" where
  "smt_update dg key value =
     bind (gets smt_root) (\<lambda>root.
     bind (update_for_root dg key value root) (\<lambda>new_root.
     bind (modify (set_root new_root)) (\<lambda>_. ret new_root)))"

definition smt_get :: "(bytes \<Rightarrow> h256) \<Rightarrow> smt \<Rightarrow> bytes \<Rightarrow> smt_error + bytes" where
  "smt_get dg t key =
     (if h256_is_zero (smt_root t) then Inr [] else ms_get_or_default (smt_values t) (path dg key) [])"

definition do_proof_for_root :: "(bytes \<Rightarrow> h256) \<Rightarrow> smt \<Rightarrow> bytes \<Rightarrow> h256 \<Rightarrow> bool \<Rightarrow> smt_error + smt_proof" where
  "do_proof_for_root dg t key root is_updatable =
     (let p = path dg key in
      rbind (side_nodes_for_root (smt_nodes t) p root is_updatable) (\<lambda>(sides, path_nodes, leaf_data, sibling).
        case path_nodes of
          [] \<Rightarrow> Inl Panicked
        | path_node0 # _ \<Rightarrow>
            rbind (if h256_is_zero path_node0 then Inr None
                   else rbind (parse_leaf leaf_data) (\<lambda>(actual_path, _).
                          Inr (if actual_path \<noteq> p then Some leaf_data else None)))
              (\<lambda>nm. Inr \<lparr>side_nodes = sides, non_membership_leaf_data = nm, sibling_data = sibling\<rparr>)))"

definition smt_proof_for :: "(bytes \<Rightarrow> h256) \<Rightarrow> smt \<Rightarrow> bytes \<Rightarrow> smt_error + smt_proof" where
  "smt_proof_for dg t key = do_proof_for_root dg t key (smt_root t) False"

definition proof_updatable :: "(bytes \<Rightarrow> h256) \<Rightarrow> smt \<Rightarrow> bytes \<Rightarrow> smt_error + smt_proof" where
  "proof_updatable dg t key = do_proof_for_root dg t key (smt_root t) True"

definition get_with_proof_for_root :: "(bytes \<Rightarrow> h256) \<Rightarrow> smt \<Rightarrow> bytes \<Rightarrow> h256 \<Rightarrow> smt_error + (bytes \<times> smt_proof)" where
  "get_with_proof_for_root dg t key root =
     rbind (smt_get dg t key) (\<lambda>value. rbind (do_proof_for_root dg t key root False) (\<lambda>prf. Inr (value, prf)))"

definition get_with_proof_updatable_for_root :: "(bytes \<Rightarrow> h256) \<Rightarrow> smt \<Rightarrow> bytes \<Rightarrow> h256 \<Rightarrow> smt_error + (bytes \<times> smt_proof)" where
  "get_with_proof_updatable_for_root dg t key root =
     rbind (smt_get dg t key) (\<lambda>value. rbind (do_proof_for_root dg t key root True) (\<lambda>prf. Inr (value, prf)))"

definition get_with_proof :: "(bytes \<Rightarrow> h256) \<Rightarrow> smt \<Rightarrow> bytes \<Rightarrow> smt_error + (bytes \<times> smt_proof)" where
  "get_with_proof dg t key = get_with_proof_for_root dg t key (smt_root t)"

definition get_with_proof_updatable :: "(bytes \<Rightarrow> h256) \<Rightarrow> smt \<Rightarrow> bytes \<Rightarrow> smt_error + (bytes \<times> smt_proof)" where
  "get_with_proof_updatable dg t key = get_with_proof_updatable_for_root dg t key (smt_root t)"

definition add_branch :: "(bytes \<Rightarrow> h256) \<Rightarrow> smt_proof \<Rightarrow> h256 \<Rightarrow> bytes \<Rightarrow> bytes \<Rightarrow> (smt, smt_error, unit) action" where
  "add_branch dg prf root key value =
     bind (lift_res (verify_proof_with_updates dg prf root key value)) (\<lambda>updates.
     bind (if value \<noteq> [] then on_values (ms_put (path dg key) value) else ret ()) (\<lambda>_.
     bind (for_each (\<lambda>update. on_nodes (ms_put (update ! 0) (update ! 1))) updates) (\<lambda>_.
       case sibling_data prf of
         None \<Rightarrow> ret ()
       | Some sibling \<Rightarrow>
           if side_nodes prf \<noteq> [] then on_nodes (ms_put (side_nodes prf ! 0) sibling) else ret ())))"

definition subtree :: "(bytes \<Rightarrow> h256) \<Rightarrow> smt \<Rightarrow> copy_strategy \<Rightarrow> bytes list \<Rightarrow> smt_error + smt" where
  "subtree dg t strategy import_keys =
     (let sub = (new_with_hasher ms_new ms_new)\<lparr>smt_parent := smt_root t, smt_root := smt_root t\<rparr>
      in case strategy of
           Partial \<Rightarrow>
             (let (r, sub') = for_each (\<lambda>key.
                    bind (lift_res (get_with_proof_updatable dg t key)) (\<lambda>(value, prf).
                      add_branch dg prf (smt_root t) key value)) import_keys (sub\<lparr>smt_nodes := smt_nodes t\<rparr>)
              in rbind r (\<lambda>_. Inr sub'))
         | Full \<Rightarrow> Inr t
         | NoCopy \<Rightarrow> Inr sub)"

section \<open>Encoding\<close>

text \<open>\<open>bincode\<close> is not part of the repository: its encoder and decoder of the four fields are parameters.\<close>

type_synonym smt_image = "(bytes \<times> bytes) list \<times> (bytes \<times> bytes) list \<times> h256 \<times> h256"

definition smt_encode :: "(smt_image \<Rightarrow> bytes) \<Rightarrow> smt \<Rightarrow> smt_error + bytes" where
  "smt_encode enc t =
     rbind (ms_snapshot (smt_nodes t)) (\<lambda>nodes.
     rbind (ms_snapshot (smt_values t)) (\<lambda>values.
       Inr (enc (nodes, values, smt_root t, smt_parent t))))"

definition smt_decode :: "(bytes \<Rightarrow> smt_error + smt_image) \<Rightarrow> bytes \<Rightarrow> smt_error + smt" where
  "smt_decode dec buf =
     rbind (dec buf) (\<lambda>(nodes_snapshot, values_snapshot, root, parent).
     rbind (ms_from_snapshot nodes_snapshot) (\<lambda>nodes.
     rbind (ms_from_snapshot values_snapshot) (\<lambda>values.
       Inr \<lparr>smt_nodes = nodes, smt_values = values, smt_root = root, smt_parent = parent\<rparr>)))"

end
