(* ===== verification/Smt_Refine.thy ===== *)
theory Smt_Refine
  imports Smt_Tree
begin

text \<open>
  The sparse Merkle tree refines a compressed binary tree, and that tree is a function of its
  leaves.  \<open>mtree\<close> is the tree that the node store spells out hash by hash; \<open>smt_rep\<close> relates it to the
  state of \<open>SparseMerkleTree\<close>.
\<close>

section \<open>Compressed Merkle trees\<close>

datatype mtree = MEmpty | MLeaf h256 h256 | MNode mtree mtree

fun is_node :: "mtree \<Rightarrow> bool" where
  "is_node (MNode l r) = True"
| "is_node _ = False"

fun thash :: "(bytes \<Rightarrow> h256) \<Rightarrow> mtree \<Rightarrow> h256" where
  "thash dg MEmpty = h256_zero"
| "thash dg (MLeaf p vh) = dg (0 # p @ vh)"
| "thash dg (MNode l r) = dg (1 # thash dg l @ thash dg r)"

fun tdata :: "(bytes \<Rightarrow> h256) \<Rightarrow> mtree \<Rightarrow> bytes" where
  "tdata dg MEmpty = []"
| "tdata dg (MLeaf p vh) = 0 # p @ vh"
| "tdata dg (MNode l r) = 1 # thash dg l @ thash dg r"

fun subs :: "mtree \<Rightarrow> mtree set" where
  "subs MEmpty = {}"
| "subs (MLeaf p vh) = {MLeaf p vh}"
| "subs (MNode l r) = insert (MNode l r) (subs l \<union> subs r)"

fun leaves :: "mtree \<Rightarrow> (h256 \<times> h256) set" where
  "leaves MEmpty = {}"
| "leaves (MLeaf p vh) = {(p, vh)}"
| "leaves (MNode l r) = leaves l \<union> leaves r"

text \<open>Leaves hang below the bits of their path; a node with an empty child has a node as its other child.\<close>

fun twf :: "nat \<Rightarrow> mtree \<Rightarrow> bool" where
  "twf d MEmpty = True"
| "twf d (MLeaf p vh) \<longleftrightarrow> length p = 32 \<and> length vh = 32"
| "twf d (MNode l r) \<longleftrightarrow> d < 256 \<and> twf (Suc d) l \<and> twf (Suc d) r
     \<and> (\<forall>e \<in> leaves l. \<not> path_bit (fst e) d) \<and> (\<forall>e \<in> leaves r. path_bit (fst e) d)"

fun compressed :: "mtree \<Rightarrow> bool" where
  "compressed (MNode l r) \<longleftrightarrow> compressed l \<and> compressed r \<and> (l = MEmpty \<longrightarrow> is_node r) \<and> (r = MEmpty \<longrightarrow> is_node l)"
| "compressed _ = True"

lemma leaves_nonempty: "compressed t \<Longrightarrow> t \<noteq> MEmpty \<Longrightarrow> leaves t \<noteq> {}"
  by (induction t) (auto, metis is_node.simps(2))

lemma length_thash [simp]: "digest32 dg \<Longrightarrow> length (thash dg t) = 32"
  by (cases t) simp_all

lemma subs_trans: "s \<in> subs t \<Longrightarrow> subs s \<subseteq> subs t"
  by (induction t) auto

lemma subs_self: "t \<noteq> MEmpty \<Longrightarrow> t \<in> subs t"
  by (cases t) auto

lemma subs_leaves: "s \<in> subs t \<Longrightarrow> leaves s \<subseteq> leaves t"
  by (induction t) auto

lemma subs_compressed: "s \<in> subs t \<Longrightarrow> compressed t \<Longrightarrow> compressed s \<and> s \<noteq> MEmpty"
  by (induction t) auto

lemma subs_size: "s \<in> subs t \<Longrightarrow> size s \<le> size t"
  by (induction t) auto

definition paths32 :: "mtree \<Rightarrow> bool" where
  "paths32 t \<longleftrightarrow> (\<forall>e \<in> leaves t. length (fst e) = 32 \<and> length (snd e) = 32)"

lemma twf_paths32: "twf d t \<Longrightarrow> paths32 t"
  by (induction t arbitrary: d) (auto simp: paths32_def)

text \<open>The digest is collision free on the strings stored for a set of trees, and avoids the placeholder.\<close>

definition cfree :: "(bytes \<Rightarrow> h256) \<Rightarrow> mtree set \<Rightarrow> bool" where
  "cfree dg T \<longleftrightarrow> inj_on dg (tdata dg ` T) \<and> h256_zero \<notin> dg ` tdata dg ` T"

lemma cfree_mono: "cfree dg T \<Longrightarrow> S \<subseteq> T \<Longrightarrow> cfree dg S"
  unfolding cfree_def by (meson image_mono inj_on_subset subsetD)

lemma thash_tdata: "t \<noteq> MEmpty \<Longrightarrow> thash dg t = dg (tdata dg t)"
  by (cases t) auto

lemma thash_zero: "cfree dg T \<Longrightarrow> t \<in> T \<Longrightarrow> t \<noteq> MEmpty \<Longrightarrow> thash dg t \<noteq> h256_zero"
  unfolding cfree_def thash_tdata by (metis imageI)

lemma thash_inject:
  assumes "digest32 dg"
  shows "cfree dg (subs s \<union> subs t) \<Longrightarrow> paths32 s \<Longrightarrow> paths32 t \<Longrightarrow> thash dg s = thash dg t \<Longrightarrow> s = t"
proof (induction s arbitrary: t)
  case MEmpty
  then show ?case
    using thash_zero [OF MEmpty(1), of t] subs_self [of t] by (cases "t = MEmpty") auto
next
  case (MLeaf p vh)
  have t: "t \<noteq> MEmpty"
    using thash_zero [OF MLeaf(1), of "MLeaf p vh"] MLeaf by auto
  have "tdata dg (MLeaf p vh) = tdata dg t"
    by (rule inj_onD [where f = dg]) (use MLeaf t subs_self [OF t] in \<open>auto simp: cfree_def thash_tdata\<close>)
  with MLeaf t show ?case
    by (cases t) (auto simp: paths32_def)
next
  case (MNode l r)
  have t: "t \<noteq> MEmpty"
    using thash_zero [OF MNode(3), of "MNode l r"] MNode by auto
  have "tdata dg (MNode l r) = tdata dg t"
    by (rule inj_onD [where f = dg]) (use MNode t subs_self [OF t] in \<open>auto simp: cfree_def thash_tdata\<close>)
  then obtain l' r' where t': "t = MNode l' r'" "thash dg l = thash dg l'" "thash dg r = thash dg r'"
    using assms t by (cases t) auto
  have "cfree dg (subs l \<union> subs l')" "cfree dg (subs r \<union> subs r')"
    by (rule cfree_mono [OF MNode.prems(1)], use t' in auto)+
  moreover have "paths32 l" "paths32 r" "paths32 l'" "paths32 r'"
    using MNode.prems t' by (auto simp: paths32_def)
  ultimately show ?case
    using MNode.IH t' by auto
qed

section \<open>A compressed tree is a function of its leaves\<close>

definition agree :: "h256 \<Rightarrow> h256 \<Rightarrow> nat \<Rightarrow> bool" where
  "agree p q d \<longleftrightarrow> (\<forall>i < d. path_bit p i = path_bit q i)"

lemma agree_Suc: "agree p q (Suc d) \<longleftrightarrow> agree p q d \<and> path_bit p d = path_bit q d"
  by (auto simp: agree_def less_Suc_eq)

lemma agree_full: "agree p q 256 \<Longrightarrow> length p = 32 \<Longrightarrow> length q = 32 \<Longrightarrow> p = q"
  by (rule path_bits_ext) (auto simp: agree_def)

text \<open>A node of a compressed tree has at least two leaves.\<close>

lemma node_two_leaves:
  "twf d t \<Longrightarrow> compressed t \<Longrightarrow> is_node t \<Longrightarrow> leaves t \<noteq> {e}"
proof (induction t arbitrary: d)
  case (MNode l r)
  show ?case
  proof
    assume *: "leaves (MNode l r) = {e}"
    have disj: "leaves l \<inter> leaves r = {}"
      using MNode.prems(1) by auto
    then consider "leaves l = {}" "leaves r = {e}" | "leaves r = {}" "leaves l = {e}"
      using * disj by (auto simp: Un_singleton_iff)
    then show False
    proof cases
      case 1
      then have "l = MEmpty"
        using leaves_nonempty [of l] MNode.prems by auto
      with 1 MNode show False by auto
    next
      case 2
      then have "r = MEmpty"
        using leaves_nonempty [of r] MNode.prems by auto
      with 2 MNode show False by auto
    qed
  qed
qed auto

lemma leaves_determine:
  "twf d s \<Longrightarrow> twf d t \<Longrightarrow> compressed s \<Longrightarrow> compressed t \<Longrightarrow> leaves s = leaves t \<Longrightarrow> s = t"
proof (induction s arbitrary: t d)
  case MEmpty
  then show ?case using leaves_nonempty [of t] by auto
next
  case (MLeaf p vh)
  then show ?case
    using node_two_leaves [of d t "(p, vh)"] by (cases t) simp_all
next
  case (MNode l r)
  have "leaves t \<noteq> {}" "leaves t \<noteq> {e}" for e
    unfolding MNode.prems(5) [symmetric]
    by (rule leaves_nonempty node_two_leaves [OF MNode.prems(1)]; use MNode.prems(3) in simp)+
  then obtain l' r' where t: "t = MNode l' r'"
    by (cases t) auto
  have split: "leaves l = {e \<in> leaves (MNode l r). \<not> path_bit (fst e) d}" "leaves l' = {e \<in> leaves t. \<not> path_bit (fst e) d}"
    "leaves r = {e \<in> leaves (MNode l r). path_bit (fst e) d}" "leaves r' = {e \<in> leaves t. path_bit (fst e) d}"
    using MNode.prems(1,2) t by auto
  have "leaves l = leaves l'"
    by (subst split(1), subst split(2)) (simp only: MNode.prems(5))
  moreover have "leaves r = leaves r'"
    by (subst split(3), subst split(4)) (simp only: MNode.prems(5))
  ultimately have "l = l'" "r = r'"
    using MNode.prems(1-4) t MNode.IH(1) [of "Suc d" l'] MNode.IH(2) [of "Suc d" r'] by simp_all
  with t show ?case
    by simp
qed

section \<open>Walking down a path\<close>

fun sides :: "nat \<Rightarrow> h256 \<Rightarrow> mtree \<Rightarrow> mtree list" where
  "sides d p (MNode l r) = (if path_bit p d then l # sides (Suc d) p r else r # sides (Suc d) p l)"
| "sides d p _ = []"

fun tip :: "nat \<Rightarrow> h256 \<Rightarrow> mtree \<Rightarrow> mtree" where
  "tip d p (MNode l r) = (if path_bit p d then tip (Suc d) p r else tip (Suc d) p l)"
| "tip d p t = t"

fun rebuild :: "nat \<Rightarrow> h256 \<Rightarrow> mtree list \<Rightarrow> mtree \<Rightarrow> mtree" where
  "rebuild d p [] s = s"
| "rebuild d p (x # xs) s =
     (if path_bit p d then MNode x (rebuild (Suc d) p xs s) else MNode (rebuild (Suc d) p xs s) x)"

text \<open>The inner nodes on the way, from the top.\<close>

fun spine :: "nat \<Rightarrow> h256 \<Rightarrow> mtree list \<Rightarrow> mtree \<Rightarrow> mtree list" where
  "spine d p [] s = []"
| "spine d p (x # xs) s = rebuild d p (x # xs) s # spine (Suc d) p xs s"

text \<open>What a well-formed tree looks like from the end of a path.\<close>

fun zip_wf :: "nat \<Rightarrow> h256 \<Rightarrow> mtree list \<Rightarrow> mtree \<Rightarrow> bool" where
  "zip_wf d p [] s \<longleftrightarrow> twf d s \<and> (\<forall>e \<in> leaves s. agree (fst e) p d)"
| "zip_wf d p (x # xs) s \<longleftrightarrow> d < 256 \<and> twf (Suc d) x
     \<and> (\<forall>e \<in> leaves x. agree (fst e) p d \<and> path_bit (fst e) d \<noteq> path_bit p d) \<and> zip_wf (Suc d) p xs s"

lemma rebuild_sides: "rebuild d p (sides d p t) (tip d p t) = t"
  by (induction d p t rule: sides.induct) auto

lemma tip_not_node: "\<not> is_node (tip d p t)"
  by (induction d p t rule: tip.induct) auto

lemma is_node_rebuild: "is_node (rebuild d p xs s) \<longleftrightarrow> xs \<noteq> [] \<or> is_node s"
  by (cases xs) auto

lemma sides_zip_wf: "twf d t \<Longrightarrow> \<forall>e \<in> leaves t. agree (fst e) p d \<Longrightarrow> zip_wf d p (sides d p t) (tip d p t)"
proof (induction t arbitrary: d)
  case (MNode l r)
  then have "\<forall>e \<in> leaves l. agree (fst e) p d" "\<forall>e \<in> leaves r. agree (fst e) p d"
    by auto
  with MNode show ?case
    by (cases "path_bit p d") (simp_all add: agree_Suc)
qed simp_all

lemma leaves_rebuild: "leaves (rebuild d p xs s) = leaves s \<union> (\<Union>x \<in> set xs. leaves x)"
  by (induction xs arbitrary: d) auto

lemma subs_rebuild: "subs (rebuild d p xs s) = subs s \<union> set (spine d p xs s) \<union> (\<Union>x \<in> set xs. subs x)"
  by (induction xs arbitrary: d) auto

lemma zip_wf_agree: "zip_wf d p xs s \<Longrightarrow> \<forall>e \<in> leaves (rebuild d p xs s). agree (fst e) p d"
proof (induction xs arbitrary: d)
  case (Cons x xs)
  then show ?case
    using Cons.IH [of "Suc d"] by (auto simp: agree_Suc)
qed simp

lemma zip_wf_twf: "zip_wf d p xs s \<Longrightarrow> twf d (rebuild d p xs s)"
proof (induction xs arbitrary: d)
  case (Cons x xs)
  then show ?case
    using zip_wf_agree [of "Suc d" p xs s] by (auto simp: agree_Suc)
qed simp

lemma zip_wf_sides_leaf:
  "zip_wf d p xs s \<Longrightarrow> x \<in> set xs \<Longrightarrow> e \<in> leaves x \<Longrightarrow> fst e \<noteq> p"
  by (induction xs arbitrary: d) auto

lemma zip_wf_length: "zip_wf d p xs s \<Longrightarrow> d \<le> 256 \<Longrightarrow> d + length xs \<le> 256"
proof (induction xs arbitrary: d)
  case (Cons x xs)
  then show ?case
    using Cons.IH [of "Suc d"] by simp
qed simp

lemma zip_wf_append:
  "zip_wf d p (xs @ ys) s \<longleftrightarrow> zip_wf d p xs MEmpty \<and> zip_wf (d + length xs) p ys s"
  by (induction xs arbitrary: d) auto

lemma zip_wf_tip: "zip_wf d p xs s \<Longrightarrow> zip_wf d p xs MEmpty \<and> zip_wf (d + length xs) p [] s"
  using zip_wf_append [of d p xs "[]" s] by simp

text \<open>When the two ends of a rebuilt tree keep it compressed.\<close>

lemma compressed_rebuild:
  "compressed (rebuild d p xs s) \<longleftrightarrow>
     (\<forall>x \<in> set xs. compressed x) \<and> compressed s
     \<and> (xs \<noteq> [] \<longrightarrow> (s = MEmpty \<longrightarrow> is_node (last xs)) \<and> (last xs = MEmpty \<longrightarrow> is_node s))"
proof (induction xs arbitrary: d)
  case (Cons x xs)
  have "rebuild (Suc d) p xs s \<noteq> MEmpty" if "xs \<noteq> []"
    using that is_node_rebuild [of "Suc d" p xs s] by (cases "rebuild (Suc d) p xs s") auto
  then show ?case
    by (cases "xs = []") (simp_all add: Cons is_node_rebuild conj_ac)
qed simp

text \<open>The nodes on a path are not below the side nodes of the path.\<close>

lemma spine_not_side:
  "zip_wf d p xs s \<Longrightarrow> compressed (rebuild d p xs s) \<Longrightarrow> set (spine d p xs s) \<inter> (\<Union>x \<in> set xs. subs x) = {}"
proof (induction xs arbitrary: d)
  case (Cons x xs)
  let ?t = "rebuild d p (x # xs) s" and ?c = "rebuild (Suc d) p xs s"
  have sub: "subs ?c \<union> subs x \<subseteq> subs ?t - {?t}"
    using subs_size [of ?t ?c] subs_size [of ?t x] by (auto split: if_splits)
  moreover have "(\<Union>y \<in> set xs. subs y) \<subseteq> subs ?c" "set (spine (Suc d) p xs s) \<subseteq> subs ?c"
    by (auto simp: subs_rebuild)
  moreover have "u \<notin> subs x" if "u \<in> subs ?c" for u
  proof
    assume "u \<in> subs x"
    from that have "leaves u \<noteq> {}"
      using subs_compressed [of u ?t] sub leaves_nonempty Cons.prems by blast
    moreover have "\<forall>e \<in> leaves u. agree (fst e) p (Suc d)" "\<forall>e \<in> leaves u. path_bit (fst e) d \<noteq> path_bit p d"
      using subs_leaves [OF that] subs_leaves [OF \<open>u \<in> subs x\<close>] zip_wf_agree [of "Suc d" p xs s] Cons.prems by auto
    ultimately show False
      by (auto simp: agree_Suc)
  qed
  moreover have "set (spine (Suc d) p xs s) \<inter> (\<Union>y \<in> set xs. subs y) = {}"
    using Cons by (intro Cons.IH) (auto split: if_splits)
  moreover have "?t \<notin> subs ?c" "?t \<notin> subs x"
    using sub by auto
  ultimately show ?case
    unfolding spine.simps(2) list.set(2) by blast
qed simp

section \<open>Hashes along a path\<close>

lemma thash_rebuild: "thash dg (rebuild d p xs s) = climb dg p d (rev (map (thash dg) xs)) (thash dg s)"
  by (induction xs arbitrary: d) (auto simp: climb_snoc comb_data_def)

lemma tdata_spine:
  "climb_data dg p d (rev (map (thash dg) xs)) (thash dg s) = rev (map (tdata dg) (spine d p xs s))"
  by (induction xs arbitrary: d) (auto simp: climb_snoc comb_data_def thash_rebuild [symmetric])

end
