(* ===== verification/Smt_Walk.thy ===== *)
theory Smt_Walk
  imports Smt_Refine
begin

text \<open>
  What the node store of a \<open>SparseMerkleTree\<close> holds for a compressed tree, how storing and deleting
  nodes changes it, and that \<open>side_nodes_for_root\<close> returns the side nodes and the nodes of the walk along
  a path.
\<close>

section \<open>What the node store holds\<close>

definition holds :: "(bytes \<Rightarrow> h256) \<Rightarrow> memory_storage \<Rightarrow> mtree set \<Rightarrow> bool" where
  "holds dg nd T \<longleftrightarrow> (\<forall>s \<in> T. ms_get nd (thash dg s) = Inr (tdata dg s))"

definition thash_inj :: "(bytes \<Rightarrow> h256) \<Rightarrow> mtree set \<Rightarrow> bool" where
  "thash_inj dg T \<longleftrightarrow> inj_on (thash dg) T \<and> MEmpty \<notin> T"

lemma thash_inj_mono: "thash_inj dg T \<Longrightarrow> S \<subseteq> T \<Longrightarrow> thash_inj dg S"
  unfolding thash_inj_def by (meson inj_on_subset subsetD)

lemma MEmpty_notin_subs [simp]: "MEmpty \<notin> subs t"
  by (induction t) auto

lemma cfree_thash_inj:
  assumes "digest32 dg" "cfree dg (subs s \<union> subs t)" "paths32 s" "paths32 t"
  shows "thash_inj dg (subs s \<union> subs t)"
  unfolding thash_inj_def
proof (intro conjI inj_onI)
  fix u v assume uv: "u \<in> subs s \<union> subs t" "v \<in> subs s \<union> subs t" "thash dg u = thash dg v"
  have "cfree dg (subs u \<union> subs v)"
    by (rule cfree_mono [OF assms(2)]) (use uv subs_trans in blast)
  moreover have "paths32 u" "paths32 v"
    using uv(1,2) assms(3,4) subs_leaves unfolding paths32_def by blast+
  ultimately show "u = v"
    using uv(3) thash_inject [OF assms(1)] by blast
qed simp

lemma holds_put:
  assumes "thash_inj dg (S \<union> set Ns)" "holds dg nd S"
  shows "\<exists>nd'. for_each (\<lambda>x. ms_put (dg x) x) (map (tdata dg) Ns) nd = (Inr (), nd') \<and> (btm_wf nd \<longrightarrow> btm_wf nd')
           \<and> holds dg nd' (S \<union> set Ns)"
proof -
  have th: "dg (tdata dg s) = thash dg s" if "s \<in> S \<union> set Ns" for s
  proof -
    have "s \<noteq> MEmpty"
      using that assms(1) by (auto simp: thash_inj_def)
    then show ?thesis by (simp add: thash_tdata)
  qed
  have "inj_on dg (set (map (tdata dg) Ns))"
    using assms(1) by (auto simp: inj_on_def thash_inj_def th)
  from ms.put_all [OF this, of nd] obtain nd' where
    nd': "for_each (\<lambda>x. ms_put (dg x) x) (map (tdata dg) Ns) nd = (Inr (), nd')" "btm_wf nd \<longrightarrow> btm_wf nd'"
    "\<forall>k. k \<notin> dg ` tdata dg ` set Ns \<longrightarrow> ms_get nd' k = ms_get nd k" "\<forall>s \<in> set Ns. ms_get nd' (dg (tdata dg s)) = Inr (tdata dg s)"
    by auto
  have "ms_get nd' (thash dg s) = Inr (tdata dg s)" if s: "s \<in> S" "s \<notin> set Ns" for s
  proof -
    have "thash dg s \<notin> dg ` tdata dg ` set Ns"
      using s th inj_onD [of "thash dg" "S \<union> set Ns" s] assms(1) by (auto simp: thash_inj_def)
    then show ?thesis
      using nd'(3) assms(2) s by (simp add: holds_def)
  qed
  then have "holds dg nd' (S \<union> set Ns)"
    using nd'(4) th by (auto simp: holds_def)
  with nd' show ?thesis by blast
qed

lemma holds_delete:
  assumes "thash_inj dg S" "holds dg nd S" "set Os \<subseteq> S" "distinct Os"
  shows "\<exists>nd'. for_each ms_delete (map (thash dg) Os) nd = (Inr (), nd') \<and> (btm_wf nd \<longrightarrow> btm_wf nd')
           \<and> holds dg nd' (S - set Os)"
proof -
  have inj: "inj_on (thash dg) S"
    using assms(1) by (simp add: thash_inj_def)
  have "distinct (map (thash dg) Os)"
    using inj assms(3,4) by (simp add: distinct_map inj_on_subset)
  moreover have "\<forall>k \<in> set (map (thash dg) Os). \<exists>v. ms_get nd k = Inr v"
    using assms(2,3) by (auto simp: holds_def)
  ultimately obtain nd' where nd': "for_each ms_delete (map (thash dg) Os) nd = (Inr (), nd')"
    "btm_wf nd \<longrightarrow> btm_wf nd'" "\<forall>k. k \<notin> thash dg ` set Os \<longrightarrow> ms_get nd' k = ms_get nd k"
    using ms.del_all by (metis set_map)
  moreover have "thash dg s \<notin> thash dg ` set Os" if "s \<in> S - set Os" for s
    using that inj assms(3) by (auto simp: inj_on_def)
  ultimately show ?thesis
    using assms(2) by (auto simp: holds_def)
qed

lemma on_nodes_simps [simp]:
  "m (smt_nodes st) = (r, n) \<Longrightarrow> on_nodes m st = (r, st\<lparr>smt_nodes := n\<rparr>)"
  by (simp add: on_nodes_def)

lemma on_values_simps [simp]:
  "m (smt_values st) = (r, n) \<Longrightarrow> on_values m st = (r, st\<lparr>smt_values := n\<rparr>)"
  by (simp add: on_values_def)

lemma for_each_on_nodes:
  "for_each m xs (smt_nodes st) = (Inr (), n) \<Longrightarrow> for_each (\<lambda>x. on_nodes (m x)) xs st = (Inr (), st\<lparr>smt_nodes := n\<rparr>)"
proof (induction xs arbitrary: st)
  case (Cons x xs)
  then obtain n1 where "m x (smt_nodes st) = (Inr (), n1)" "for_each m xs n1 = (Inr (), n)"
    by (auto simp: bind_eq_Inr)
  with Cons.IH [of "st\<lparr>smt_nodes := n1\<rparr>"] show ?case by simp
qed simp

section \<open>Walking down\<close>

lemma depth_256 [simp]: "depth = 256"
  by (simp add: depth_def path_size_def HASH_LEN_def)

lemma side_nodes_loop_step:
  assumes "digest32 dg" "length p = 32" "d < 256" "cfree dg (subs (MNode l r))" "holds dg nd (subs (MNode l r))"
    and c: "c = (if path_bit p d then r else l)" and b: "b = (if path_bit p d then l else r)"
  shows "side_nodes_loop nd p (d # is) (S, P, tdata dg (MNode l r), x) =
     (if is_node c then side_nodes_loop nd p is (S @ [thash dg b], P @ [thash dg c], tdata dg c, thash dg b)
      else Inr (S @ [thash dg b], P @ [thash dg c], tdata dg c, thash dg b))"
proof -
  have bit: "get_bits_at_from_msb p d = Inr (of_bool (path_bit p d))"
    using assms(2,3) by (intro get_bits_in_range) simp
  have parse: "parse_node (tdata dg (MNode l r)) = Inr (thash dg l, thash dg r)"
    using parse_node_digest_node [of "thash dg l" dg "thash dg r"] assms(1)
    by (simp add: digest_node_def smt_consts Let_def)
  have get: "c \<noteq> MEmpty \<Longrightarrow> ms_get nd (thash dg c) = Inr (tdata dg c)"
    using assms(5) subs_self [of c] c by (auto simp: holds_def)
  have zero: "h256_is_zero (thash dg c) \<longleftrightarrow> c = MEmpty"
    using thash_zero [OF assms(4), of c] subs_self [of c] c assms(1)
    by (cases "c = MEmpty") (auto simp: h256_is_zero_iff)
  have leaf: "c \<noteq> MEmpty \<Longrightarrow> is_leaf (tdata dg c) = Inr (\<not> is_node c)"
    by (cases c) (simp_all add: is_leaf_def smt_consts)
  have "(side, next) = (if of_bool (path_bit p d) = (1::nat) then (thash dg l, thash dg r) else (thash dg r, thash dg l)) \<Longrightarrow>
      side = thash dg b \<and> next = thash dg c" for side "next"
    using c b by (auto split: if_splits)
  with zero leaf get parse bit assms(1) c b show ?thesis
    by (cases c) (auto simp: h256_from_slice_def HASH_LEN_def simp del: tdata.simps(2,3) split: if_splits)
qed

lemma side_nodes_loop_spec:
  assumes "digest32 dg" "length p = 32"
  shows "is_node t \<Longrightarrow> twf d t \<Longrightarrow> cfree dg (subs t) \<Longrightarrow> holds dg nd (subs t) \<Longrightarrow>
     side_nodes_loop nd p [d..<256] (S, P, tdata dg t, x) =
       Inr (S @ map (thash dg) (sides d p t), P @ map (thash dg) (tl (spine d p (sides d p t) (tip d p t)) @ [tip d p t]),
            tdata dg (tip d p t), thash dg (last (sides d p t)))"
proof (induction t arbitrary: d S P x)
  case (MNode l r)
  define c where "c = (if path_bit p d then r else l)"
  define b where "b = (if path_bit p d then l else r)"
  have upt: "[d..<256] = d # [Suc d..<256]"
    using MNode.prems(2) by (simp add: upt_conv_Cons)
  have walk: "sides d p (MNode l r) = b # sides (Suc d) p c" "tip d p (MNode l r) = tip (Suc d) p c"
    by (simp_all add: b_def c_def)
  note step = side_nodes_loop_step [OF assms _ MNode.prems(3,4) c_def b_def, of _ S P x]
  show ?case
  proof (cases "is_node c")
    case True
    have sub: "subs c \<subseteq> subs (MNode l r)" "twf (Suc d) c"
      using MNode.prems(2) by (auto simp: c_def)
    have ne: "sides (Suc d) p c \<noteq> []"
      using True by (cases c) auto
    have "side_nodes_loop nd p [Suc d..<256] (S @ [thash dg b], P @ [thash dg c], tdata dg c, thash dg b) =
       Inr ((S @ [thash dg b]) @ map (thash dg) (sides (Suc d) p c),
            (P @ [thash dg c]) @ map (thash dg) (tl (spine (Suc d) p (sides (Suc d) p c) (tip (Suc d) p c)) @ [tip (Suc d) p c]),
            tdata dg (tip (Suc d) p c), thash dg (last (sides (Suc d) p c)))"
      using MNode.IH True sub cfree_mono [OF MNode.prems(3) sub(1)] MNode.prems(4)
      by (auto simp: c_def holds_def split: if_splits)
    moreover have "spine (Suc d) p (sides (Suc d) p c) (tip (Suc d) p c) = c # tl (spine (Suc d) p (sides (Suc d) p c) (tip (Suc d) p c))"
      using ne rebuild_sides [of "Suc d" p c] by (cases "sides (Suc d) p c") auto
    ultimately show ?thesis
      using step True MNode.prems(2) ne unfolding upt walk by simp (metis list.simps(9))
  next
    case False
    then have "sides (Suc d) p c = []" "tip (Suc d) p c = c"
      by (cases c; simp)+
    then show ?thesis
      using step False MNode.prems(2) unfolding upt walk by simp
  qed
qed auto

lemma last_side:
  "compressed t \<Longrightarrow> is_node t \<Longrightarrow> last (sides d p t) \<noteq> MEmpty \<and> last (sides d p t) \<in> subs t"
proof (induction t arbitrary: d)
  case (MNode l r)
  define c where "c = (if path_bit p d then r else l)"
  define b where "b = (if path_bit p d then l else r)"
  have walk: "sides d p (MNode l r) = b # sides (Suc d) p c"
    by (simp add: b_def c_def)
  show ?case
  proof (cases "is_node c")
    case True
    then have "sides (Suc d) p c \<noteq> []"
      by (cases c) auto
    with True MNode show ?thesis
      unfolding walk by (auto simp: c_def split: if_splits)
  next
    case False
    then have "sides (Suc d) p c = []" "b \<noteq> MEmpty"
      using MNode.prems by (cases c; auto simp: b_def c_def split: if_splits)+
    then show ?thesis
      using subs_self [of b] unfolding walk by (auto simp: b_def)
  qed
qed auto

text \<open>The nodes of a walk, from the root to the tip.\<close>

definition walk :: "h256 \<Rightarrow> mtree \<Rightarrow> mtree list" where
  "walk p t = spine 0 p (sides 0 p t) (tip 0 p t) @ [tip 0 p t]"

lemma side_nodes_for_root_spec:
  assumes "digest32 dg" "length p = 32" "twf 0 t" "compressed t" "cfree dg (subs t)" "holds dg nd (subs t)"
  shows "\<exists>sib. side_nodes_for_root nd p (thash dg t) upd =
     Inr (rev (map (thash dg) (sides 0 p t)), rev (map (thash dg) (walk p t)), tdata dg (tip 0 p t), sib)"
proof (cases "is_node t")
  case True
  then have t: "t \<noteq> MEmpty" "t \<in> subs t"
    using subs_self by (cases t; auto)+
  have "spine 0 p (sides 0 p t) (tip 0 p t) = t # tl (spine 0 p (sides 0 p t) (tip 0 p t))"
    using True rebuild_sides [of 0 p t] by (cases "sides 0 p t") (auto, metis tip_not_node)
  then have walk: "map (thash dg) (walk p t) = thash dg t # map (thash dg) (tl (spine 0 p (sides 0 p t) (tip 0 p t)) @ [tip 0 p t])"
    unfolding walk_def by (metis append_Cons list.simps(9))
  have get: "ms_get nd (thash dg t) = Inr (tdata dg t)" "ms_get nd (thash dg (last (sides 0 p t))) = Inr (tdata dg (last (sides 0 p t)))"
    using assms(6) t last_side [OF assms(4) True] by (auto simp: holds_def)
  have "is_leaf (tdata dg t) = Inr False" "\<not> h256_is_zero (thash dg t)"
    using True thash_zero [OF assms(5) t(2,1)] assms(1) by (cases t; simp add: is_leaf_def smt_consts h256_is_zero_iff)+
  then show ?thesis
    using side_nodes_loop_spec [OF assms(1,2) True assms(3,5,6), of "[]" "[thash dg t]" "[]"] get
    by (simp add: side_nodes_for_root_def walk)
next
  case False
  then have "sides 0 p t = []" "tip 0 p t = t"
    by (cases t; simp)+
  moreover have "t \<noteq> MEmpty \<Longrightarrow> ms_get nd (thash dg t) = Inr (tdata dg t) \<and> is_leaf (tdata dg t) = Inr True"
    using False assms(6) by (cases t) (auto simp: holds_def is_leaf_def smt_consts)
  moreover have "h256_is_zero (thash dg t) \<longleftrightarrow> t = MEmpty"
    using thash_zero [OF assms(5), of t] subs_self [of t] assms(1) by (cases "t = MEmpty") (auto simp: h256_is_zero_iff)
  ultimately show ?thesis
    by (cases "t = MEmpty") (simp_all add: side_nodes_for_root_def walk_def)
qed

end
