(* ===== verification/Smt_Update.thy ===== *)
theory Smt_Update
  imports Smt_Walk
begin

text \<open>
  \<open>update\<close> with a value against the compressed tree: \<open>tinsert\<close> is the tree after the update, and the node
  store that \<open>update_with_sides_nodes\<close> leaves holds it.
\<close>

section \<open>Insertion into the tree\<close>

definition common_prefix :: "h256 \<Rightarrow> h256 \<Rightarrow> nat" where
  "common_prefix p q = (case count_common_prefix p q of Inl _ \<Rightarrow> 0 | Inr n \<Rightarrow> n)"

text \<open>What is put between the end of the walk and the new leaf: nothing, or placeholders down to the
  first bit where the paths part, and the leaf that was there.\<close>

fun tsplit :: "h256 \<Rightarrow> nat \<Rightarrow> mtree \<Rightarrow> mtree list" where
  "tsplit p n (MLeaf q w) = (if q = p then [] else replicate (common_prefix p q - n) MEmpty @ [MLeaf q w])"
| "tsplit p n _ = []"

definition tinsert :: "h256 \<Rightarrow> h256 \<Rightarrow> mtree \<Rightarrow> mtree" where
  "tinsert p vh t = rebuild 0 p (sides 0 p t @ tsplit p (length (sides 0 p t)) (tip 0 p t)) (MLeaf p vh)"

lemma common_prefix_spec:
  assumes "length p = 32" "length q = 32" "p \<noteq> q"
  shows "count_common_prefix p q = Inr (common_prefix p q)" "common_prefix p q < 256"
    "agree p q (common_prefix p q)" "path_bit p (common_prefix p q) \<noteq> path_bit q (common_prefix p q)"
proof -
  obtain n where n: "count_common_prefix p q = Inr n" "n \<le> 256"
    "\<And>i. i < n \<Longrightarrow> path_bit p i = path_bit q i" "n < 256 \<Longrightarrow> path_bit p n \<noteq> path_bit q n"
    using count_common_prefix_spec [of p q] assms by auto
  have "n \<noteq> 256"
    using agree_full [of p q] n(3) assms by (auto simp: agree_def)
  with n show "count_common_prefix p q = Inr (common_prefix p q)" "common_prefix p q < 256"
    "agree p q (common_prefix p q)" "path_bit p (common_prefix p q) \<noteq> path_bit q (common_prefix p q)"
    by (auto simp: common_prefix_def agree_def)
qed

lemma common_prefix_ge: 
  assumes "length p = 32" "length q = 32" "p \<noteq> q" "agree q p n"
  shows "n \<le> common_prefix p q"
  using common_prefix_spec [OF assms(1-3)] assms(4) by (auto simp: agree_def not_le [symmetric])

lemma agree_sym: "agree p q n \<Longrightarrow> agree q p n"
  by (simp add: agree_def)

lemma zip_wf_replicate: "d + k \<le> 256 \<Longrightarrow> zip_wf d p (replicate k MEmpty) MEmpty"
  by (induction k arbitrary: d) auto

text \<open>A well-formed tree seen from the end of a path, and after the insertion.\<close>

lemma walk_wf: "twf 0 t \<Longrightarrow> zip_wf 0 p (sides 0 p t) (tip 0 p t)"
  by (rule sides_zip_wf) (simp_all add: agree_def)

lemma tsplit_zip_wf:
  assumes "zip_wf n p [] e" "length p = 32" "length vh = 32" "n \<le> 256"
  shows "zip_wf n p (tsplit p n e) (MLeaf p vh)"
proof (cases "\<exists>q w. e = MLeaf q w \<and> q \<noteq> p")
  case True
  then obtain q w where e: "e = MLeaf q w" "q \<noteq> p" "length q = 32" "agree q p n" "length w = 32"
    using assms(1) by auto
  note cp = common_prefix_spec [OF assms(2) e(3) e(2) [symmetric]]
  have n: "n + (common_prefix p q - n) = common_prefix p q"
    using common_prefix_ge [OF assms(2) e(3) e(2) [symmetric] e(4)] by simp
  have "zip_wf (common_prefix p q) p [MLeaf q w] (MLeaf p vh)"
    using cp e assms by (auto simp: agree_def)
  moreover have "zip_wf n p (replicate (common_prefix p q - n) MEmpty) MEmpty"
    using cp(2) n by (intro zip_wf_replicate) simp
  ultimately show ?thesis
    using e n by (simp only: tsplit.simps if_False zip_wf_append length_replicate)
next
  case False
  then have "tsplit p n e = []"
    by (cases e) auto
  then show ?thesis
    using assms by (simp add: agree_def)
qed

lemma tinsert_zip_wf:
  assumes "twf 0 t" "length p = 32" "length vh = 32"
  shows "zip_wf 0 p (sides 0 p t @ tsplit p (length (sides 0 p t)) (tip 0 p t)) (MLeaf p vh)"
  using walk_wf [OF assms(1), of p, THEN zip_wf_tip] tsplit_zip_wf [OF _ assms(2,3)] zip_wf_length [OF walk_wf [OF assms(1)]]
  by (simp add: zip_wf_append)

lemma tinsert_wf:
  assumes "twf 0 t" "compressed t" "length p = 32" "length vh = 32"
  shows "twf 0 (tinsert p vh t)" "compressed (tinsert p vh t)"
proof -
  show "twf 0 (tinsert p vh t)"
    unfolding tinsert_def by (rule zip_wf_twf [OF tinsert_zip_wf [OF assms(1,3,4)]])
  have "compressed (rebuild 0 p (sides 0 p t) (tip 0 p t))"
    using assms(2) by (simp add: rebuild_sides)
  then show "compressed (tinsert p vh t)"
    using tip_not_node [of 0 p t] unfolding tinsert_def compressed_rebuild
    by (cases "tip 0 p t") auto
qed

lemma tip_leaf:
  assumes "twf 0 t" "(p, w) \<in> leaves t"
  shows "tip 0 p t = MLeaf p w"
proof -
  have "leaves t = leaves (tip 0 p t) \<union> (\<Union>x \<in> set (sides 0 p t). leaves x)"
    using leaves_rebuild [of 0 p "sides 0 p t" "tip 0 p t"] by (simp add: rebuild_sides)
  then have "(p, w) \<in> leaves (tip 0 p t)"
    using zip_wf_sides_leaf [OF walk_wf [OF assms(1), of p]] assms(2) by fastforce
  then show ?thesis
    using tip_not_node [of 0 p t] by (cases "tip 0 p t") auto
qed

lemma leaves_walk: "leaves t = leaves (tip 0 p t) \<union> (\<Union>x \<in> set (sides 0 p t). leaves x)"
  using leaves_rebuild [of 0 p "sides 0 p t" "tip 0 p t"] by (simp add: rebuild_sides)

lemma leaves_tinsert:
  assumes "twf 0 t"
  shows "leaves (tinsert p vh t) = {e \<in> leaves t. fst e \<noteq> p} \<union> {(p, vh)}"
proof -
  have "fst e \<noteq> p" if "x \<in> set (sides 0 p t)" "e \<in> leaves x" for x e
    using zip_wf_sides_leaf [OF walk_wf [OF assms] that] .
  then show ?thesis
    using tip_not_node [of 0 p t] unfolding tinsert_def leaves_rebuild leaves_walk [of t p]
    by (cases "tip 0 p t") auto
qed

lemma tinsert_same:
  assumes "tip 0 p t = MLeaf p vh"
  shows "tinsert p vh t = t"
  using rebuild_sides [of 0 p t] assms by (simp add: tinsert_def)

section \<open>The loop of the insertion\<close>

lemma put_parent_eq:
  assumes "length p = 32" "pos < 256"
  shows "put_parent dg p pos side cur st =
     (let x = comb_data (path_bit p pos) side cur
      in (Inr (dg x, dg x), st\<lparr>smt_nodes := snd (ms_put (dg x) x (smt_nodes st))\<rparr>))"
  using get_bits_in_range [of pos p] assms
  by (simp add: put_parent_def digest_node_def comb_data_def smt_consts Let_def ms_put_def)

lemma upd_loop_suffix:
  assumes "length p = 32"
  shows "length suf \<le> 256 \<Longrightarrow> \<forall>j < length suf. upd_side_node sd cp (256 - length suf + j) = Some (suf ! j) \<Longrightarrow>
     for_acc (upd_turn dg p sd cp) [256 - length suf..<256] (c, c) st =
       (Inr (climb dg p 0 suf c, climb dg p 0 suf c),
        st\<lparr>smt_nodes := snd (for_each (\<lambda>x. ms_put (dg x) x) (climb_data dg p 0 suf c) (smt_nodes st))\<rparr>)"
proof (induction suf arbitrary: c st)
  case (Cons n suf)
  let ?x = "comb_data (path_bit p (length suf)) n c" and ?i = "256 - Suc (length suf)"
  have upt: "[?i..<256] = ?i # [256 - length suf..<256]"
  proof -
    have "?i < 256" "Suc ?i = 256 - length suf"
      using Cons.prems(1) by auto
    then show ?thesis
      using upt_conv_Cons [of ?i 256] by (simp only:)
  qed
  have "upd_side_node sd cp ?i = Some n"
    using Cons.prems(2) by force
  moreover have "depth - 1 - ?i = length suf"
    using Cons.prems(1) by simp
  ultimately have "upd_turn dg p sd cp ?i (c, c) st =
      (Inr (dg ?x, dg ?x), st\<lparr>smt_nodes := snd (ms_put (dg ?x) ?x (smt_nodes st))\<rparr>)"
    using put_parent_eq [OF assms, of "length suf"] Cons.prems(1) by (simp add: upd_turn_def Let_def)
  moreover have "\<forall>j < length suf. upd_side_node sd cp (256 - length suf + j) = Some (suf ! j)"
  proof (intro allI impI)
    fix j assume "j < length suf"
    then have "256 - length (n # suf) + Suc j = 256 - length suf + j"
      using Cons.prems(1) by simp
    then show "upd_side_node sd cp (256 - length suf + j) = Some (suf ! j)"
      using Cons.prems(2) \<open>j < length suf\<close> by (metis Suc_less_eq length_Cons nth_Cons_Suc)
  qed
  ultimately show ?case
    using Cons.IH Cons.prems(1) upt by (simp add: Let_def ms_put_def)
qed simp

lemma upd_loop_prefix:
  "\<forall>i \<in> set is. upd_side_node sd cp i = None \<Longrightarrow> for_acc (upd_turn dg p sd cp) is cur st = (Inr cur, st)"
  by (induction "is") (auto simp: upd_turn_def)

text \<open>The side nodes that the loop uses: placeholders above the split, then the side nodes of the walk.\<close>

lemma upd_side_node_spec:
  assumes "length sd \<le> 256" "cp \<noteq> 256 \<Longrightarrow> length sd \<le> cp \<and> cp < 256"
    and "ns = (if cp = 256 then [] else replicate (cp - length sd) h256_zero) @ sd"
  shows "length ns \<le> 256" "i < 256 - length ns \<Longrightarrow> upd_side_node sd cp i = None"
    "j < length ns \<Longrightarrow> upd_side_node sd cp (256 - length ns + j) = Some (ns ! j)"
proof -
  show "length ns \<le> 256"
    using assms by auto
  show "i < 256 - length ns \<Longrightarrow> upd_side_node sd cp i = None"
    using assms by (auto simp: upd_side_node_def Let_def split: if_splits)
  have idx: "int (256 - length ns + j) - (256 - int (length sd)) = int j - (int (length ns) - int (length sd))"
    using \<open>length ns \<le> 256\<close> by simp
  show "upd_side_node sd cp (256 - length ns + j) = Some (ns ! j)" if j: "j < length ns"
  proof (cases "cp = 256")
    case True
    then show ?thesis
      using j assms(3) idx by (simp add: upd_side_node_def Let_def)
  next
    case False
    then have len: "length ns = cp" "length sd \<le> cp" "cp < 256"
      using assms by auto
    show ?thesis
    proof (cases "j < cp - length sd")
      case True
      then show ?thesis
        using False len idx assms(3) by (auto simp: upd_side_node_def Let_def nth_append placeholder_def)
    next
      case below: False
      define m where "m = j - (cp - length sd)"
      have idx': "int (256 - length ns + j) - (int 256 - int (length sd)) = int m"
        using idx len below by (simp add: m_def)
      have "m < length sd" "ns ! j = sd ! m"
        using j len below False assms(3) by (simp_all add: m_def nth_append)
      then show ?thesis
        unfolding upd_side_node_def Let_def depth_256 idx' by simp
    qed
  qed
qed

lemma upd_loop:
  assumes "length p = 32" "length sd \<le> 256" "cp \<noteq> 256 \<Longrightarrow> length sd \<le> cp \<and> cp < 256"
    and ns: "ns = (if cp = 256 then [] else replicate (cp - length sd) h256_zero) @ sd"
  shows "for_acc (upd_turn dg p sd cp) [0..<256] (c, c) st =
       (Inr (climb dg p 0 ns c, climb dg p 0 ns c),
        st\<lparr>smt_nodes := snd (for_each (\<lambda>x. ms_put (dg x) x) (climb_data dg p 0 ns c) (smt_nodes st))\<rparr>)"
proof -
  note spec = upd_side_node_spec [OF assms(2-4)]
  have "[0..<256] = [0..<256 - length ns] @ [256 - length ns..<256]"
    using upt_add_eq_append [of 0 "256 - length ns" "length ns"] spec(1) by simp
  then show ?thesis
    using upd_loop_prefix [of "[0..<256 - length ns]" sd cp dg p "(c, c)" st] upd_loop_suffix [OF assms(1) spec(1), of sd cp dg c st] spec(2,3)
    by (simp add: for_acc_append)
qed

section \<open>The node store after the insertion\<close>

lemma rebuild_append: "rebuild d p (xs @ ys) s = rebuild d p xs (rebuild (d + length xs) p ys s)"
  by (induction xs arbitrary: d) auto

lemma spine_leaves: "u \<in> set (spine d p xs s) \<Longrightarrow> leaves s \<subseteq> leaves u"
  by (induction xs arbitrary: d) (auto simp: leaves_rebuild)

lemma spine_is_node: "u \<in> set (spine d p xs s) \<Longrightarrow> is_node u"
  by (induction xs arbitrary: d) auto

lemma distinct_spine: "distinct (spine d p xs s)"
proof (induction xs arbitrary: d)
  case (Cons x xs)
  have "size u < size (rebuild d p (x # xs) s)" if "u \<in> set (spine (Suc d) p xs s)" for u
    using subs_size [of u "rebuild (Suc d) p xs s"] that by (auto simp: subs_rebuild)
  then show ?case
    using Cons by fastforce
qed simp

lemma tip_subs: "tip 0 p t \<noteq> MEmpty \<Longrightarrow> tip 0 p t \<in> subs t"
  using subs_rebuild [of 0 p "sides 0 p t" "tip 0 p t"] subs_self [of "tip 0 p t"] by (auto simp: rebuild_sides)

lemma side_subs: "x \<in> set (sides 0 p t) \<Longrightarrow> subs x \<subseteq> subs t"
  using subs_rebuild [of 0 p "sides 0 p t" "tip 0 p t"] by (auto simp: rebuild_sides)

lemma spine_subs: "set (spine 0 p (sides 0 p t) (tip 0 p t)) \<subseteq> subs t"
  using subs_rebuild [of 0 p "sides 0 p t" "tip 0 p t"] by (auto simp: rebuild_sides)

text \<open>Put \<open>N1\<close>, delete \<open>Os\<close>, put \<open>N2\<close>.\<close>

lemma store_change:
  assumes "thash_inj dg (subs t \<union> subs t')" "holds dg nd (subs t)"
    and "distinct Os" "set Os \<subseteq> subs t" "set Os \<inter> subs t' = {}"
    and "set N1 \<union> set N2 \<subseteq> subs t'" "subs t' \<subseteq> subs t \<union> set N1 \<union> set N2"
  obtains nd1 nd2 nd3 where "for_each (\<lambda>x. ms_put (dg x) x) (map (tdata dg) N1) nd = (Inr (), nd1)"
    "for_each ms_delete (map (thash dg) Os) nd1 = (Inr (), nd2)"
    "for_each (\<lambda>x. ms_put (dg x) x) (map (tdata dg) N2) nd2 = (Inr (), nd3)"
    "holds dg nd3 (subs t')" "btm_wf nd \<longrightarrow> btm_wf nd3"
proof -
  let ?T = "subs t \<union> subs t'"
  have inj: "S \<subseteq> ?T \<Longrightarrow> thash_inj dg S" for S
    using thash_inj_mono [OF assms(1)] by blast
  obtain nd1 where 1: "for_each (\<lambda>x. ms_put (dg x) x) (map (tdata dg) N1) nd = (Inr (), nd1)"
    "btm_wf nd \<longrightarrow> btm_wf nd1" "holds dg nd1 (subs t \<union> set N1)"
    using holds_put [OF inj assms(2), of N1] assms(6) by auto
  obtain nd2 where 2: "for_each ms_delete (map (thash dg) Os) nd1 = (Inr (), nd2)"
    "btm_wf nd1 \<longrightarrow> btm_wf nd2" "holds dg nd2 (subs t \<union> set N1 - set Os)"
    using holds_delete [OF inj 1(3), of Os] assms(3,4,6) by auto
  obtain nd3 where 3: "for_each (\<lambda>x. ms_put (dg x) x) (map (tdata dg) N2) nd2 = (Inr (), nd3)"
    "btm_wf nd2 \<longrightarrow> btm_wf nd3" "holds dg nd3 (subs t \<union> set N1 - set Os \<union> set N2)"
    using holds_put [OF inj 2(3), of N2] assms(6) by auto
  have "subs t' \<subseteq> subs t \<union> set N1 - set Os \<union> set N2"
    using assms(5,7) by auto
  with 3(3) have "holds dg nd3 (subs t')"
    by (auto simp: holds_def)
  with 1 2 3 show ?thesis
    by (intro that [OF 1(1) 2(1) 3(1)]) auto
qed

text \<open>The old walk is not part of the new tree.\<close>

lemma old_walk_gone:
  assumes "twf 0 t" "compressed t" "(p, vh) \<notin> leaves t" "u \<in> set (spine 0 p (sides 0 p t) (tip 0 p t))"
  shows "u \<notin> subs (tinsert p vh t)"
proof
  let ?xs = "sides 0 p t" and ?e = "tip 0 p t"
  let ?ys = "tsplit p (length ?xs) ?e"
  assume "u \<in> subs (tinsert p vh t)"
  then consider "u = MLeaf p vh" | "u \<in> set (spine 0 p (?xs @ ?ys) (MLeaf p vh))"
    | x where "x \<in> set ?xs" "u \<in> subs x" | x where "x \<in> set ?ys" "u \<in> subs x"
    by (auto simp: tinsert_def subs_rebuild)
  then show False
  proof cases
    case 2
    then have "(p, vh) \<in> leaves u"
      using spine_leaves by fastforce
    moreover have "leaves u \<subseteq> leaves t"
      using assms(4) spine_subs subs_leaves by blast
    ultimately show False
      using assms(3) by blast
  next
    case 3
    have "compressed (rebuild 0 p ?xs ?e)"
      using assms(2) by (simp add: rebuild_sides)
    from spine_not_side [OF walk_wf [OF assms(1)] this] 3 assms(4) show False
      by blast
  next
    case 4
    then have "\<not> is_node u"
      by (cases ?e) (auto split: if_splits)
    with spine_is_node [OF assms(4)] show False by simp
  qed (use spine_is_node [OF assms(4)] in simp)
qed

section \<open>Insertion refines \<open>tinsert\<close>\<close>

text \<open>A state of the code that represents a tree.\<close>

definition smt_rep :: "(bytes \<Rightarrow> h256) \<Rightarrow> mtree \<Rightarrow> smt \<Rightarrow> bool" where
  "smt_rep dg t st \<longleftrightarrow> twf 0 t \<and> compressed t \<and> smt_root st = thash dg t
     \<and> holds dg (smt_nodes st) (subs t) \<and> btm_wf (smt_nodes st) \<and> btm_wf (smt_values st)
     \<and> leaves t = (\<lambda>(p, v). (p, dg v)) ` set (smt_values st) \<and> (\<forall>e \<in> set (smt_values st). snd e \<noteq> [])"

text \<open>Only the nodes: the state of a partial copy, which does not hold the values of its tree.\<close>

definition node_rep :: "(bytes \<Rightarrow> h256) \<Rightarrow> mtree \<Rightarrow> smt \<Rightarrow> bool" where
  "node_rep dg t st \<longleftrightarrow> twf 0 t \<and> compressed t \<and> smt_root st = thash dg t
     \<and> holds dg (smt_nodes st) (subs t) \<and> btm_wf (smt_nodes st) \<and> btm_wf (smt_values st)"

lemma smt_rep_node: "smt_rep dg t st \<Longrightarrow> node_rep dg t st"
  by (simp add: smt_rep_def node_rep_def)

text \<open>The three ways through \<open>update_with_sides_nodes\<close> that change the tree, over the node store: \<open>zs\<close> and
  \<open>s\<close> are the side nodes of the loop and the node it starts with.\<close>

lemma update_run:
  assumes "digest32 dg" "length p = 32" "value \<noteq> []"
    and leaf: "leaf = MLeaf p (dg value)"
    and upper: "for_each ms_delete (map (thash dg) (rev (spine 0 p xs e))) nd2 = (Inr (), nd3)"
    and loop: "for_each (\<lambda>x. ms_put (dg x) x) (map (tdata dg) (rev (spine 0 p zs s))) nd3 = (Inr (), nd4)"
    and len: "length xs \<le> 256" "cp \<noteq> 256 \<Longrightarrow> length xs \<le> cp \<and> cp < 256"
    and zs: "zs = xs @ (if cp = 256 then [] else replicate (cp - length xs) MEmpty)"
    and prefix: "upd_prefix p (thash dg e) (tdata dg e) = Inr (cp, old)"
    and split: "upd_split dg p (dg value) cp old (thash dg e) (thash dg leaf, thash dg leaf)
          (st\<lparr>smt_nodes := snd (ms_put (thash dg leaf) (tdata dg leaf) (smt_nodes st))\<rparr>) = (Inr (Some (thash dg s, thash dg s)), st2)"
    and st2: "smt_nodes st2 = nd2"
  shows "update_with_sides_nodes dg p value (rev (map (thash dg) xs)) (rev (map (thash dg) (spine 0 p xs e @ [e]))) (tdata dg e) st
     = (Inr (thash dg (rebuild 0 p zs s)), st2\<lparr>smt_nodes := nd4, smt_values := snd (ms_put p value (smt_values st2))\<rparr>)"
proof -
  have leaf': "digest_leaf dg p (dg value) = (thash dg leaf, tdata dg leaf)"
    by (simp add: digest_leaf_def leaf smt_consts Let_def)
  have del: "for_each (\<lambda>node. on_nodes (ms_delete node)) (rev (map (thash dg) (spine 0 p xs e))) st2 = (Inr (), st2\<lparr>smt_nodes := nd3\<rparr>)"
    using upper st2 by (intro for_each_on_nodes) (simp add: rev_map)
  have ns: "rev (map (thash dg) zs) = (if cp = 256 then [] else replicate (cp - length (rev (map (thash dg) xs))) h256_zero) @ rev (map (thash dg) xs)"
    by (simp add: zs)
  have "for_acc (upd_turn dg p (rev (map (thash dg) xs)) cp) [0..<256] (thash dg s, thash dg s) (st2\<lparr>smt_nodes := nd3\<rparr>) =
      (Inr (thash dg (rebuild 0 p zs s), thash dg (rebuild 0 p zs s)), st2\<lparr>smt_nodes := nd4\<rparr>)"
    using upd_loop [OF assms(2) _ _ ns, of dg "thash dg s" "st2\<lparr>smt_nodes := nd3\<rparr>"] len loop
    by (simp add: tdata_spine thash_rebuild rev_map [symmetric])
  then show ?thesis
    using prefix split del leaf'
    by (simp add: update_with_sides_nodes_def ms_put_def case_prod_beta Let_def del: split_paired_All)
qed

lemma insert_store:
  assumes "thash_inj dg (subs t \<union> subs t')" "holds dg nd (subs t)" "twf 0 t" "compressed t"
    and t': "t' = tinsert p vh t" "t' = rebuild 0 p zs n" and new: "(p, vh) \<notin> leaves t"
    and zs: "set zs \<subseteq> set (sides 0 p t) \<union> {MEmpty}"
    and N1: "set N1 \<subseteq> subs t'" "subs n \<subseteq> subs t \<union> set N1"
    and del: "set del \<subseteq> {tip 0 p t} \<inter> subs t - subs t'" "distinct del"
  obtains nd1 nd2 nd3 nd4 where "for_each (\<lambda>x. ms_put (dg x) x) (map (tdata dg) N1) nd = (Inr (), nd1)"
    "for_each ms_delete (map (thash dg) del) nd1 = (Inr (), nd2)"
    "for_each ms_delete (map (thash dg) (rev (spine 0 p (sides 0 p t) (tip 0 p t)))) nd2 = (Inr (), nd3)"
    "for_each (\<lambda>x. ms_put (dg x) x) (map (tdata dg) (rev (spine 0 p zs n))) nd3 = (Inr (), nd4)"
    "holds dg nd4 (subs t')" "btm_wf nd \<longrightarrow> btm_wf nd4"
proof -
  let ?sp = "spine 0 p (sides 0 p t) (tip 0 p t)"
  have "set ?sp \<inter> set del = {}"
    using spine_is_node [of _ 0 p "sides 0 p t" "tip 0 p t"] tip_not_node [of 0 p t] del(1) by blast
  then have Os: "distinct (del @ rev ?sp)" "set (del @ rev ?sp) \<subseteq> subs t" "set (del @ rev ?sp) \<inter> subs t' = {}"
    using del distinct_spine [of 0 p "sides 0 p t" "tip 0 p t"] spine_subs [of p t] old_walk_gone [OF assms(3,4) new] t'(1) by auto
  have sub: "subs t' = subs n \<union> set (spine 0 p zs n) \<union> (\<Union>x \<in> set zs. subs x)"
    by (simp add: t'(2) subs_rebuild)
  have "(\<Union>x \<in> set zs. subs x) \<subseteq> subs t"
    using zs side_subs [of _ p t] by fastforce
  then have N: "set N1 \<union> set (rev (spine 0 p zs n)) \<subseteq> subs t'" "subs t' \<subseteq> subs t \<union> set N1 \<union> set (rev (spine 0 p zs n))"
    using sub N1 by auto
  obtain nd1 nd3 nd4 where st: "for_each (\<lambda>x. ms_put (dg x) x) (map (tdata dg) N1) nd = (Inr (), nd1)"
    "for_each ms_delete (map (thash dg) (del @ rev ?sp)) nd1 = (Inr (), nd3)"
    "for_each (\<lambda>x. ms_put (dg x) x) (map (tdata dg) (rev (spine 0 p zs n))) nd3 = (Inr (), nd4)"
    "holds dg nd4 (subs t')" "btm_wf nd \<longrightarrow> btm_wf nd4"
    using store_change [OF assms(1,2) Os N] .
  from st(2) obtain nd2 where "for_each ms_delete (map (thash dg) del) nd1 = (Inr (), nd2)"
    "for_each ms_delete (map (thash dg) (rev ?sp)) nd2 = (Inr (), nd3)"
    unfolding map_append for_each_append bind_eq_Inr by auto
  with st show ?thesis
    by (intro that)
qed

lemma count_common_prefix_refl: "length p = 32 \<Longrightarrow> count_common_prefix p p = Inr 256"
  using count_common_prefix_spec [of p p] by force

lemma upd_prefix_leaf:
  assumes "digest32 dg" "length p = 32" "length q = 32" "length w = 32" "dg (0 # q @ w) \<noteq> h256_zero"
  shows "upd_prefix p (thash dg (MLeaf q w)) (tdata dg (MLeaf q w)) =
     Inr (if q = p then 256 else common_prefix p q, Some w)"
  using assms parse_leaf_digest_leaf [of q dg w] count_common_prefix_refl [of p] common_prefix_spec(1) [of p q]
  by (auto simp: upd_prefix_def digest_leaf_def smt_consts Let_def h256_is_zero_iff h256_from_slice_def)

lemma values_replace:
  assumes "btm_wf m" shows "btm_insert k v (btm_remove k m) = btm_insert k v m"
  by (rule btm.items_ext) (auto simp: assms btm_wf_insert btm.wf_rem)

lemma values_same:
  assumes "btm_wf m" "btm_get m k = Some v" shows "btm_insert k v m = m"
  by (rule btm.items_ext) (auto simp: assms btm_wf_insert)

text \<open>The three cases, by what the walk ended at.\<close>

definition upd_ok :: "(bytes \<Rightarrow> h256) \<Rightarrow> h256 \<Rightarrow> bytes \<Rightarrow> mtree \<Rightarrow> smt \<Rightarrow> bool" where
  "upd_ok dg p value t st \<longleftrightarrow>
     (\<exists>nd'. update_with_sides_nodes dg p value (rev (map (thash dg) (sides 0 p t))) (rev (map (thash dg) (walk p t))) (tdata dg (tip 0 p t)) st
         = (Inr (thash dg (tinsert p (dg value) t)), st\<lparr>smt_nodes := nd', smt_values := btm_insert p value (smt_values st)\<rparr>)
       \<and> holds dg nd' (subs (tinsert p (dg value) t)) \<and> btm_wf nd')"

lemma upd_ok_empty:
  assumes "digest32 dg" "length p = 32" "value \<noteq> []" "node_rep dg t st" "tip 0 p t = MEmpty"
    and "thash_inj dg (subs t \<union> subs (tinsert p (dg value) t))"
  shows "upd_ok dg p value t st"
proof -
  let ?leaf = "MLeaf p (dg value)" and ?xs = "sides 0 p t" and ?t' = "tinsert p (dg value) t"
  have rep: "twf 0 t" "compressed t" "holds dg (smt_nodes st) (subs t)" "btm_wf (smt_nodes st)"
    using assms(4) by (auto simp: node_rep_def)
  have t': "?t' = rebuild 0 p ?xs ?leaf"
    by (simp add: tinsert_def assms(5))
  have new: "(p, dg value) \<notin> leaves t"
    using tip_leaf [OF rep(1)] assms(5) by force
  obtain nd1 nd2 nd3 nd4 where nd: "for_each (\<lambda>x. ms_put (dg x) x) (map (tdata dg) [?leaf]) (smt_nodes st) = (Inr (), nd1)"
    "for_each ms_delete (map (thash dg) []) nd1 = (Inr (), nd2)"
    "for_each ms_delete (map (thash dg) (rev (spine 0 p ?xs (tip 0 p t)))) nd2 = (Inr (), nd3)"
    "for_each (\<lambda>x. ms_put (dg x) x) (map (tdata dg) (rev (spine 0 p ?xs ?leaf))) nd3 = (Inr (), nd4)"
    "holds dg nd4 (subs ?t')" "btm_wf (smt_nodes st) \<longrightarrow> btm_wf nd4"
    by (rule insert_store [OF assms(6) rep(3,1,2) refl t' new, of "[?leaf]" "[]"]) (auto simp: t' subs_rebuild)
  have "update_with_sides_nodes dg p value (rev (map (thash dg) ?xs)) (rev (map (thash dg) (spine 0 p ?xs (tip 0 p t) @ [tip 0 p t]))) (tdata dg (tip 0 p t)) st
      = (Inr (thash dg (rebuild 0 p ?xs ?leaf)), (st\<lparr>smt_nodes := nd2\<rparr>)\<lparr>smt_nodes := nd4, smt_values := snd (ms_put p value (smt_values (st\<lparr>smt_nodes := nd2\<rparr>)))\<rparr>)"
    by (rule update_run [OF assms(1-3) refl nd(3,4), where cp = 256 and old = None])
       (use zip_wf_length [OF walk_wf [OF rep(1)], of p] nd(1,2) in
         \<open>simp_all add: assms(5) upd_prefix_def h256_is_zero_iff upd_split_def ms_put_def\<close>)
  then show ?thesis
    using nd(5,6) rep(4) unfolding upd_ok_def t' walk_def by (auto simp: ms_put_def)
qed

lemma upd_ok_replace:
  assumes "digest32 dg" "length p = 32" "value \<noteq> []" "node_rep dg t st" "tip 0 p t = MLeaf p w" "w \<noteq> dg value"
    and inj: "thash_inj dg (subs t \<union> subs (tinsert p (dg value) t))" and nz: "dg (0 # p @ w) \<noteq> h256_zero"
  shows "upd_ok dg p value t st"
proof -
  let ?leaf = "MLeaf p (dg value)" and ?xs = "sides 0 p t" and ?t' = "tinsert p (dg value) t"
  have rep: "twf 0 t" "compressed t" "holds dg (smt_nodes st) (subs t)" "btm_wf (smt_nodes st)" "btm_wf (smt_values st)"
    using assms(4) by (auto simp: node_rep_def)
  have t': "?t' = rebuild 0 p ?xs ?leaf"
    by (simp add: tinsert_def assms(5))
  have tip: "MLeaf p w \<in> subs t" "length w = 32"
    using tip_subs [of p t] walk_wf [OF rep(1), of p, THEN zip_wf_tip] assms(5) by auto
  have new: "(p, dg value) \<notin> leaves t"
    using tip_leaf [OF rep(1)] assms(5,6) by force
  have gone: "MLeaf p w \<notin> subs ?t'"
    using subs_leaves [of "MLeaf p w" ?t'] leaves_tinsert [OF rep(1), of p "dg value"] assms(6) by auto
  obtain nd1 nd2 nd3 nd4 where nd: "for_each (\<lambda>x. ms_put (dg x) x) (map (tdata dg) [?leaf]) (smt_nodes st) = (Inr (), nd1)"
    "for_each ms_delete (map (thash dg) [tip 0 p t]) nd1 = (Inr (), nd2)"
    "for_each ms_delete (map (thash dg) (rev (spine 0 p ?xs (tip 0 p t)))) nd2 = (Inr (), nd3)"
    "for_each (\<lambda>x. ms_put (dg x) x) (map (tdata dg) (rev (spine 0 p ?xs ?leaf))) nd3 = (Inr (), nd4)"
    "holds dg nd4 (subs ?t')" "btm_wf (smt_nodes st) \<longrightarrow> btm_wf nd4"
    by (rule insert_store [OF inj rep(3,1,2) refl t' new, of "[?leaf]" "[tip 0 p t]"])
       (use tip gone assms(5) in \<open>auto simp: t' subs_rebuild\<close>)
  define vals where "vals = snd (ms_delete p (smt_values st))"
  have vals: "vals = btm_remove p (smt_values st) \<or> vals = smt_values st"
    by (auto simp: vals_def ms_delete_def)
  have "ms_delete (thash dg (tip 0 p t)) nd1 = (Inr (), nd2)"
    using nd(2) by (auto simp: bind_eq_Inr)
  then have "upd_split dg p (dg value) 256 (Some w) (thash dg (tip 0 p t)) (thash dg ?leaf, thash dg ?leaf)
      (st\<lparr>smt_nodes := nd1\<rparr>) = (Inr (Some (thash dg ?leaf, thash dg ?leaf)), st\<lparr>smt_nodes := nd2, smt_values := vals\<rparr>)"
    using assms(6) by (simp add: upd_split_def on_values_def vals_def case_prod_beta)
  moreover have "snd (ms_put (thash dg ?leaf) (tdata dg ?leaf) (smt_nodes st)) = nd1"
    using nd(1) by (simp add: ms_put_def)
  ultimately have "update_with_sides_nodes dg p value (rev (map (thash dg) ?xs)) (rev (map (thash dg) (spine 0 p ?xs (tip 0 p t) @ [tip 0 p t]))) (tdata dg (tip 0 p t)) st
      = (Inr (thash dg (rebuild 0 p ?xs ?leaf)), (st\<lparr>smt_nodes := nd2, smt_values := vals\<rparr>)\<lparr>smt_nodes := nd4,
           smt_values := snd (ms_put p value (smt_values (st\<lparr>smt_nodes := nd2, smt_values := vals\<rparr>)))\<rparr>)"
    by (intro update_run [OF assms(1-3) refl nd(3,4), where cp = 256 and old = "Some w"])
       (use zip_wf_length [OF walk_wf [OF rep(1)], of p] upd_prefix_leaf [OF assms(1,2,2) tip(2) nz] assms(5) in simp_all)
  then show ?thesis
    using nd(5,6) rep(4,5) vals unfolding upd_ok_def t' walk_def by (auto simp: ms_put_def values_replace)
qed

lemma upd_ok_split:
  assumes "digest32 dg" "length p = 32" "value \<noteq> []" "node_rep dg t st" "tip 0 p t = MLeaf q w" "q \<noteq> p"
    and inj: "thash_inj dg (subs t \<union> subs (tinsert p (dg value) t))" and nz: "dg (0 # q @ w) \<noteq> h256_zero"
  shows "upd_ok dg p value t st"
proof -
  let ?leaf = "MLeaf p (dg value)" and ?xs = "sides 0 p t" and ?t' = "tinsert p (dg value) t" and ?e = "MLeaf q w"
  define cp where "cp = common_prefix p q"
  define zs where "zs = ?xs @ replicate (cp - length ?xs) MEmpty"
  define n where "n = rebuild cp p [?e] ?leaf"
  have rep: "twf 0 t" "compressed t" "holds dg (smt_nodes st) (subs t)" "btm_wf (smt_nodes st)"
    using assms(4) by (auto simp: node_rep_def)
  have tip: "?e \<in> subs t" "length q = 32" "length w = 32" "agree q p (length ?xs)"
    using tip_subs [of p t] walk_wf [OF rep(1), of p, THEN zip_wf_tip] assms(5) by auto
  have cp: "cp < 256" "length ?xs \<le> cp" "path_bit p cp \<noteq> path_bit q cp"
    using common_prefix_spec [OF assms(2) tip(2) assms(6) [symmetric]]
      common_prefix_ge [OF assms(2) tip(2) assms(6) [symmetric] tip(4)] by (auto simp: cp_def)
  have t': "?t' = rebuild 0 p zs n"
    using assms(5,6) cp(2) by (simp add: tinsert_def rebuild_append zs_def n_def cp_def)
  have new: "(p, dg value) \<notin> leaves t"
    using tip_leaf [OF rep(1)] assms(5,6) by force
  have "is_node n"
    by (simp add: n_def)
  then have sub: "{n, ?leaf} \<subseteq> subs ?t'" "subs n \<subseteq> subs t \<union> {?leaf, n}"
    using tip(1) subs_self [of n] unfolding t' subs_rebuild by (auto simp: n_def)
  obtain nd1 nd2 nd3 nd4 where nd: "for_each (\<lambda>x. ms_put (dg x) x) (map (tdata dg) [?leaf, n]) (smt_nodes st) = (Inr (), nd1)"
    "for_each ms_delete (map (thash dg) []) nd1 = (Inr (), nd2)"
    "for_each ms_delete (map (thash dg) (rev (spine 0 p ?xs (tip 0 p t)))) nd2 = (Inr (), nd3)"
    "for_each (\<lambda>x. ms_put (dg x) x) (map (tdata dg) (rev (spine 0 p zs n))) nd3 = (Inr (), nd4)"
    "holds dg nd4 (subs ?t')" "btm_wf (smt_nodes st) \<longrightarrow> btm_wf nd4"
    by (rule insert_store [OF inj rep(3,1,2) refl t' new, of "[?leaf, n]" "[]"])
       (use sub in \<open>auto simp: zs_def\<close>)
  have n: "thash dg n = dg (comb_data (path_bit p cp) (thash dg ?e) (thash dg ?leaf))"
    "tdata dg n = comb_data (path_bit p cp) (thash dg ?e) (thash dg ?leaf)"
    by (simp_all add: n_def comb_data_def)
  have "nd2 = btm_insert (thash dg n) (tdata dg n) (btm_insert (thash dg ?leaf) (tdata dg ?leaf) (smt_nodes st))"
    using nd(1,2) n by (simp add: ms_put_def)
  then have split: "upd_split dg p (dg value) cp (Some w) (thash dg ?e) (thash dg ?leaf, thash dg ?leaf)
      (st\<lparr>smt_nodes := snd (ms_put (thash dg ?leaf) (tdata dg ?leaf) (smt_nodes st))\<rparr>) = (Inr (Some (thash dg n, thash dg n)), st\<lparr>smt_nodes := nd2\<rparr>)"
    using put_parent_eq [OF assms(2) cp(1), of dg "thash dg ?e"] cp(1)
    by (simp add: upd_split_def ms_put_def n Let_def)
  have "update_with_sides_nodes dg p value (rev (map (thash dg) ?xs)) (rev (map (thash dg) (spine 0 p ?xs (tip 0 p t) @ [tip 0 p t]))) (tdata dg (tip 0 p t)) st
      = (Inr (thash dg (rebuild 0 p zs n)), (st\<lparr>smt_nodes := nd2\<rparr>)\<lparr>smt_nodes := nd4, smt_values := snd (ms_put p value (smt_values (st\<lparr>smt_nodes := nd2\<rparr>)))\<rparr>)"
    by (rule update_run [OF assms(1-3) refl nd(3,4), where cp = cp and old = "Some w"])
       (use zip_wf_length [OF walk_wf [OF rep(1)], of p] upd_prefix_leaf [OF assms(1,2) tip(2,3) nz] assms(5,6) cp split in
         \<open>simp_all add: cp_def zs_def\<close>)
  then show ?thesis
    using nd(5,6) rep(4) unfolding upd_ok_def t' walk_def by (auto simp: ms_put_def)
qed

lemma tip_nonzero:
  assumes "cfree dg (subs t \<union> T)" "tip 0 p t = MLeaf q w"
  shows "dg (0 # q @ w) \<noteq> h256_zero"
proof -
  have "MLeaf q w \<in> subs t \<union> T"
    using tip_subs [of p t] assms(2) by simp
  from thash_zero [OF assms(1) this] show ?thesis by simp
qed

text \<open>The value that is stored already: the function ends before it writes the value.\<close>

lemma update_same:
  assumes "digest32 dg" "length p = 32" "node_rep dg t st" "tip 0 p t = MLeaf p (dg value)"
    and nz: "dg (0 # p @ dg value) \<noteq> h256_zero"
  shows "update_with_sides_nodes dg p value xs (rev (map (thash dg) (walk p t))) (tdata dg (tip 0 p t)) st
     = (Inr (smt_root st), st)"
proof -
  let ?e = "MLeaf p (dg value)"
  have rep: "holds dg (smt_nodes st) (subs t)" "btm_wf (smt_nodes st)"
    using assms(3) by (auto simp: node_rep_def)
  have "ms_get (smt_nodes st) (thash dg ?e) = Inr (tdata dg ?e)"
    using rep(1) tip_subs [of p t] assms(4) by (auto simp: holds_def)
  then have put: "btm_insert (thash dg ?e) (tdata dg ?e) (smt_nodes st) = smt_nodes st"
    using rep(2) by (intro values_same) (auto simp: ms_get_def ok_or_def split: option.splits)
  have leaf: "digest_leaf dg p (dg value) = (thash dg ?e, tdata dg ?e)"
    by (simp add: digest_leaf_def smt_consts Let_def)
  have "update_with_sides_nodes dg p value xs (thash dg ?e # ps) (tdata dg ?e) st = (Inr (smt_root st), st)" for xs ps
    using upd_prefix_leaf [OF assms(1,2,2) _ nz] put leaf assms(1)
    by (simp add: update_with_sides_nodes_def ms_put_def upd_split_def Let_def del: thash.simps tdata.simps)
  then show ?thesis
    using assms(4) by (simp add: walk_def del: thash.simps tdata.simps)
qed

lemma upd_ok_same:
  assumes "digest32 dg" "length p = 32" "node_rep dg t st" "tip 0 p t = MLeaf p (dg value)"
    and nz: "dg (0 # p @ dg value) \<noteq> h256_zero" and val: "btm_get (smt_values st) p = Some value"
  shows "upd_ok dg p value t st"
proof -
  have rep: "holds dg (smt_nodes st) (subs t)" "btm_wf (smt_nodes st)" "btm_wf (smt_values st)" "smt_root st = thash dg t"
    using assms(3) by (auto simp: node_rep_def)
  have st: "st\<lparr>smt_nodes := smt_nodes st, smt_values := btm_insert p value (smt_values st)\<rparr> = st"
    using values_same [OF rep(3) val] by simp
  show ?thesis
    unfolding upd_ok_def using rep st tinsert_same [OF assms(4)] update_same [OF assms(1-4) nz]
    by (intro exI [of _ "smt_nodes st"]) simp
qed

text \<open>A value update of a represented state: the contents change at the one path, and the new state
  represents the tree with the leaf put in.\<close>

lemma rep_values_leaf:
  assumes "smt_rep dg t st"
  shows "(p, vh) \<in> leaves t \<longleftrightarrow> (\<exists>v. btm_get (smt_values st) p = Some v \<and> vh = dg v)"
proof -
  have "btm_wf (smt_values st)"
    using assms by (simp add: smt_rep_def)
  from btm_get_iff [OF this] show ?thesis
    using assms by (auto simp: smt_rep_def)
qed

lemma node_update_ok:
  assumes "digest32 dg" "length p = 32" "value \<noteq> []" "node_rep dg t st" "t' = tinsert p (dg value) t"
    and cf: "cfree dg (subs t \<union> subs t')"
    and same: "tip 0 p t = MLeaf p (dg value) \<Longrightarrow> btm_get (smt_values st) p = Some value"
  shows "upd_ok dg p value t st"
proof -
  have rep: "twf 0 t" "compressed t"
    using assms(4) by (auto simp: node_rep_def)
  have "twf 0 (tinsert p (dg value) t)"
    using tinsert_wf(1) [OF rep assms(2)] assms(1) by simp
  from cfree_thash_inj [OF assms(1) cf [unfolded assms(5)] rep(1) [THEN twf_paths32] this [THEN twf_paths32]]
  have inj: "thash_inj dg (subs t \<union> subs (tinsert p (dg value) t))" .
  have nz: "dg (0 # q @ w) \<noteq> h256_zero" if "tip 0 p t = MLeaf q w" for q w
    by (rule tip_nonzero [OF cf that])
  show ?thesis
  proof (cases "tip 0 p t")
    case MEmpty
    show ?thesis by (rule upd_ok_empty [OF assms(1-4) MEmpty inj])
  next
    case (MLeaf q w)
    consider "q \<noteq> p" | "q = p" "w \<noteq> dg value" | "q = p" "w = dg value"
      by blast
    then show ?thesis
    proof cases
      case 1
      show ?thesis by (rule upd_ok_split [OF assms(1-4) MLeaf 1 inj nz [OF MLeaf]])
    next
      case 2
      note tip = MLeaf [unfolded 2(1)]
      show ?thesis by (rule upd_ok_replace [OF assms(1-4) tip 2(2) inj nz [OF tip]])
    next
      case 3
      note tip = MLeaf [unfolded 3]
      show ?thesis by (rule upd_ok_same [OF assms(1,2,4) tip nz [OF tip] same [OF tip]])
    qed
  next
    case (MNode l r)
    then show ?thesis using tip_not_node [of 0 p t] by simp
  qed
qed

lemma update_ok:
  assumes "digest32 dg" "length p = 32" "value \<noteq> []" "smt_rep dg t st" "t' = tinsert p (dg value) t"
    and cf: "cfree dg (subs t \<union> subs t')"
    and same: "\<And>v. btm_get (smt_values st) p = Some v \<Longrightarrow> dg v = dg value \<Longrightarrow> v = value"
  shows "upd_ok dg p value t st"
proof (rule node_update_ok [OF assms(1-3) smt_rep_node [OF assms(4)] assms(5) cf])
  assume "tip 0 p t = MLeaf p (dg value)"
  then have "(p, dg value) \<in> leaves t"
    unfolding leaves_walk [of t p] by simp
  then obtain v where "btm_get (smt_values st) p = Some v" "dg value = dg v"
    using rep_values_leaf [OF assms(4), of p "dg value"] by blast
  with same [of v] show "btm_get (smt_values st) p = Some value"
    by simp
qed

lemma leaves_values_insert:
  assumes "smt_rep dg t st" "t' = tinsert p (dg value) t"
  shows "leaves t' = (\<lambda>(p, v). (p, dg v)) ` set (btm_insert p value (smt_values st))"
proof -
  have wf: "btm_wf (smt_values st)" "btm_wf (btm_insert p value (smt_values st))"
    using assms by (auto simp: smt_rep_def btm_wf_insert)
  have "e \<in> leaves t' \<longleftrightarrow> e \<in> (\<lambda>(p, v). (p, dg v)) ` set (btm_insert p value (smt_values st))" for e
  proof (cases e)
    case (Pair q w)
    have "(q, w) \<in> (\<lambda>(p, v). (p, dg v)) ` set m \<longleftrightarrow> (\<exists>v. btm_get m q = Some v \<and> w = dg v)" if "btm_wf m" for m
      using btm_get_iff [OF that] by auto
    from this [OF wf(2)] show ?thesis
      using leaves_tinsert [of t p "dg value"] rep_values_leaf [OF assms(1), of q w] assms Pair
      by (auto simp: smt_rep_def)
  qed
  then show ?thesis by blast
qed

lemma tinsert_rep:
  assumes "digest32 dg" "length p = 32" "value \<noteq> []" "smt_rep dg t st" "t' = tinsert p (dg value) t"
    and "holds dg nd' (subs t')" "btm_wf nd'"
  shows "smt_rep dg t' (st\<lparr>smt_nodes := nd', smt_values := btm_insert p value (smt_values st), smt_root := thash dg t'\<rparr>)"
proof -
  have "twf 0 t'" "compressed t'" "btm_wf (smt_values st)"
    using assms tinsert_wf [of t p "dg value"] by (auto simp: smt_rep_def)
  then show ?thesis
    using assms leaves_values_insert [OF assms(4,5)] set_btm_insert [of p "value" "smt_values st"]
    by (auto simp: smt_rep_def btm_wf_insert)
qed

lemma smt_update_insert:
  assumes "digest32 dg" "value \<noteq> []" "smt_rep dg t st" "t' = tinsert (dg key) (dg value) t"
    and "cfree dg (subs t \<union> subs t')"
    and "\<And>v. btm_get (smt_values st) (dg key) = Some v \<Longrightarrow> dg v = dg value \<Longrightarrow> v = value"
  shows "\<exists>st'. smt_update dg key value st = (Inr (thash dg t'), st') \<and> smt_rep dg t' st'
           \<and> btm_get (smt_values st') = (btm_get (smt_values st))(dg key \<mapsto> value)"
proof -
  let ?p = "dg key"
  have p: "length ?p = 32"
    using assms(1) by simp
  have rep: "twf 0 t" "compressed t" "holds dg (smt_nodes st) (subs t)" "smt_root st = thash dg t"
    using assms(3) by (auto simp: smt_rep_def)
  obtain sib where side: "side_nodes_for_root (smt_nodes st) ?p (thash dg t) False =
      Inr (rev (map (thash dg) (sides 0 ?p t)), rev (map (thash dg) (walk ?p t)), tdata dg (tip 0 ?p t), sib)"
    using side_nodes_for_root_spec [OF assms(1) p rep(1,2) cfree_mono [OF assms(5)] rep(3)] by blast
  obtain nd' where nd': "update_with_sides_nodes dg ?p value (rev (map (thash dg) (sides 0 ?p t)))
        (rev (map (thash dg) (walk ?p t))) (tdata dg (tip 0 ?p t)) st
      = (Inr (thash dg t'), st\<lparr>smt_nodes := nd', smt_values := btm_insert ?p value (smt_values st)\<rparr>)"
    "holds dg nd' (subs t')" "btm_wf nd'"
    using update_ok [OF assms(1) p assms(2-6)] assms(4) unfolding upd_ok_def by blast
  let ?st' = "st\<lparr>smt_nodes := nd', smt_values := btm_insert ?p value (smt_values st), smt_root := thash dg t'\<rparr>"
  have "smt_update dg key value st = (Inr (thash dg t'), ?st')"
    using side nd'(1) rep(4) assms(2) by (simp add: smt_update_def update_for_root_def path_def set_root_def Let_def)
  then show ?thesis
    using tinsert_rep [OF assms(1) p assms(2-4) nd'(2,3)] by auto
qed

text \<open>The same for a partial copy: when the value is the one that the parent holds, it is not written.\<close>

lemma tinsert_node_rep:
  assumes "digest32 dg" "length p = 32" "node_rep dg t st" "t' = tinsert p (dg value) t" "holds dg nd' (subs t')" "btm_wf nd'"
  shows "node_rep dg t' (st\<lparr>smt_nodes := nd', smt_values := btm_insert p value (smt_values st), smt_root := thash dg t'\<rparr>)"
  using assms tinsert_wf [of t p "dg value"] by (simp add: node_rep_def btm_wf_insert)

lemma smt_update_partial:
  assumes "digest32 dg" "value \<noteq> []" "node_rep dg t st" "t' = tinsert (dg key) (dg value) t"
    and "cfree dg (subs t \<union> subs t')"
  shows "\<exists>st'. smt_update dg key value st = (Inr (thash dg t'), st') \<and> node_rep dg t' st' \<and> smt_parent st' = smt_parent st
     \<and> (smt_values st' = btm_insert (dg key) value (smt_values st)
        \<or> (dg key, dg value) \<in> leaves t \<and> smt_values st' = smt_values st)"
proof -
  let ?p = "dg key"
  have p: "length ?p = 32"
    using assms(1) by simp
  have rep: "twf 0 t" "compressed t" "holds dg (smt_nodes st) (subs t)" "smt_root st = thash dg t"
    using assms(3) by (auto simp: node_rep_def)
  obtain sib where side: "side_nodes_for_root (smt_nodes st) ?p (thash dg t) False =
      Inr (rev (map (thash dg) (sides 0 ?p t)), rev (map (thash dg) (walk ?p t)), tdata dg (tip 0 ?p t), sib)"
    using side_nodes_for_root_spec [OF assms(1) p rep(1,2) cfree_mono [OF assms(5)] rep(3)] by blast
  show ?thesis
  proof (cases "tip 0 ?p t = MLeaf ?p (dg value)")
    case True
    have "set_root (thash dg t) st = st"
      using rep(4) by (simp add: set_root_def)
    moreover have "(?p, dg value) \<in> leaves t"
      unfolding leaves_walk [of t ?p] True by simp
    ultimately show ?thesis
      using side update_same [OF assms(1) p assms(3) True tip_nonzero [OF assms(5) True]] rep(4) assms(2-4) tinsert_same [OF True]
      by (simp add: smt_update_def update_for_root_def path_def Let_def)
  next
    case False
    obtain nd' where nd': "update_with_sides_nodes dg ?p value (rev (map (thash dg) (sides 0 ?p t)))
          (rev (map (thash dg) (walk ?p t))) (tdata dg (tip 0 ?p t)) st
        = (Inr (thash dg t'), st\<lparr>smt_nodes := nd', smt_values := btm_insert ?p value (smt_values st)\<rparr>)"
      "holds dg nd' (subs t')" "btm_wf nd'"
      using node_update_ok [OF assms(1) p assms(2-5)] assms(4) False unfolding upd_ok_def by blast
    let ?st' = "st\<lparr>smt_nodes := nd', smt_values := btm_insert ?p value (smt_values st), smt_root := thash dg t'\<rparr>"
    have "smt_update dg key value st = (Inr (thash dg t'), ?st')"
      using side nd'(1) rep(4) assms(2) by (simp add: smt_update_def update_for_root_def path_def set_root_def Let_def)
    then show ?thesis
      using tinsert_node_rep [OF assms(1) p assms(3,4) nd'(2,3)] by auto
  qed
qed

text \<open>C2: \<open>SparseMerkleTree::update\<close> with a value refines insertion into a compressed Merkle tree.  From a
  state that represents a tree it succeeds, returns the root hash of the tree with the leaf put in, leaves
  a node store that holds every node of that tree, and changes the contents at the one key only.  The
  digest has to be collision free on the strings of the two trees and on the old and the new value.\<close>

theorem update_refines:
  assumes "digest32 dg" "value \<noteq> []" "smt_rep dg t st" "t' = tinsert (dg key) (dg value) t"
    and "cfree dg (subs t \<union> subs t')"
    and "\<And>v. btm_get (smt_values st) (dg key) = Some v \<Longrightarrow> dg v = dg value \<Longrightarrow> v = value"
  shows "\<exists>st'. smt_update dg key value st = (Inr (thash dg t'), st') \<and> smt_rep dg t' st'
           \<and> btm_get (smt_values st') = (btm_get (smt_values st))(dg key \<mapsto> value)"
  by (rule smt_update_insert [OF assms])

text \<open>Two entries from the empty tree: the second one splits the leaf of the first.\<close>

lemma smt_new_rep: "smt_rep dg MEmpty smt_new"
  by (simp add: smt_rep_def smt_new_def ms_new_def holds_def)

lemma smt_new_values: "btm_get (smt_values smt_new) = Map.empty"
  by (rule ext) (simp add: smt_new_def ms_new_def)

definition demo_tree1 :: mtree where
  "demo_tree1 = tinsert (sum_digest [1]) (sum_digest [10]) MEmpty"

definition demo_tree2 :: mtree where
  "demo_tree2 = tinsert (sum_digest [2]) (sum_digest [20]) demo_tree1"

lemma demo_cfree:
  "cfree sum_digest (subs MEmpty \<union> subs demo_tree1)" "cfree sum_digest (subs demo_tree1 \<union> subs demo_tree2)"
  unfolding cfree_def by code_simp+

lemma demo_paths: "sum_digest [1] \<noteq> sum_digest [2]"
  by code_simp

definition demo_state1 :: smt where
  "demo_state1 = snd (smt_update sum_digest [1] [10] smt_new)"

definition demo_state2 :: smt where
  "demo_state2 = snd (smt_update sum_digest [2] [20] demo_state1)"

lemma demo_rep1:
  "smt_rep sum_digest demo_tree1 demo_state1" "btm_get (smt_values demo_state1) = [sum_digest [1] \<mapsto> [10]]"
  using smt_update_insert [OF sum_digest32 _ smt_new_rep demo_tree1_def demo_cfree(1)]
  by (auto simp: demo_state1_def smt_new_values)

lemma demo_fresh2: "btm_get (smt_values demo_state1) (sum_digest [2]) = Some v \<Longrightarrow> v = [20]"
  using demo_rep1(2) demo_paths by simp

lemma demo_rep2:
  "smt_rep sum_digest demo_tree2 demo_state2"
  "btm_get (smt_values demo_state2) = [sum_digest [1] \<mapsto> [10], sum_digest [2] \<mapsto> [20]]"
  using smt_update_insert [OF sum_digest32 _ demo_rep1(1) demo_tree2_def demo_cfree(2) demo_fresh2]
  by (auto simp: demo_state2_def demo_rep1(2))

theorem update_refines_witness:
  "\<exists>st'. smt_update sum_digest [2] [20] demo_state1 = (Inr (thash sum_digest demo_tree2), st')
     \<and> smt_rep sum_digest demo_tree2 st'
     \<and> btm_get (smt_values st') = (btm_get (smt_values demo_state1))(sum_digest [2] \<mapsto> [20])"
  using update_refines [OF sum_digest32 _ demo_rep1(1) demo_tree2_def demo_cfree(2) demo_fresh2] by simp

end
