(* ===== verification/Smt_Delete.thy ===== *)
theory Smt_Delete
  imports Smt_Update
begin

text \<open>
  \<open>update\<close> with the empty value, the deletion of \<open>SparseMerkleTree\<close>, against the compressed tree: the
  side nodes are hashed up again, and a leaf whose sibling disappears is pulled up past the placeholders.
\<close>

section \<open>Deletion from the tree\<close>

text \<open>One level: \<open>x\<close> is the side node and \<open>c\<close> what is left of the other child.\<close>

definition pull :: "bool \<Rightarrow> mtree \<Rightarrow> mtree \<Rightarrow> mtree" where
  "pull b x c =
     (if c = MEmpty \<and> \<not> is_node x then x
      else if x = MEmpty \<and> \<not> is_node c then c
      else if b then MNode x c else MNode c x)"

fun prune :: "nat \<Rightarrow> h256 \<Rightarrow> mtree list \<Rightarrow> mtree" where
  "prune d p [] = MEmpty"
| "prune d p (x # xs) = pull (path_bit p d) x (prune (Suc d) p xs)"

definition tdelete :: "h256 \<Rightarrow> mtree \<Rightarrow> mtree" where
  "tdelete p t = prune 0 p (sides 0 p t)"

lemma leaves_pull: "leaves (pull b x c) = leaves x \<union> leaves c"
  by (auto simp: pull_def)

lemma leaves_prune: "leaves (prune d p xs) = (\<Union>x \<in> set xs. leaves x)"
  by (induction xs arbitrary: d) (simp_all add: leaves_pull)

lemma prune_empty: "prune d p xs = MEmpty \<longleftrightarrow> (\<forall>x \<in> set xs. x = MEmpty)"
  by (induction xs arbitrary: d) (auto simp: pull_def split: if_splits)

lemma twf_not_node: "\<not> is_node t \<Longrightarrow> twf d t \<longleftrightarrow> twf d' t"
  by (cases t) auto

lemma prune_wf:
  "zip_wf d p xs e \<Longrightarrow> twf d (prune d p xs) \<and> (\<forall>v \<in> leaves (prune d p xs). agree (fst v) p d)"
proof (induction xs arbitrary: d)
  case (Cons x xs)
  then have IH: "twf (Suc d) (prune (Suc d) p xs)" "\<forall>v \<in> leaves (prune (Suc d) p xs). agree (fst v) p (Suc d)"
    and x: "twf (Suc d) x" "\<forall>v \<in> leaves x. agree (fst v) p d \<and> path_bit (fst v) d \<noteq> path_bit p d" "d < 256"
    by auto
  show ?case
    using IH x twf_not_node [of x d "Suc d"] twf_not_node [of "prune (Suc d) p xs" d "Suc d"]
    by (auto simp: pull_def agree_Suc)
qed simp

lemma prune_compressed: "\<forall>x \<in> set xs. compressed x \<Longrightarrow> compressed (prune d p xs)"
proof (induction xs arbitrary: d)
  case (Cons x xs)
  then show ?case
    by (auto simp: pull_def)
qed simp

lemma subs_pull: "subs c \<subseteq> subs (pull b x c)"
  by (auto simp: pull_def)

section \<open>The loop of the deletion\<close>

text \<open>The variables of the loop after the levels below, by the tree that is left there.\<close>

definition del_state :: "(bytes \<Rightarrow> h256) \<Rightarrow> mtree \<Rightarrow> h256 \<times> bytes \<times> bool" where
  "del_state dg c = (thash dg c, if c = MEmpty then [] else thash dg c, is_node c)"

lemma thash_nonempty: "digest32 dg \<Longrightarrow> thash dg c \<noteq> []"
  by (metis length_thash list.size(3) zero_neq_numeral)

lemma del_turn_step:
  assumes "digest32 dg" "length p = 32" "i < length sd" "length sd \<le> 256" "sd ! i = thash dg x" "length sd - 1 - i = d"
    and "c = MEmpty \<Longrightarrow> x \<noteq> MEmpty" "x \<noteq> MEmpty \<Longrightarrow> ms_get (smt_nodes st) (thash dg x) = Inr (tdata dg x)"
    and "x \<noteq> MEmpty \<Longrightarrow> thash dg x \<noteq> h256_zero"
  shows "del_turn dg p sd i (del_state dg c) st =
     (Inr (del_state dg (pull (path_bit p d) x c)),
      if is_node (pull (path_bit p d) x c)
      then st\<lparr>smt_nodes := btm_insert (thash dg (pull (path_bit p d) x c)) (tdata dg (pull (path_bit p d) x c)) (smt_nodes st)\<rparr> else st)"
proof -
  have d: "d < 256"
    using assms(3,4,6) by linarith
  have leaf: "x \<noteq> MEmpty \<Longrightarrow> is_leaf (tdata dg x) = Inr (\<not> is_node x)"
    by (cases x) (simp_all add: is_leaf_def smt_consts)
  have zero: "thash dg x = placeholder \<longleftrightarrow> x = MEmpty"
    using assms(9) by (auto simp: placeholder_def)
  have node: "thash dg (if b then MNode x c else MNode c x) = dg (comb_data b (thash dg x) (thash dg c))"
    "tdata dg (if b then MNode x c else MNode c x) = comb_data b (thash dg x) (thash dg c)" for b
    by (simp_all add: comb_data_def)
  have combine: "bind (put_parent dg p (length sd - 1 - i) (sd ! i) (thash dg c)) (\<lambda>(c, t). ret (c, t, True)) st =
      (Inr (del_state dg n), st\<lparr>smt_nodes := btm_insert (thash dg n) (tdata dg n) (smt_nodes st)\<rparr>)"
    if "n = (if path_bit p d then MNode x c else MNode c x)" for n
  proof -
    have "del_state dg n = (thash dg n, thash dg n, True)"
      using that by (simp add: del_state_def)
    then show ?thesis
      using put_parent_eq [OF assms(2) d, of dg "thash dg x" "thash dg c" st] assms(5,6) node [of "path_bit p d"] that
      by (simp add: Let_def ms_put_def)
  qed
  show ?thesis
  proof (cases "c = MEmpty")
    case True
    then show ?thesis
      using assms(5,7,8) leaf combine [OF refl] thash_nonempty [OF assms(1)]
      by (auto simp: del_turn_def del_state_def pull_def placeholder_def Let_def)
  next
    case False
    then show ?thesis
      using assms(5) zero combine [OF refl] thash_nonempty [OF assms(1)]
      by (cases "is_node c"; cases "x = MEmpty") (auto simp: del_turn_def del_state_def pull_def Let_def)
  qed
qed

text \<open>The loop over the lowest \<open>length xs\<close> side nodes leaves the tree pruned below, and stores its new nodes.\<close>

lemma del_loop:
  assumes dg: "digest32 dg" and p: "length p = 32" and len: "length (ys @ xs) \<le> 256"
    and last: "xs \<noteq> [] \<Longrightarrow> last xs \<noteq> MEmpty"
    and S: "(\<Union>x \<in> set xs. subs x) \<subseteq> S" "holds dg (smt_nodes st) S"
    and inj: "thash_inj dg (S \<union> subs (prune (length ys) p xs))" and nz: "\<And>u. u \<in> S \<Longrightarrow> thash dg u \<noteq> h256_zero"
  shows "\<exists>nd'. for_acc (del_turn dg p (rev (map (thash dg) (ys @ xs)))) [0..<length xs] (h256_zero, [], False) st =
       (Inr (del_state dg (prune (length ys) p xs)), st\<lparr>smt_nodes := nd'\<rparr>)
     \<and> holds dg nd' (S \<union> subs (prune (length ys) p xs)) \<and> (btm_wf (smt_nodes st) \<longrightarrow> btm_wf nd')"
  using len last S(1) inj
proof (induction xs arbitrary: ys)
  case Nil
  then show ?case
    using S(2) by (intro exI [of _ "smt_nodes st"]) (simp add: del_state_def)
next
  case (Cons x xs)
  let ?sd = "rev (map (thash dg) (ys @ x # xs))" and ?c = "prune (Suc (length ys)) p xs"
  let ?n = "pull (path_bit p (length ys)) x ?c"
  have inj': "thash_inj dg (S \<union> subs ?c)"
    by (rule thash_inj_mono [OF Cons.prems(4)]) (use subs_pull in auto)
  obtain nd where nd: "for_acc (del_turn dg p ?sd) [0..<length xs] (h256_zero, [], False) st = (Inr (del_state dg ?c), st\<lparr>smt_nodes := nd\<rparr>)"
    "holds dg nd (S \<union> subs ?c)" "btm_wf (smt_nodes st) \<longrightarrow> btm_wf nd"
  proof -
    have "xs \<noteq> [] \<Longrightarrow> last xs \<noteq> MEmpty"
      using Cons.prems(2) by simp
    from Cons.IH [of "ys @ [x]", OF _ this] that show ?thesis
      using Cons.prems(1,3) inj' by auto
  qed
  have sub: "x \<noteq> MEmpty \<Longrightarrow> x \<in> S"
    using subs_self [of x] Cons.prems(3) by auto
  have "c = MEmpty \<Longrightarrow> c = ?c \<Longrightarrow> x \<noteq> MEmpty" for c
    using Cons.prems(2) by (cases "xs = []") (auto simp: prune_empty dest: last_in_set)
  moreover have "?sd ! length xs = thash dg x" "length ?sd - 1 - length xs = length ys" "length xs < length ?sd"
    by (simp_all add: rev_nth nth_append)
  ultimately have turn: "del_turn dg p ?sd (length xs) (del_state dg ?c) (st\<lparr>smt_nodes := nd\<rparr>) =
      (Inr (del_state dg ?n), if is_node ?n then st\<lparr>smt_nodes := btm_insert (thash dg ?n) (tdata dg ?n) nd\<rparr> else st\<lparr>smt_nodes := nd\<rparr>)"
    using del_turn_step [OF dg p, of "length xs" ?sd x "length ys" ?c "st\<lparr>smt_nodes := nd\<rparr>"] Cons.prems(1) nd(2) sub nz
    by (auto simp: holds_def)
  define nd' where "nd' = (if is_node ?n then btm_insert (thash dg ?n) (tdata dg ?n) nd else nd)"
  have run: "for_acc (del_turn dg p ?sd) [0..<length (x # xs)] (h256_zero, [], False) st = (Inr (del_state dg ?n), st\<lparr>smt_nodes := nd'\<rparr>)"
    using nd(1) turn by (simp add: for_acc_append nd'_def del: rev.simps rev_append)
  have "holds dg nd' (S \<union> subs ?n)"
  proof (cases "is_node ?n")
    case True
    then have n: "thash dg ?n = dg (tdata dg ?n)" "subs ?n \<subseteq> {?n} \<union> subs x \<union> subs ?c" "?n \<in> subs ?n"
      using subs_self [of ?n] by (cases ?n; simp add: thash_tdata; auto simp: pull_def split: if_splits)+
    have "thash_inj dg (S \<union> subs ?c \<union> set [?n])"
      by (rule thash_inj_mono [OF Cons.prems(4)]) (use subs_pull [of ?c] n(3) in auto)
    from holds_put [OF this nd(2)] have "holds dg nd' (S \<union> subs ?c \<union> {?n})"
      using True n(1) by (simp add: nd'_def ms_put_def)
    then show ?thesis
      using n(2) Cons.prems(3) by (auto simp: holds_def)
  next
    case False
    then have "subs ?n \<subseteq> S \<union> subs ?c"
      using Cons.prems(3) by (auto simp: pull_def split: if_splits)
    with False nd(2) show ?thesis
      by (auto simp: nd'_def holds_def)
  qed
  with run nd(3) show ?case
    by (auto simp: nd'_def btm_wf_insert intro!: exI [of _ nd'] simp del: rev.simps rev_append)
qed

section \<open>Deletion refines \<open>tdelete\<close>\<close>

lemma tdelete_wf: "twf 0 t \<Longrightarrow> compressed t \<Longrightarrow> twf 0 (tdelete p t) \<and> compressed (tdelete p t)"
  using prune_wf [OF walk_wf, of t p] prune_compressed [of "sides 0 p t" 0 p] compressed_rebuild [of 0 p "sides 0 p t" "tip 0 p t"]
  by (simp add: tdelete_def rebuild_sides)

lemma leaves_tdelete:
  assumes "twf 0 t" "tip 0 p t = MLeaf p w"
  shows "leaves (tdelete p t) = {e \<in> leaves t. fst e \<noteq> p}"
proof -
  have "fst e \<noteq> p" if "x \<in> set (sides 0 p t)" "e \<in> leaves x" for x e
    using zip_wf_sides_leaf [OF walk_wf [OF assms(1)] that] .
  then show ?thesis
    unfolding tdelete_def leaves_prune leaves_walk [of t p] assms(2) by auto
qed

lemma walk_not_side:
  assumes "twf 0 t" "compressed t" "tip 0 p t = MLeaf p w"
  shows "(\<Union>x \<in> set (sides 0 p t). subs x) \<subseteq> subs t - set (walk p t)"
proof -
  have "MLeaf p w \<notin> subs x" if "x \<in> set (sides 0 p t)" for x
    using zip_wf_sides_leaf [OF walk_wf [OF assms(1)] that] subs_leaves [of "MLeaf p w" x] by force
  moreover have "set (spine 0 p (sides 0 p t) (tip 0 p t)) \<inter> (\<Union>x \<in> set (sides 0 p t). subs x) = {}"
    using spine_not_side [OF walk_wf [OF assms(1)]] assms(2) by (simp add: rebuild_sides)
  ultimately show ?thesis
    using side_subs [of _ p t] assms(3) by (auto simp: walk_def)
qed

lemma del_ok:
  assumes dg: "digest32 dg" and p: "length p = 32" and wf: "twf 0 t" "compressed t" and st: "holds dg (smt_nodes st) (subs t)" "btm_wf (smt_nodes st)"
    and tip: "tip 0 p t = MLeaf p w" and cf: "cfree dg (subs t \<union> subs (tdelete p t))"
  shows "\<exists>nd'. delete_with_sides_nodes dg p (rev (map (thash dg) (sides 0 p t))) (rev (map (thash dg) (walk p t))) (tdata dg (tip 0 p t)) st
       = (Inr (thash dg (tdelete p t)), st\<lparr>smt_nodes := nd'\<rparr>) \<and> holds dg nd' (subs (tdelete p t)) \<and> btm_wf nd'"
proof -
  let ?S = "subs t - set (walk p t)" and ?t' = "tdelete p t"
  have inj: "thash_inj dg (subs t \<union> subs ?t')"
    using cfree_thash_inj [OF dg cf] twf_paths32 [OF wf(1)] twf_paths32 [of 0 ?t'] tdelete_wf [OF wf] by blast
  have walk: "set (rev (walk p t)) \<subseteq> subs t" "distinct (rev (walk p t))"
    using spine_subs [of p t] tip_subs [of p t] tip distinct_spine spine_is_node [of "MLeaf p w"] by (auto simp: walk_def)
  obtain nd1 where nd1: "for_each ms_delete (map (thash dg) (rev (walk p t))) (smt_nodes st) = (Inr (), nd1)" "btm_wf nd1" "holds dg nd1 ?S"
    using holds_delete [OF thash_inj_mono [OF inj] st(1) walk] st(2) by auto
  have nz: "u \<in> subs t \<Longrightarrow> thash dg u \<noteq> h256_zero" for u
    using thash_zero [OF cf, of u] by (cases "u = MEmpty") auto
  have last: "sides 0 p t \<noteq> [] \<Longrightarrow> last (sides 0 p t) \<noteq> MEmpty"
    using last_side [OF wf(2)] by (cases t) auto
  have inj': "thash_inj dg (?S \<union> subs (prune (length []) p (sides 0 p t)))"
    by (rule thash_inj_mono [OF inj]) (auto simp: tdelete_def)
  obtain nd2 where nd2: "for_acc (del_turn dg p (rev (map (thash dg) (sides 0 p t)))) [0..<length (sides 0 p t)] (h256_zero, [], False) (st\<lparr>smt_nodes := nd1\<rparr>) =
       (Inr (del_state dg ?t'), st\<lparr>smt_nodes := nd2\<rparr>)" "holds dg nd2 (?S \<union> subs ?t')" "btm_wf nd2"
    using del_loop [OF dg p _ last walk_not_side [OF wf tip] _ inj', of "st\<lparr>smt_nodes := nd1\<rparr>"] nd1(2,3) nz zip_wf_length [OF walk_wf [OF wf(1)], of p]
    by (auto simp: tdelete_def)
  have "for_each (\<lambda>node. on_nodes (ms_delete node)) (rev (map (thash dg) (walk p t))) st = (Inr (), st\<lparr>smt_nodes := nd1\<rparr>)"
    using nd1(1) by (intro for_each_on_nodes) (simp add: rev_map)
  moreover have "rev (map (thash dg) (walk p t)) = thash dg (tip 0 p t) # rev (map (thash dg) (spine 0 p (sides 0 p t) (tip 0 p t)))"
    by (simp add: walk_def)
  moreover have "\<not> h256_is_zero (thash dg (tip 0 p t))"
    using nz [OF tip_subs [of p t]] tip dg by (simp add: h256_is_zero_iff)
  moreover have "parse_leaf (tdata dg (tip 0 p t)) = Inr (p, w)"
    using parse_leaf_digest_leaf [OF p, of dg w] by (simp add: tip digest_leaf_def smt_consts Let_def)
  ultimately have "delete_with_sides_nodes dg p (rev (map (thash dg) (sides 0 p t))) (rev (map (thash dg) (walk p t))) (tdata dg (tip 0 p t)) st
       = (Inr (thash dg ?t'), st\<lparr>smt_nodes := nd2\<rparr>)"
    using nd2(1) by (simp add: delete_with_sides_nodes_def del_state_def del: thash.simps tdata.simps)
  with nd2(2,3) show ?thesis
    by (auto simp: holds_def)
qed

lemma tdelete_rep:
  assumes "smt_rep dg t st" "t' = tdelete p t" "tip 0 p t = MLeaf p w" "holds dg nd' (subs t')" "btm_wf nd'"
  shows "smt_rep dg t' (st\<lparr>smt_nodes := nd', smt_values := btm_remove p (smt_values st), smt_root := thash dg t'\<rparr>)"
proof -
  have "twf 0 t'" "compressed t'" "leaves t' = {e \<in> leaves t. fst e \<noteq> p}" "btm_wf (btm_remove p (smt_values st))"
    using assms tdelete_wf [of t p] leaves_tdelete [of t p w] btm.wf_rem by (auto simp: smt_rep_def)
  then show ?thesis
    using assms by (auto simp: smt_rep_def btm_remove_def image_iff) force
qed

lemma smt_update_delete:
  assumes "digest32 dg" "smt_rep dg t st" "t' = tdelete (dg key) t"
    and "cfree dg (subs t \<union> subs t')" "btm_get (smt_values st) (dg key) = Some v"
  shows "\<exists>st'. smt_update dg key [] st = (Inr (thash dg t'), st') \<and> smt_rep dg t' st'
           \<and> btm_get (smt_values st') = (btm_get (smt_values st))(dg key := None)"
proof -
  let ?p = "dg key"
  have p: "length ?p = 32"
    using assms(1) by simp
  have rep: "twf 0 t" "compressed t" "holds dg (smt_nodes st) (subs t)" "smt_root st = thash dg t" "btm_wf (smt_nodes st)"
    using assms(2) by (auto simp: smt_rep_def)
  have tip: "tip 0 ?p t = MLeaf ?p (dg v)"
    using tip_leaf [OF rep(1)] rep_values_leaf [OF assms(2), of ?p "dg v"] assms(5) by auto
  obtain sib where side: "side_nodes_for_root (smt_nodes st) ?p (thash dg t) False =
      Inr (rev (map (thash dg) (sides 0 ?p t)), rev (map (thash dg) (walk ?p t)), tdata dg (tip 0 ?p t), sib)"
    using side_nodes_for_root_spec [OF assms(1) p rep(1,2) cfree_mono [OF assms(4)] rep(3)] by blast
  let ?st1 = "st\<lparr>smt_values := btm_remove ?p (smt_values st)\<rparr>"
  obtain nd' where nd': "delete_with_sides_nodes dg ?p (rev (map (thash dg) (sides 0 ?p t)))
        (rev (map (thash dg) (walk ?p t))) (tdata dg (tip 0 ?p t)) ?st1 = (Inr (thash dg t'), ?st1\<lparr>smt_nodes := nd'\<rparr>)"
    "holds dg nd' (subs t')" "btm_wf nd'"
    using del_ok [OF assms(1) p rep(1,2) _ _ tip, of ?st1] rep(3,5) assms(3,4) by auto
  let ?st' = "st\<lparr>smt_nodes := nd', smt_values := btm_remove ?p (smt_values st), smt_root := thash dg t'\<rparr>"
  have "ms_delete ?p (smt_values st) = (Inr (), btm_remove ?p (smt_values st))"
    using assms(5) by (simp add: ms_delete_def btm_contains_def)
  then have "smt_update dg key [] st = (Inr (thash dg t'), ?st')"
    using side nd'(1) rep(4) by (simp add: smt_update_def update_for_root_def path_def set_root_def Let_def)
  then show ?thesis
    using tdelete_rep [OF assms(2,3) tip nd'(2,3)] by auto
qed

text \<open>C3: \<open>SparseMerkleTree::update\<close> with the empty value deletes.  From a state that represents a tree and
  holds the key it succeeds, returns the root of the tree without the leaf, pulled up past placeholders as
  far as it goes, leaves a node store that holds every node of that tree, and forgets exactly that key.\<close>

theorem delete_refines:
  assumes "digest32 dg" "smt_rep dg t st" "t' = tdelete (dg key) t"
    and "cfree dg (subs t \<union> subs t')" "btm_get (smt_values st) (dg key) = Some v"
  shows "\<exists>st'. smt_update dg key [] st = (Inr (thash dg t'), st') \<and> smt_rep dg t' st'
           \<and> btm_get (smt_values st') = (btm_get (smt_values st))(dg key := None)"
  by (rule smt_update_delete [OF assms])

text \<open>Deleting the second of two entries pulls the leaf of the first up to the root.\<close>

lemma demo_tdelete: "demo_tree1 = tdelete (sum_digest [2]) demo_tree2"
  by code_simp

lemma demo_cfree_sym: "cfree sum_digest (subs demo_tree2 \<union> subs demo_tree1)"
  using demo_cfree(2) by (simp only: Un_commute)

theorem delete_refines_witness:
  "\<exists>st'. smt_update sum_digest [2] [] demo_state2 = (Inr (thash sum_digest demo_tree1), st')
     \<and> smt_rep sum_digest demo_tree1 st'
     \<and> btm_get (smt_values st') = (btm_get (smt_values demo_state2))(sum_digest [2] := None)"
  using delete_refines [OF sum_digest32 demo_rep2(1) demo_tdelete demo_cfree_sym, of "[20]"]
  by (simp add: demo_rep2(2))

lemma smt_delete_absent:
  assumes "digest32 dg" "smt_rep dg t st" "cfree dg (subs t)" "btm_get (smt_values st) (dg key) = None"
  shows "smt_update dg key [] st = (Inl StorageError, st)"
proof -
  have p: "length (dg key) = 32"
    using assms(1) by simp
  have rep: "twf 0 t" "compressed t" "holds dg (smt_nodes st) (subs t)" "smt_root st = thash dg t"
    using assms(2) by (auto simp: smt_rep_def)
  have "ms_delete (dg key) (smt_values st) = (Inl StorageError, smt_values st)"
    using assms(4) by (simp add: ms_delete_def btm_contains_def)
  then show ?thesis
    using side_nodes_for_root_spec [OF assms(1) p rep(1,2) assms(3) rep(3), of False] rep(4)
    by (auto simp: smt_update_def update_for_root_def path_def Let_def)
qed

text \<open>C6: deleting a key that is not in the tree is refused: \<open>update\<close> with the empty value reports the
  error of the value store (\<open>StorageError\<close>, not \<open>KeyAlreadyEmpty\<close>) and changes nothing.\<close>

theorem delete_absent:
  assumes "digest32 dg" "smt_rep dg t st" "cfree dg (subs t)" "btm_get (smt_values st) (dg key) = None"
  shows "smt_update dg key [] st = (Inl StorageError, st)"
  by (rule smt_delete_absent [OF assms])

theorem delete_absent_witness: "smt_update sum_digest [2] [] demo_state1 = (Inl StorageError, demo_state1)"
  by (rule delete_absent [OF sum_digest32 demo_rep1(1)]) (use demo_cfree demo_rep1(2) demo_paths in auto)

end
