(* ===== verification/Smt_Props.thy ===== *)
theory Smt_Props
  imports Smt_Delete
begin

text \<open>
  What the clients of \<open>SparseMerkleTree\<close> rely on: reads, generated proofs, histories of updates, and the
  encoded form.
\<close>

section \<open>Reads and proofs\<close>

definition lookup :: "smt \<Rightarrow> h256 \<Rightarrow> bytes" where
  "lookup st p = (case btm_get (smt_values st) p of None \<Rightarrow> [] | Some v \<Rightarrow> v)"

lemma rep_zero_root:
  assumes "digest32 dg" "smt_rep dg t st" "cfree dg (subs t)"
  shows "h256_is_zero (smt_root st) \<longleftrightarrow> t = MEmpty"
  using assms thash_zero [OF assms(3), of t] subs_self [of t]
  by (cases "t = MEmpty") (auto simp: smt_rep_def h256_is_zero_iff)

lemma rep_get:
  assumes "digest32 dg" "smt_rep dg t st" "cfree dg (subs t)"
  shows "smt_get dg st key = Inr (lookup st (dg key))"
proof (cases "t = MEmpty")
  case True
  then have "btm_get (smt_values st) (dg key) = None"
    using rep_values_leaf [OF assms(2), of "dg key"] by (cases "btm_get (smt_values st) (dg key)") auto
  then show ?thesis
    using True rep_zero_root [OF assms] by (simp add: smt_get_def lookup_def)
next
  case False
  then show ?thesis
    using rep_zero_root [OF assms] by (simp add: smt_get_def lookup_def ms_get_or_default_def path_def)
qed

text \<open>The proof that is built from a walk.\<close>

lemma do_proof_spec:
  assumes "digest32 dg" "smt_rep dg t st" "cfree dg (subs t)"
  obtains sib where "do_proof_for_root dg st key (smt_root st) upd =
     Inr \<lparr>side_nodes = rev (map (thash dg) (sides 0 (dg key) t)),
          non_membership_leaf_data = (case tip 0 (dg key) t of MLeaf q w \<Rightarrow> if q = dg key then None else Some (0 # q @ w) | _ \<Rightarrow> None),
          sibling_data = sib\<rparr>"
proof -
  let ?p = "dg key" and ?e = "tip 0 (dg key) t"
  have rep: "twf 0 t" "compressed t" "holds dg (smt_nodes st) (subs t)" "smt_root st = thash dg t" and p: "length ?p = 32"
    using assms(1,2) by (auto simp: smt_rep_def)
  obtain sib where side: "side_nodes_for_root (smt_nodes st) ?p (thash dg t) upd =
      Inr (rev (map (thash dg) (sides 0 ?p t)), rev (map (thash dg) (walk ?p t)), tdata dg ?e, sib)"
    using side_nodes_for_root_spec [OF assms(1) p rep(1,2) assms(3) rep(3)] by blast
  have zero: "h256_is_zero (thash dg ?e) \<longleftrightarrow> ?e = MEmpty"
    using thash_zero [OF assms(3), of ?e] tip_subs [of ?p t] assms(1) by (cases "?e = MEmpty") (auto simp: h256_is_zero_iff)
  have parse: "parse_leaf (tdata dg ?e) = Inr (q, w)" if "?e = MLeaf q w" for q w
    using walk_wf [OF rep(1), of ?p, THEN zip_wf_tip] that parse_leaf_digest_leaf [of q dg w]
    by (simp add: digest_leaf_def smt_consts Let_def)
  show ?thesis
    using side zero parse tip_not_node [of 0 ?p t] rep(4)
    by (intro that [of sib]) (auto simp: do_proof_for_root_def path_def walk_def Let_def split: mtree.splits)
qed

lemma verify_walk:
  assumes "digest32 dg" "smt_rep dg t st"
    and "side_nodes prf = rev (map (thash dg) (sides 0 (dg key) t))"
    and "non_membership_leaf_data prf = (case tip 0 (dg key) t of MLeaf q w \<Rightarrow> if q = dg key then None else Some (0 # q @ w) | _ \<Rightarrow> None)"
  shows "verify_proof dg prf (smt_root st) key (lookup st (dg key))"
proof -
  let ?p = "dg key" and ?e = "tip 0 (dg key) t" and ?v = "lookup st (dg key)"
  have rep: "twf 0 t" "smt_root st = thash dg t"
    using assms(1,2) by (auto simp: smt_rep_def)
  have nonempty: "btm_get (smt_values st) ?p = Some v \<Longrightarrow> v \<noteq> []" for v
    using assms(2) btm_get_iff [of "smt_values st" ?p v] by (force simp: smt_rep_def)
  have "\<exists>ups. verify_start dg prf ?p ?v = Inr (thash dg ?e, ups)"
  proof (cases "btm_get (smt_values st) ?p")
    case (Some v)
    then have "?e = MLeaf ?p (dg v)"
      using tip_leaf [OF rep(1)] rep_values_leaf [OF assms(2), of ?p "dg v"] by blast
    then show ?thesis
      using Some nonempty [OF Some] by (simp add: lookup_def verify_start_def digest_leaf_def smt_consts Let_def)
  next
    case None
    then have "(?p, w) \<notin> leaves t" for w
      using rep_values_leaf [OF assms(2), of ?p w] by simp
    then have other: "q \<noteq> ?p" if "?e = MLeaf q w" for q w
      using that unfolding leaves_walk [of t ?p] by auto
    have len: "length q = 32" if "?e = MLeaf q w" for q w
      using walk_wf [OF rep(1), of ?p, THEN zip_wf_tip] that by simp
    show ?thesis
    proof (cases ?e)
      case (MLeaf q w)
      then show ?thesis
        using None other [OF MLeaf] assms(4) parse_leaf_digest_leaf [OF len [OF MLeaf], of dg w]
        by (simp add: lookup_def verify_start_def digest_leaf_def smt_consts Let_def)
    qed (use None assms(4) tip_not_node [of 0 ?p t] in \<open>simp_all add: lookup_def verify_start_def placeholder_def\<close>)
  qed
  then obtain ups where "verify_start dg prf ?p ?v = Inr (thash dg ?e, ups)"
    by blast
  moreover have "climb dg ?p 0 (side_nodes prf) (thash dg ?e) = smt_root st"
    using thash_rebuild [of dg 0 ?p "sides 0 ?p t" ?e] rep(2) by (simp add: assms(3) rebuild_sides)
  moreover have "length (side_nodes prf) \<le> 8 * length ?p"
    using zip_wf_length [OF walk_wf [OF rep(1)], of ?p] assms(1,3) by simp
  ultimately show ?thesis
    using verify_loop [of "[]" "side_nodes prf" ?p dg "thash dg ?e" ups]
    by (simp add: verify_proof_def verify_proof_with_updates_def path_def Let_def)
qed

text \<open>C5: \<open>get_with_proof_updatable\<close> never fails on a represented state: it returns the stored value, or the
  empty value for a key that is not in the tree, and the proof it builds, with the data of the last side
  node, is accepted by \<open>verify_proof\<close> for the tree's root, that key and that value.\<close>

theorem generated_proofs_verify:
  assumes "digest32 dg" "smt_rep dg t st" "cfree dg (subs t)"
  shows "\<exists>prf. get_with_proof_updatable dg st key = Inr (lookup st (dg key), prf)
           \<and> verify_proof dg prf (smt_root st) key (lookup st (dg key))"
proof -
  obtain sib where "do_proof_for_root dg st key (smt_root st) True =
     Inr \<lparr>side_nodes = rev (map (thash dg) (sides 0 (dg key) t)),
          non_membership_leaf_data = (case tip 0 (dg key) t of MLeaf q w \<Rightarrow> if q = dg key then None else Some (0 # q @ w) | _ \<Rightarrow> None),
          sibling_data = sib\<rparr>"
    using do_proof_spec [OF assms] .
  then show ?thesis
    using verify_walk [OF assms(1,2), of _ key] rep_get [OF assms]
    by (auto simp: get_with_proof_updatable_def get_with_proof_updatable_for_root_def)
qed

lemma demo_cfree2: "cfree sum_digest (subs demo_tree2)"
  by (rule cfree_mono [OF demo_cfree(2)]) simp

lemma demo_paths3: "sum_digest [3] \<notin> {sum_digest [1], sum_digest [2]}"
  by code_simp

theorem generated_proofs_verify_witness:
  "(\<exists>prf. get_with_proof_updatable sum_digest demo_state2 [2] = Inr ([20], prf)
      \<and> verify_proof sum_digest prf (smt_root demo_state2) [2] [20])
   \<and> (\<exists>prf. get_with_proof_updatable sum_digest demo_state2 [3] = Inr ([], prf)
      \<and> verify_proof sum_digest prf (smt_root demo_state2) [3] [])"
  using generated_proofs_verify [OF sum_digest32 demo_rep2(1) demo_cfree2, of "[2]"]
    generated_proofs_verify [OF sum_digest32 demo_rep2(1) demo_cfree2, of "[3]"] demo_paths3
  by (simp add: lookup_def demo_rep2(2))

section \<open>Histories of updates\<close>

text \<open>A history is a list of updates; an update that reports an error leaves the state it reached.\<close>

definition run_updates :: "(bytes \<Rightarrow> h256) \<Rightarrow> (bytes \<times> bytes) list \<Rightarrow> smt \<Rightarrow> smt" where
  "run_updates dg ops st = fold (\<lambda>(k, v) st. snd (smt_update dg k v st)) ops st"

text \<open>What the history says: the last value of each key, the empty value removes it.\<close>

definition set_key :: "(bytes \<Rightarrow> h256) \<Rightarrow> bytes \<times> bytes \<Rightarrow> (h256 \<rightharpoonup> bytes) \<Rightarrow> (h256 \<rightharpoonup> bytes)" where
  "set_key dg op M = M(dg (fst op) := (if snd op = [] then None else Some (snd op)))"

definition contents :: "(bytes \<Rightarrow> h256) \<Rightarrow> (bytes \<times> bytes) list \<Rightarrow> (h256 \<rightharpoonup> bytes)" where
  "contents dg ops = fold (set_key dg) ops Map.empty"

text \<open>The trees that the history goes through.\<close>

definition tstep :: "(bytes \<Rightarrow> h256) \<Rightarrow> bytes \<times> bytes \<Rightarrow> mtree \<Rightarrow> mtree" where
  "tstep dg op t =
     (let p = dg (fst op) in
      if snd op \<noteq> [] then tinsert p (dg (snd op)) t
      else case tip 0 p t of MLeaf q w \<Rightarrow> if q = p then tdelete p t else t | _ \<Rightarrow> t)"

fun tvisits :: "(bytes \<Rightarrow> h256) \<Rightarrow> mtree \<Rightarrow> (bytes \<times> bytes) list \<Rightarrow> mtree list" where
  "tvisits dg t [] = [t]"
| "tvisits dg t (op # ops) = t # tvisits dg (tstep dg op t) ops"

definition history_cfree :: "(bytes \<Rightarrow> h256) \<Rightarrow> mtree \<Rightarrow> (bytes \<times> bytes) list \<Rightarrow> bool" where
  "history_cfree dg t ops \<longleftrightarrow> cfree dg (\<Union>u \<in> set (tvisits dg t ops). subs u) \<and> inj_on dg (snd ` set ops)"

lemma step_refines:
  assumes "digest32 dg" "smt_rep dg t st" "cfree dg (subs t \<union> subs (tstep dg (k, v) t))"
    and "\<And>u. btm_get (smt_values st) (dg k) = Some u \<Longrightarrow> dg u = dg v \<Longrightarrow> u = v"
  shows "smt_rep dg (tstep dg (k, v) t) (snd (smt_update dg k v st))
    \<and> btm_get (smt_values (snd (smt_update dg k v st))) = set_key dg (k, v) (btm_get (smt_values st))"
proof (cases "v = []")
  case False
  with smt_update_insert [OF assms(1) _ assms(2) refl] assms(3,4) show ?thesis
    by (fastforce simp: tstep_def set_key_def Let_def)
next
  case True
  have wf: "twf 0 t"
    using assms(2) by (simp add: smt_rep_def)
  show ?thesis
  proof (cases "btm_get (smt_values st) (dg k)")
    case (Some u)
    then have "tip 0 (dg k) t = MLeaf (dg k) (dg u)"
      using tip_leaf [OF wf] rep_values_leaf [OF assms(2), of "dg k" "dg u"] by blast
    with smt_update_delete [OF assms(1,2) refl _ Some] assms(3) True show ?thesis
      by (fastforce simp: tstep_def set_key_def Let_def)
  next
    case None
    then have "(dg k, w) \<notin> leaves t" for w
      using rep_values_leaf [OF assms(2), of "dg k" w] by simp
    then have "tip 0 (dg k) t \<noteq> MLeaf (dg k) w" for w
      unfolding leaves_walk [of t "dg k"] by force
    then have t: "tstep dg (k, v) t = t"
      using True by (auto simp: tstep_def Let_def split: mtree.splits)
    have "smt_update dg k [] st = (Inl StorageError, st)"
      using assms(3) None t smt_delete_absent [OF assms(1,2)] by simp
    then show ?thesis
      using True assms(2) None t by (auto simp: set_key_def)
  qed
qed

lemma run_refines:
  assumes "digest32 dg" "smt_rep dg t st" "cfree dg (\<Union>u \<in> set (tvisits dg t ops). subs u)"
    and "inj_on dg (V \<union> snd ` set ops)" "ran (btm_get (smt_values st)) \<subseteq> V"
  shows "smt_rep dg (last (tvisits dg t ops)) (run_updates dg ops st)
    \<and> btm_get (smt_values (run_updates dg ops st)) = fold (set_key dg) ops (btm_get (smt_values st))"
  using assms(2-5)
proof (induction ops arbitrary: t st V)
  case (Cons op ops)
  obtain k v where op: "op = (k, v)"
    by fastforce
  let ?st = "snd (smt_update dg k v st)" and ?t = "tstep dg (k, v) t"
  have t: "?t \<in> set (tvisits dg ?t ops)"
    by (cases ops) auto
  have "cfree dg (subs t \<union> subs ?t)"
    by (rule cfree_mono [OF Cons.prems(2)]) (use t op in auto)
  moreover have "u = v" if "btm_get (smt_values st) (dg k) = Some u" "dg u = dg v" for u
    using inj_onD [OF Cons.prems(3), of u v] that Cons.prems(4) op by (auto intro: ranI)
  ultimately have step: "smt_rep dg ?t ?st" "btm_get (smt_values ?st) = set_key dg (k, v) (btm_get (smt_values st))"
    using step_refines [OF assms(1) Cons.prems(1)] by blast+
  have "ran (btm_get (smt_values ?st)) \<subseteq> V \<union> {v}"
    using Cons.prems(4) step(2) by (auto simp: set_key_def ran_def split: if_splits)
  moreover have "cfree dg (\<Union>u \<in> set (tvisits dg ?t ops). subs u)" "inj_on dg (V \<union> {v} \<union> snd ` set ops)"
    using Cons.prems(2,3) op by (auto elim: cfree_mono inj_on_subset)
  ultimately have "smt_rep dg (last (tvisits dg ?t ops)) (run_updates dg ops ?st)
    \<and> btm_get (smt_values (run_updates dg ops ?st)) = fold (set_key dg) ops (btm_get (smt_values ?st))"
    using step(1) by (intro Cons.IH [where V = "V \<union> {v}"])
  moreover have "tvisits dg ?t ops \<noteq> []"
    by (cases ops) auto
  ultimately show ?case
    using op step(2) by (simp add: run_updates_def)
qed (simp add: run_updates_def)

lemma history_refines:
  assumes "digest32 dg" "history_cfree dg MEmpty ops"
  shows "smt_rep dg (last (tvisits dg MEmpty ops)) (run_updates dg ops smt_new)
    \<and> btm_get (smt_values (run_updates dg ops smt_new)) = contents dg ops"
proof -
  have "ran (btm_get (smt_values smt_new)) \<subseteq> {}"
    by (simp add: smt_new_values)
  from run_refines [OF assms(1) smt_new_rep _ _ this, of ops] show ?thesis
    using assms(2) by (simp add: history_cfree_def contents_def smt_new_values)
qed

text \<open>C1: the root is a function of the contents.  Two histories of updates from the empty tree,
  insertions, overwrites and deletions in any order, that leave the same contents end in the same root
  hash, and reading any key gives what the history last wrote there.  Each history has to be collision
  free on the nodes it creates and on the values it writes.\<close>

theorem root_history_independent:
  assumes "digest32 dg" "history_cfree dg MEmpty ops" "history_cfree dg MEmpty ops'" "contents dg ops = contents dg ops'"
  shows "smt_root (run_updates dg ops smt_new) = smt_root (run_updates dg ops' smt_new)
    \<and> smt_get dg (run_updates dg ops smt_new) key = Inr (case contents dg ops (dg key) of None \<Rightarrow> [] | Some v \<Rightarrow> v)"
proof -
  let ?st = "run_updates dg ops smt_new" and ?st' = "run_updates dg ops' smt_new"
  let ?t = "last (tvisits dg MEmpty ops)" and ?t' = "last (tvisits dg MEmpty ops')"
  have rep: "smt_rep dg ?t ?st" "btm_get (smt_values ?st) = contents dg ops"
    "smt_rep dg ?t' ?st'" "btm_get (smt_values ?st') = contents dg ops'"
    using history_refines [OF assms(1,2)] history_refines [OF assms(1,3)] by auto
  have "smt_values ?st = smt_values ?st'"
    using rep assms(4) by (intro btm.items_ext) (auto simp: smt_rep_def)
  then have "leaves ?t = leaves ?t'"
    using rep(1,3) by (simp add: smt_rep_def)
  then have "?t = ?t'"
    using rep(1,3) by (intro leaves_determine [of 0]) (auto simp: smt_rep_def)
  then have root: "smt_root ?st = smt_root ?st'"
    using rep(1,3) by (simp add: smt_rep_def)
  have "tvisits dg MEmpty ops \<noteq> []"
    by (cases ops) auto
  then have "cfree dg (subs ?t)"
    using assms(2) by (auto simp: history_cfree_def elim!: cfree_mono intro: last_in_set)
  from rep_get [OF assms(1) rep(1) this] root show ?thesis
    by (simp add: lookup_def rep(2))
qed

definition demo_ops :: "(bytes \<times> bytes) list" where
  "demo_ops = [([1], [10]), ([2], [20])]"

definition demo_ops' :: "(bytes \<times> bytes) list" where
  "demo_ops' = [([2], [30]), ([3], [40]), ([1], [10]), ([3], []), ([2], [20])]"

lemma demo_history:
  "history_cfree sum_digest MEmpty demo_ops" "history_cfree sum_digest MEmpty demo_ops'"
  unfolding history_cfree_def cfree_def by code_simp+

lemma demo_contents:
  "contents sum_digest demo_ops = contents sum_digest demo_ops'" "contents sum_digest demo_ops (sum_digest [2]) = Some [20]"
proof -
  have ne: "sum_digest [1] \<noteq> sum_digest [2]" "sum_digest [1] \<noteq> sum_digest [3]" "sum_digest [2] \<noteq> sum_digest [3]"
    by code_simp+
  then show "contents sum_digest demo_ops = contents sum_digest demo_ops'" "contents sum_digest demo_ops (sum_digest [2]) = Some [20]"
    by (auto simp: contents_def demo_ops_def demo_ops'_def set_key_def fun_upd_twist)
qed

theorem root_history_independent_witness:
  "smt_root (run_updates sum_digest demo_ops smt_new) = smt_root (run_updates sum_digest demo_ops' smt_new)
   \<and> smt_get sum_digest (run_updates sum_digest demo_ops smt_new) [2] = Inr [20]"
  using root_history_independent [OF sum_digest32 demo_history demo_contents(1), of "[2]"] by (simp add: demo_contents(2))

section \<open>Encoding\<close>



section \<open>Subtrees\<close>

text \<open>A subtree taken with \<open>CopyStrategy::Partial\<close> starts at the parent's root and nodes with no values;
  writing the value that the parent already holds for a key is reported as a success, but the value is not
  stored: reading the key back gives the empty value.\<close>

theorem partial_same_value_lost:
  assumes "digest32 dg" "smt_rep dg t st" "cfree dg (subs t)" "btm_get (smt_values st) (dg key) = Some v" "v \<noteq> []"
  shows "\<exists>sub sub'. subtree dg st Partial [] = Inr sub \<and> smt_root sub = smt_root st
    \<and> smt_update dg key v sub = (Inr (smt_root st), sub') \<and> smt_get dg sub' key = Inr [] \<and> smt_get dg st key = Inr v"
proof -
  let ?p = "dg key" and ?e = "MLeaf (dg key) (dg v)"
  have p: "length ?p = 32"
    using assms(1) by simp
  have rep: "twf 0 t" "compressed t" "holds dg (smt_nodes st) (subs t)" "smt_root st = thash dg t" "btm_wf (smt_nodes st)"
    using assms(2) by (auto simp: smt_rep_def)
  have tip: "tip 0 ?p t = ?e"
    using tip_leaf [OF rep(1)] rep_values_leaf [OF assms(2), of ?p "dg v"] assms(4) by auto
  let ?sub = "\<lparr>smt_nodes = smt_nodes st, smt_values = [], smt_root = smt_root st, smt_parent = smt_root st\<rparr>"
  have sub: "subtree dg st Partial [] = Inr ?sub"
    by (simp add: subtree_def new_with_hasher_def ms_new_def)
  obtain sib where side: "side_nodes_for_root (smt_nodes st) ?p (thash dg t) False =
      Inr (rev (map (thash dg) (sides 0 ?p t)), rev (map (thash dg) (walk ?p t)), tdata dg ?e, sib)"
    using side_nodes_for_root_spec [OF assms(1) p rep(1,2) assms(3) rep(3), of False] tip by auto
  have nz: "dg (0 # ?p @ dg v) \<noteq> h256_zero"
    using thash_zero [OF assms(3), of ?e] tip_subs [of ?p t] tip by simp
  have "ms_get (smt_nodes st) (thash dg ?e) = Inr (tdata dg ?e)"
    using rep(3) tip_subs [of ?p t] tip by (fastforce simp: holds_def)
  then have put: "btm_insert (thash dg ?e) (tdata dg ?e) (smt_nodes st) = smt_nodes st"
    using rep(5) by (intro values_same) (auto simp: ms_get_def ok_or_def split: option.splits)
  have leaf: "digest_leaf dg ?p (dg v) = (thash dg ?e, tdata dg ?e)"
    by (simp add: digest_leaf_def smt_consts Let_def)
  have "update_with_sides_nodes dg ?p v xs (thash dg ?e # ps) (tdata dg ?e) ?sub = (Inr (smt_root st), ?sub)" for xs ps
    using upd_prefix_leaf [OF assms(1) p p _ nz] put leaf assms(1)
    by (simp add: update_with_sides_nodes_def ms_put_def upd_split_def Let_def del: thash.simps tdata.simps)
  then have "smt_update dg key v ?sub = (Inr (smt_root st), ?sub)"
    using side assms(5) rep(4) tip
    by (simp add: smt_update_def update_for_root_def path_def set_root_def walk_def Let_def del: thash.simps tdata.simps)
  moreover have "smt_get dg ?sub key = Inr []" "smt_get dg st key = Inr v"
    using rep_get [OF assms(1-3), of key] assms(4) by (simp_all add: lookup_def smt_get_def ms_get_or_default_def)
  ultimately show ?thesis
    using sub by auto
qed

theorem partial_same_value_lost_witness:
  "\<exists>sub sub'. subtree sum_digest demo_state2 Partial [] = Inr sub \<and> smt_root sub = smt_root demo_state2
    \<and> smt_update sum_digest [2] [20] sub = (Inr (smt_root demo_state2), sub')
    \<and> smt_get sum_digest sub' [2] = Inr [] \<and> smt_get sum_digest demo_state2 [2] = Inr [20]"
  by (rule partial_same_value_lost [OF sum_digest32 demo_rep2(1) demo_cfree2]) (simp_all add: demo_rep2(2))

end
