(* ===== verification/Codec.thy ===== *)
theory Codec
  imports Smt_Base
begin

text \<open>
  Byte-level encodings: the big-endian integers and fixed-size arrays of \<open>codec/src/lib.rs\<close>, the block
  key and the consensus encoding of a header from \<open>common/types/src/block.rs\<close>.  The locale \<open>byte_codec\<close>
  states what the stores and the header hash rely on, \<open>ordered_codec\<close> that keys sort like their
  encodings.
\<close>

section \<open>Big-endian integers\<close>

datatype codec_error = TryFromSliceError | CoinbaseError | CodecPanicked

fun be_enc :: "nat \<Rightarrow> nat \<Rightarrow> bytes" where
  "be_enc 0 k = []"
| "be_enc (Suc n) k = be_enc n (k div 256) @ [of_nat k]"

definition be_dec :: "bytes \<Rightarrow> nat" where
  "be_dec bs = foldl (\<lambda>a b. a * 256 + unat b) 0 bs"

definition to_be_bytes :: "'a::len word \<Rightarrow> bytes" where
  "to_be_bytes w = be_enc (LENGTH('a) div 8) (unat w)"

definition from_be_bytes :: "bytes \<Rightarrow> 'a::len word" where
  "from_be_bytes bs = of_nat (be_dec bs)"

text \<open>The implementation that \<open>impl_codec_primitives!\<close> gives to the unsigned integers.\<close>

definition uint_encode :: "'a::len word \<Rightarrow> codec_error + bytes" where
  "uint_encode w = Inr (to_be_bytes w)"

definition uint_decode :: "bytes \<Rightarrow> codec_error + 'a::len word" where
  "uint_decode buf =
     (if length buf = LENGTH('a) div 8 then Inr (from_be_bytes buf) else Inl TryFromSliceError)"

text \<open>\<open>Hash\<close>, \<open>H160\<close>, \<open>H256\<close> and \<open>Address\<close>: an array of fixed size, copied from a slice of that size.\<close>

definition ADDRESS_LEN :: nat where
  "ADDRESS_LEN = 44"

type_synonym address = bytes

definition array_encode :: "bytes \<Rightarrow> codec_error + bytes" where
  "array_encode a = Inr a"

definition array_decode :: "nat \<Rightarrow> bytes \<Rightarrow> codec_error + bytes" where
  "array_decode n buf = (if length buf = n then Inr buf else Inl CodecPanicked)"

text \<open>\<open>Vec<u8>\<close>.\<close>

definition vec_encode :: "bytes \<Rightarrow> codec_error + bytes" where
  "vec_encode v = Inr v"

definition vec_decode :: "bytes \<Rightarrow> codec_error + bytes" where
  "vec_decode buf = Inr buf"

definition from_slice_checked :: "bytes \<Rightarrow> codec_error + address" where
  "from_slice_checked s = (if length s \<noteq> ADDRESS_LEN then Inl CoinbaseError else Inr s)"

definition default_address :: address where
  "default_address = replicate 44 0"

section \<open>Block keys\<close>

datatype block_primary_key = BlockPrimaryKey u32 h256

primrec bpk_encode :: "block_primary_key \<Rightarrow> codec_error + bytes" where
  "bpk_encode (BlockPrimaryKey level hash) = Inr (to_be_bytes level @ hash)"

definition bpk_decode :: "bytes \<Rightarrow> codec_error + block_primary_key" where
  "bpk_decode buf =
     (if length buf < 4 then Inl CodecPanicked
      else let level = from_be_bytes (take 4 buf); hash = drop 4 buf
           in if length hash = 32 then Inr (BlockPrimaryKey level hash) else Inl CodecPanicked)"

primrec bpk_wf :: "block_primary_key \<Rightarrow> bool" where
  "bpk_wf (BlockPrimaryKey level hash) \<longleftrightarrow> length hash = 32"

text \<open>The order that \<open>derive(Ord)\<close> gives to the pair.\<close>

fun bpk_less :: "block_primary_key \<Rightarrow> block_primary_key \<Rightarrow> bool" where
  "bpk_less (BlockPrimaryKey l h) (BlockPrimaryKey l' h') \<longleftrightarrow> l < l' \<or> l = l' \<and> h < h'"

section \<open>Block headers\<close>

record block_header =
  parent_hash :: h256
  receipt_hash :: h256
  tx_root :: h256
  state_root :: h256
  mix_nonce :: "256 word"
  coinbase :: address
  difficulty :: u32
  bh_chain_id :: u32
  level :: u32
  time :: u32
  bh_nonce :: u64

definition HEADER_SIZE :: nat where
  "HEADER_SIZE = 212"

definition consensus_encode :: "block_header \<Rightarrow> bytes" where
  "consensus_encode h =
     parent_hash h @ receipt_hash h @ tx_root h @ state_root h @ to_be_bytes (mix_nonce h)
     @ coinbase h @ to_be_bytes (difficulty h) @ to_be_bytes (bh_chain_id h) @ to_be_bytes (level h)
     @ to_be_bytes (time h) @ to_be_bytes (bh_nonce h)"

text \<open>\<open>Bytes::copy_to_bytes\<close> and the \<open>get\<close> functions panic when fewer bytes remain.\<close>

definition copy_to_bytes :: "nat \<Rightarrow> (bytes, codec_error, bytes) action" where
  "copy_to_bytes n bs = (if length bs < n then (Inl CodecPanicked, bs) else (Inr (take n bs), drop n bs))"

definition get_uint :: "(bytes, codec_error, 'a::len word) action" where
  "get_uint = bind (copy_to_bytes (LENGTH('a) div 8)) (\<lambda>b. ret (from_be_bytes b))"

definition consensus_decode :: "bytes \<Rightarrow> codec_error + block_header" where
  "consensus_decode buf = fst (
     bind (copy_to_bytes 32) (\<lambda>parent.
     bind (copy_to_bytes 32) (\<lambda>receipt.
     bind (copy_to_bytes 32) (\<lambda>txr.
     bind (copy_to_bytes 32) (\<lambda>st.
     bind get_uint (\<lambda>mix.
     bind (bind (copy_to_bytes ADDRESS_LEN) (\<lambda>b. lift_res (from_slice_checked b))) (\<lambda>cb.
     bind get_uint (\<lambda>diff.
     bind get_uint (\<lambda>cid.
     bind get_uint (\<lambda>lvl.
     bind get_uint (\<lambda>tm.
     bind get_uint (\<lambda>nonce.
       ret \<lparr>parent_hash = parent, receipt_hash = receipt, tx_root = txr, state_root = st, mix_nonce = mix,
            coinbase = cb, difficulty = diff, bh_chain_id = cid, level = lvl, time = tm, bh_nonce = nonce\<rparr>)))))))))))
     buf)"

text \<open>Sizes that the Rust types fix.\<close>

definition header_wf :: "block_header \<Rightarrow> bool" where
  "header_wf h \<longleftrightarrow> length (parent_hash h) = 32 \<and> length (receipt_hash h) = 32 \<and> length (tx_root h) = 32
     \<and> length (state_root h) = 32 \<and> length (coinbase h) = ADDRESS_LEN"

text \<open>\<open>dhash256\<close> is SHA-256 twice; SHA-256 is a parameter.\<close>

definition dhash256 :: "(bytes \<Rightarrow> h256) \<Rightarrow> bytes \<Rightarrow> h256" where
  "dhash256 sha x = sha (sha x)"

definition header_hash :: "(bytes \<Rightarrow> h256) \<Rightarrow> block_header \<Rightarrow> h256" where
  "header_hash sha h = dhash256 sha (consensus_encode h)"

section \<open>Facts about big-endian integers\<close>

lemma unat_u8: "unat (b :: u8) < 256"
  by (rule order_less_le_trans [OF unsigned_less]) simp

lemma length_be_enc [simp]: "length (be_enc n k) = n"
  by (induction n arbitrary: k) auto

lemma length_to_be_bytes [simp]: "length (to_be_bytes (w :: 'a::len word)) = LENGTH('a) div 8"
  by (simp add: to_be_bytes_def)

lemma be_dec_snoc: "be_dec (bs @ [b]) = be_dec bs * 256 + unat b"
  by (simp add: be_dec_def)

lemma be_dec_less: "be_dec bs < 256 ^ length bs"
proof (induction bs rule: rev_induct)
  case (snoc b bs)
  have "unat b < 256"
    by (rule unat_u8)
  with snoc show ?case
    by (simp add: be_dec_snoc)
qed (simp add: be_dec_def)

lemma be_dec_be_enc: "be_dec (be_enc n k) = k mod 256 ^ n"
proof (induction n arbitrary: k)
  case (Suc n)
  have "unat (of_nat k :: u8) = k mod 256"
    by (simp add: unat_of_nat)
  then show ?case
    using mod_mult2_eq [of k 256 "256 ^ n"] by (simp add: be_dec_snoc Suc mult.commute)
qed (simp add: be_dec_def)

lemma be_enc_be_dec: "be_enc (length bs) (be_dec bs) = bs"
proof (induction bs rule: rev_induct)
  case (snoc b bs)
  have "unat b < 256"
    by (rule unat_u8)
  then have "(be_dec bs * 256 + unat b) div 256 = be_dec bs"
    by simp
  moreover have "(of_nat (be_dec bs * 256 + unat b) :: u8) = b"
  proof -
    have z: "(256 :: u8) = 0"
      by code_simp
    show ?thesis
      unfolding of_nat_add of_nat_mult of_nat_numeral z by simp
  qed
  ultimately show ?case
    using snoc by (simp add: be_dec_snoc)
qed simp

lemma from_be_to_be:
  assumes "LENGTH('a) = 8 * (LENGTH('a::len) div 8)"
  shows "from_be_bytes (to_be_bytes (w :: 'a word)) = w"
proof -
  have "(256 :: nat) ^ (LENGTH('a) div 8) = 2 ^ LENGTH('a)"
    by (subst assms) (simp add: power_mult)
  then have "be_dec (to_be_bytes w) = unat w mod 2 ^ LENGTH('a)"
    by (simp add: to_be_bytes_def be_dec_be_enc)
  then show ?thesis
    by (simp add: from_be_bytes_def unsigned_less)
qed

lemma be_enc_less_iff:
  "k < 256 ^ n \<Longrightarrow> m < 256 ^ n \<Longrightarrow> be_enc n k < be_enc n m \<longleftrightarrow> k < m"
proof (induction n arbitrary: k m)
  case (Suc n)
  have snoc: "xs @ [x] < ys @ [y] \<longleftrightarrow> xs < ys \<or> xs = ys \<and> x < y" if "length xs = length ys" for xs ys and x y :: u8
    using that
  proof (induction xs ys rule: list_induct2)
    case (Cons a xs b ys)
    then show ?case
      by (cases "a = b") (simp_all add: Cons_less_Cons)
  qed (simp add: Cons_less_Cons)
  have div: "k div 256 < 256 ^ n" "m div 256 < 256 ^ n"
    using Suc.prems by (simp_all add: less_mult_imp_div_less mult.commute)
  have eq: "be_enc n (k div 256) = be_enc n (m div 256) \<longleftrightarrow> k div 256 = m div 256"
    using div by (metis be_dec_be_enc mod_less)
  have low: "(of_nat k :: u8) < of_nat m \<longleftrightarrow> k mod 256 < m mod 256"
    by (simp add: word_less_nat_alt unat_of_nat)
  have split: "k = k div 256 * 256 + k mod 256" "m = m div 256 * 256 + m mod 256" "k mod 256 < 256" "m mod 256 < 256"
    by simp_all
  have "k < m \<longleftrightarrow> k div 256 < m div 256 \<or> k div 256 = m div 256 \<and> k mod 256 < m mod 256"
  proof (cases "k div 256" "m div 256" rule: linorder_cases)
    case less
    with split show ?thesis by linarith
  next
    case equal
    with split show ?thesis by linarith
  next
    case greater
    with split show ?thesis by linarith
  qed
  then show ?case
    unfolding be_enc.simps snoc [OF trans [OF length_be_enc length_be_enc [symmetric]]] Suc.IH [OF div] eq low by simp
qed simp

section \<open>The codec interface\<close>

locale byte_codec =
  fixes enc :: "'a \<Rightarrow> codec_error + bytes"
    and dec :: "bytes \<Rightarrow> codec_error + 'a"
    and wf :: "'a \<Rightarrow> bool"
  assumes enc_ok: "wf x \<Longrightarrow> \<exists>b. enc x = Inr b"
    and dec_enc: "wf x \<Longrightarrow> rbind (enc x) dec = Inr x"
begin

text \<open>Encodings are names: two values with the same bytes are the same value.\<close>

lemma enc_inject: "wf x \<Longrightarrow> wf y \<Longrightarrow> enc x = enc y \<Longrightarrow> x = y"
  by (metis dec_enc sum.inject(2))

lemma enc_inj_on: "inj_on (\<lambda>x. case enc x of Inl _ \<Rightarrow> [] | Inr b \<Rightarrow> b) {x. wf x}"
proof (rule inj_onI)
  fix x y assume *: "x \<in> {x. wf x}" "y \<in> {x. wf x}"
    "(case enc x of Inl _ \<Rightarrow> [] | Inr b \<Rightarrow> b) = (case enc y of Inl _ \<Rightarrow> [] | Inr b \<Rightarrow> b)"
  then obtain b c where "enc x = Inr b" "enc y = Inr c"
    using enc_ok by (metis mem_Collect_eq)
  with * show "x = y"
    using enc_inject by auto
qed

end

text \<open>Keys whose encodings sort like the keys, which is what an ordered store iterates by.\<close>

locale ordered_codec = byte_codec enc dec wf
  for enc :: "'a \<Rightarrow> codec_error + bytes" and dec and wf +
  fixes less :: "'a \<Rightarrow> 'a \<Rightarrow> bool"
  assumes enc_less: "wf x \<Longrightarrow> wf y \<Longrightarrow> enc x = Inr b \<Longrightarrow> enc y = Inr c \<Longrightarrow> b < c \<longleftrightarrow> less x y"
begin

lemma enc_sorted:
  "\<forall>x \<in> set xs. wf x \<Longrightarrow> list_all2 (\<lambda>x b. enc x = Inr b) xs bs \<Longrightarrow> sorted_wrt (<) bs \<longleftrightarrow> sorted_wrt less xs"
proof (induction xs arbitrary: bs)
  case (Cons x xs)
  then obtain b bs' where bs: "bs = b # bs'" "enc x = Inr b" "list_all2 (\<lambda>x b. enc x = Inr b) xs bs'"
    by (cases bs) auto
  have "(\<forall>c \<in> set bs'. b < c) \<longleftrightarrow> (\<forall>y \<in> set xs. less x y)"
    using bs(3) Cons.prems(1) by (induction rule: list_all2_induct) (auto simp: enc_less [OF _ _ bs(2)])
  with Cons bs show ?case by simp
qed simp

end

lemma pow_bytes: "LENGTH('a::len) = 8 * (LENGTH('a) div 8) \<Longrightarrow> (256 :: nat) ^ (LENGTH('a) div 8) = 2 ^ LENGTH('a)"
proof -
  assume *: "LENGTH('a) = 8 * (LENGTH('a) div 8)"
  have "(256 :: nat) ^ (LENGTH('a) div 8) = 2 ^ (8 * (LENGTH('a) div 8))"
    by (simp add: power_mult)
  then show ?thesis
    by (simp only: * [symmetric])
qed

lemma to_be_bytes_less:
  assumes "LENGTH('a) = 8 * (LENGTH('a::len) div 8)"
  shows "to_be_bytes (x :: 'a word) < to_be_bytes y \<longleftrightarrow> x < y"
proof -
  have "unat w < 256 ^ (LENGTH('a) div 8)" for w :: "'a word"
    unfolding pow_bytes [OF assms] by (rule unsigned_less)
  then show ?thesis
    by (simp add: to_be_bytes_def be_enc_less_iff word_less_nat_alt)
qed

interpretation u32_codec: ordered_codec uint_encode "uint_decode :: bytes \<Rightarrow> codec_error + u32" "\<lambda>_. True" "(<)"
  by unfold_locales (auto simp: uint_encode_def uint_decode_def from_be_to_be to_be_bytes_less)

interpretation u64_codec: ordered_codec uint_encode "uint_decode :: bytes \<Rightarrow> codec_error + u64" "\<lambda>_. True" "(<)"
  by unfold_locales (auto simp: uint_encode_def uint_decode_def from_be_to_be to_be_bytes_less)

interpretation hash_codec: ordered_codec array_encode "array_decode 32" "\<lambda>h. length h = 32" "(<)"
  by unfold_locales (auto simp: array_encode_def array_decode_def)

interpretation address_codec: ordered_codec array_encode "array_decode ADDRESS_LEN" "\<lambda>a. length a = ADDRESS_LEN" "(<)"
  by unfold_locales (auto simp: array_encode_def array_decode_def)

interpretation vec_codec: ordered_codec vec_encode vec_decode "\<lambda>_. True" "(<)"
  by unfold_locales (auto simp: vec_encode_def vec_decode_def)

lemma append_less_append:
  fixes xs ys us vs :: bytes
  assumes "length xs = length ys"
  shows "xs @ us < ys @ vs \<longleftrightarrow> xs < ys \<or> xs = ys \<and> us < vs"
  using assms
proof (induction xs ys rule: list_induct2)
  case (Cons a xs b ys)
  then show ?case
    by (cases "a = b") (simp_all add: Cons_less_Cons)
qed simp

lemma bpk_less_iff:
  assumes "bpk_wf x" "bpk_wf y" "bpk_encode x = Inr b" "bpk_encode y = Inr c"
  shows "b < c \<longleftrightarrow> bpk_less x y"
proof -
  obtain l h l' h' where xy: "x = BlockPrimaryKey l h" "y = BlockPrimaryKey l' h'"
    by (cases x; cases y)
  have "to_be_bytes l = to_be_bytes l' \<longleftrightarrow> l = l'"
    by (metis u32_codec.enc_inject uint_encode_def)
  then show ?thesis
    using assms xy by (auto simp: append_less_append to_be_bytes_less)
qed

interpretation bpk_codec: ordered_codec bpk_encode bpk_decode bpk_wf bpk_less
proof unfold_locales
  show "bpk_wf x \<Longrightarrow> \<exists>b. bpk_encode x = Inr b" for x
    by (cases x) simp
  show "bpk_wf x \<Longrightarrow> rbind (bpk_encode x) bpk_decode = Inr x" for x
    by (cases x) (simp add: bpk_decode_def from_be_to_be)
qed (rule bpk_less_iff)

section \<open>Header encoding\<close>

lemma copy_to_bytes_append: "length a = n \<Longrightarrow> copy_to_bytes n (a @ b) = (Inr a, b)"
  by (simp add: copy_to_bytes_def)

lemma get_uint_append:
  "LENGTH('a) = 8 * (LENGTH('a::len) div 8) \<Longrightarrow> get_uint (to_be_bytes (w :: 'a word) @ b) = (Inr w, b)"
  by (simp add: get_uint_def copy_to_bytes_append from_be_to_be)

lemma get_uint_end:
  "LENGTH('a) = 8 * (LENGTH('a::len) div 8) \<Longrightarrow> get_uint (to_be_bytes (w :: 'a word)) = (Inr w, [])"
  using get_uint_append [of w "[]"] by simp

lemma consensus_decode_encode:
  assumes "header_wf h"
  shows "consensus_decode (consensus_encode h @ rest) = Inr h"
  using assms
  by (simp add: header_wf_def consensus_decode_def consensus_encode_def copy_to_bytes_append get_uint_append
      from_slice_checked_def ADDRESS_LEN_def)

interpretation header_codec: byte_codec "\<lambda>h. Inr (consensus_encode h)" consensus_decode header_wf
  using consensus_decode_encode [where rest = "[]"] by unfold_locales simp_all

lemma length_consensus_encode: "header_wf h \<Longrightarrow> length (consensus_encode h) = 228"
  by (simp add: header_wf_def consensus_encode_def ADDRESS_LEN_def)

text \<open>A reader that takes exactly \<open>n\<close> bytes, or panics when there are fewer.\<close>

definition consumes :: "(bytes, codec_error, 'a) action \<Rightarrow> nat \<Rightarrow> bool" where
  "consumes m n \<longleftrightarrow> (\<forall>bs. if length bs < n then fst (m bs) = Inl CodecPanicked else \<exists>x. m bs = (Inr x, drop n bs))"

lemma consumes_copy: "consumes (copy_to_bytes n) n"
  by (auto simp: consumes_def copy_to_bytes_def)

lemma consumes_ret: "consumes (ret x) 0"
  by (auto simp: consumes_def)

lemma consumes_bind:
  assumes "consumes m n" "\<And>x. consumes (f x) k" "j = n + k"
  shows "consumes (bind m f) j"
  unfolding consumes_def
proof
  fix bs
  show "if length bs < j then fst (bind m f bs) = Inl CodecPanicked else \<exists>x. bind m f bs = (Inr x, drop j bs)"
  proof (cases "length bs < n")
    case True
    then show ?thesis
      using assms(1,3) by (cases "m bs") (auto simp: consumes_def bind_def split: sum.splits dest: spec [of _ bs])
  next
    case False
    then obtain x where "m bs = (Inr x, drop n bs)"
      using assms(1) unfolding consumes_def by metis
    then show ?thesis
      using assms(2) [of x, unfolded consumes_def, THEN spec, of "drop n bs"] False assms(3)
      by (auto simp: bind_def less_diff_conv2 add.commute split: if_splits)
  qed
qed

lemma consumes_uint: "consumes (get_uint :: (bytes, codec_error, 'a::len word) action) (LENGTH('a) div 8)"
  unfolding get_uint_def by (rule consumes_bind [OF consumes_copy consumes_ret]) simp

lemma consumes_coinbase:
  "consumes (bind (copy_to_bytes ADDRESS_LEN) (\<lambda>b. lift_res (from_slice_checked b))) ADDRESS_LEN"
  by (auto simp: consumes_def bind_def copy_to_bytes_def from_slice_checked_def)

lemmas consumes_intros = consumes_bind [OF consumes_copy] consumes_bind [OF consumes_coinbase]
  consumes_bind [OF consumes_uint] consumes_ret

lemma consensus_decode_total:
  "(if length buf < 228 then consensus_decode buf = Inl CodecPanicked else \<exists>h. consensus_decode buf = Inr h)"
proof -
  have "\<exists>m. consensus_decode buf = fst (m buf) \<and> consumes m 228"
    unfolding consensus_decode_def by (intro exI conjI, rule refl) (rule consumes_intros | simp add: ADDRESS_LEN_def)+
  then show ?thesis
    unfolding consumes_def by (metis fst_conv)
qed

lemma to_be_from_be: "length b = LENGTH('a::len) div 8 \<Longrightarrow> LENGTH('a) = 8 * (LENGTH('a) div 8) \<Longrightarrow> to_be_bytes (from_be_bytes b :: 'a word) = b"
proof -
  assume len: "length b = LENGTH('a) div 8" "LENGTH('a) = 8 * (LENGTH('a) div 8)"
  have "be_dec b < 2 ^ LENGTH('a)"
    using be_dec_less [of b] pow_bytes [OF len(2)] len(1) by simp
  then have "unat (from_be_bytes b :: 'a word) = be_dec b"
    by (simp add: from_be_bytes_def unat_of_nat)
  then show ?thesis
    using be_enc_be_dec [of b] len(1) by (simp add: to_be_bytes_def)
qed

lemma take_append_drop: "r = drop n xs \<Longrightarrow> take n xs @ r = xs"
  by simp

lemma header_pieces:
  assumes "228 \<le> length buf"
  shows "\<exists>h. header_wf h \<and> buf = consensus_encode h @ drop 228 buf"
proof -
  define h where "h = \<lparr>parent_hash = take 32 buf, receipt_hash = take 32 (drop 32 buf), tx_root = take 32 (drop 64 buf),
    state_root = take 32 (drop 96 buf), mix_nonce = from_be_bytes (take 32 (drop 128 buf)),
    coinbase = take 44 (drop 160 buf), difficulty = from_be_bytes (take 4 (drop 204 buf)),
    bh_chain_id = from_be_bytes (take 4 (drop 208 buf)), level = from_be_bytes (take 4 (drop 212 buf)),
    time = from_be_bytes (take 4 (drop 216 buf)), bh_nonce = from_be_bytes (take 8 (drop 220 buf))\<rparr>"
  have "header_wf h"
    using assms by (simp add: header_wf_def h_def ADDRESS_LEN_def)
  moreover have "consensus_encode h @ drop 228 buf = buf"
    using assms unfolding consensus_encode_def append_assoc
    by (simp add: h_def to_be_from_be take_append_drop)
  ultimately show ?thesis by metis
qed

text \<open>C17: decoding a header succeeds exactly on the byte strings that begin with the encoding of a header,
  and returns that header: encoding then decoding gives the header back, decoding then encoding gives the
  bytes back, and every string of fewer than 228 bytes panics.\<close>

theorem header_decode_exact:
  "(consensus_decode buf = Inr h \<longleftrightarrow> header_wf h \<and> (\<exists>rest. buf = consensus_encode h @ rest))
   \<and> (consensus_decode buf = Inl CodecPanicked \<longleftrightarrow> length buf < 228)"
proof (cases "length buf < 228")
  case True
  moreover have "length (consensus_encode h @ rest) \<ge> 228" if "header_wf h" for rest
    using length_consensus_encode [OF that] by simp
  ultimately show ?thesis
    using consensus_decode_total [of buf] by (auto simp: not_less [symmetric])
next
  case False
  then obtain h' where "header_wf h'" "buf = consensus_encode h' @ drop 228 buf"
    using header_pieces [of buf] by auto
  then have "consensus_decode buf = Inr h'" "header_wf h'" "\<exists>rest. buf = consensus_encode h' @ rest"
    using consensus_decode_encode [of h' "drop 228 buf"] by metis+
  then show ?thesis
    using False consensus_decode_encode [of h] by auto
qed

text \<open>C18: the hash of a header binds every field of it: two headers with the same hash are equal, when
  SHA-256 does not collide on the two encodings and their hashes.\<close>

theorem header_hash_binds:
  assumes "header_wf h" "header_wf h'" "header_hash sha h = header_hash sha h'"
    and "inj_on sha {consensus_encode h, consensus_encode h', sha (consensus_encode h), sha (consensus_encode h')}"
  shows "h = h'"
proof -
  have "sha (consensus_encode h) = sha (consensus_encode h')"
    using assms(3,4) by (auto simp: header_hash_def dhash256_def dest: inj_onD)
  then have "consensus_encode h = consensus_encode h'"
    using assms(4) by (auto dest: inj_onD)
  with header_codec.enc_inject [OF assms(1,2)] show ?thesis by simp
qed

definition demo_header :: block_header where
  "demo_header = \<lparr>parent_hash = replicate 32 1, receipt_hash = replicate 32 2, tx_root = replicate 32 3,
     state_root = replicate 32 4, mix_nonce = 5, coinbase = replicate 44 6, difficulty = 0x1d00ffff,
     bh_chain_id = 1, level = 9, time = 1000, bh_nonce = 42\<rparr>"

lemma demo_header_wf: "header_wf demo_header"
  by code_simp

theorem header_hash_binds_witness:
  "header_hash (\<lambda>x. replicate 31 0 @ [of_nat (length x)]) demo_header =
     header_hash (\<lambda>x. replicate 31 0 @ [of_nat (length x)]) (demo_header\<lparr>level := 9\<rparr>)
   \<and> demo_header = demo_header\<lparr>level := 9\<rparr>"
proof -
  let ?sha = "\<lambda>x :: bytes. replicate 31 0 @ [of_nat (length x) :: u8]"
  have eq: "header_hash ?sha demo_header = header_hash ?sha (demo_header\<lparr>level := 9\<rparr>)"
    by (simp add: demo_header_def)
  have wf: "header_wf (demo_header\<lparr>level := 9\<rparr>)"
    using demo_header_wf by (simp add: header_wf_def)
  have "inj_on ?sha {consensus_encode demo_header, consensus_encode (demo_header\<lparr>level := 9\<rparr>),
      ?sha (consensus_encode demo_header), ?sha (consensus_encode (demo_header\<lparr>level := 9\<rparr>))}"
    using length_consensus_encode [OF demo_header_wf] by (auto simp: demo_header_def)
  from header_hash_binds [OF demo_header_wf wf eq this] eq show ?thesis
    by blast
qed

text \<open>C19: block keys are stored under their encoding, and the store's byte order is the order of the keys,
  by level first and by hash within a level; the key is read back from its bytes.\<close>

theorem block_key_codec:
  assumes "bpk_wf k" "bpk_wf k'" "bpk_encode k = Inr b" "bpk_encode k' = Inr b'"
  shows "bpk_decode b = Inr k \<and> (b < b' \<longleftrightarrow> bpk_less k k') \<and> (b = b' \<longleftrightarrow> k = k')"
  using bpk_codec.dec_enc [OF assms(1)] bpk_codec.enc_less [OF assms] bpk_codec.enc_inject [OF assms(1,2)] assms(3,4)
  by auto

theorem block_key_codec_witness:
  "bpk_decode ([0, 0, 1, 2] @ replicate 32 7) = Inr (BlockPrimaryKey 258 (replicate 32 7))
   \<and> ([0, 0, 1, 2] @ replicate 32 7 < [0, 0, 2, 1] @ replicate 32 (3 :: u8))"
proof -
  have enc: "bpk_encode (BlockPrimaryKey 258 (replicate 32 7)) = Inr ([0, 0, 1, 2] @ replicate 32 7)"
    "bpk_encode (BlockPrimaryKey 513 (replicate 32 3)) = Inr ([0, 0, 2, 1] @ replicate 32 3)"
    by code_simp+
  show ?thesis
    using block_key_codec [OF _ _ enc] by simp
qed

end
