(* ===== verification/Hex.thy ===== *)
theory Hex
  imports Bech32
begin

text \<open>
  The crate \<open>common/hex\<close>: printing bytes and unsigned integers as hexadecimal strings and reading them
  back.  A string is its UTF-8 bytes.  \<open>encode_to_slice\<close> returns the string that the source reads back from
  the slice it fills; the slice itself is a parameter only through its length.
\<close>

unbundle bit_operations_syntax

section \<open>Printing\<close>

definition hex_chars :: bytes where
  "hex_chars = ascii ''0123456789abcdef''"

datatype from_hex_error =
    MissingPrefix
  | InvalidLength
  | InvalidHex u32 nat
  | HexPanicked

definition hi_nibble :: "u8 \<Rightarrow> nat" where
  "hi_nibble b = unat (drop_bit 4 b)"

definition lo_nibble :: "u8 \<Rightarrow> nat" where
  "lo_nibble b = unat (b AND 0xf)"

definition encode_to_slice :: "nat \<Rightarrow> bytes \<Rightarrow> bool \<Rightarrow> from_hex_error + bytes" where
  "encode_to_slice v_len bs skip_leading_zero =
     (if \<not> v_len > 1 + length bs * 2 then Inl HexPanicked
      else case bs of
        [] \<Rightarrow> Inl HexPanicked
      | b # rest \<Rightarrow>
          Inr (ascii ''0x''
            @ (if hi_nibble b \<noteq> 0 \<or> \<not> skip_leading_zero then [hex_chars ! hi_nibble b] else [])
            @ [hex_chars ! lo_nibble b]
            @ concat (map (\<lambda>byte. [hex_chars ! hi_nibble byte, hex_chars ! lo_nibble byte]) rest)))"

definition hex_encode :: "bytes \<Rightarrow> bool \<Rightarrow> from_hex_error + bytes" where
  "hex_encode bs skip_leading_zero =
     (if skip_leading_zero then
        (let bs' = dropWhile (\<lambda>b. b = 0) bs in
         if bs' = [] then Inr (ascii ''0x0'') else encode_to_slice ((length bs' + 1) * 2) bs' True)
      else if bs = [] then Inr (ascii ''0x'')
      else encode_to_slice ((length bs + 1) * 2) bs False)"

definition hex_encode_raw :: "bytes \<Rightarrow> from_hex_error + bytes" where
  "hex_encode_raw bs = (if bs = [] then Inr (ascii ''0x'') else hex_encode bs False)"

definition hex_encode_uint :: "bytes \<Rightarrow> from_hex_error + bytes" where
  "hex_encode_uint bs =
     (let bs' = dropWhile (\<lambda>b. b = 0) bs in
      if bs' = [] then Inr (ascii ''0x0'') else hex_encode bs' True)"

section \<open>Reading\<close>

text \<open>One character: its four bits, \<open>None\<close> for the white space that is skipped.\<close>

definition read_nibble :: "nat \<Rightarrow> u8 \<Rightarrow> from_hex_error + u8 option" where
  "read_nibble at byte =
     (if of_char (CHR ''A'') \<le> byte \<and> byte \<le> of_char (CHR ''F'') then Inr (Some (byte - of_char (CHR ''A'') + 10))
      else if of_char (CHR ''a'') \<le> byte \<and> byte \<le> of_char (CHR ''f'') then Inr (Some (byte - of_char (CHR ''a'') + 10))
      else if of_char (CHR ''0'') \<le> byte \<and> byte \<le> of_char (CHR ''9'') then Inr (Some (byte - of_char (CHR ''0'')))
      else if byte \<in> {32, 13, 10, 9} then Inr None
      else Inl (InvalidHex (ucast byte) at))"

text \<open>The loop of \<open>decode_to_slice\<close>: \<open>buf\<close> is an octet, so shifting it drops the bits of the last byte.\<close>

fun decode_loop :: "bool \<Rightarrow> nat \<Rightarrow> bytes \<Rightarrow> nat \<Rightarrow> u8 \<Rightarrow> nat \<Rightarrow> bytes \<Rightarrow> from_hex_error + nat \<times> bytes" where
  "decode_loop stripped index [] modulus buf pos out = Inr (pos, out)"
| "decode_loop stripped index (byte # v) modulus buf pos out =
     rbind (read_nibble (index + (if stripped then 2 else 0)) byte) (\<lambda>n. case n of
         None \<Rightarrow> decode_loop stripped (Suc index) v modulus (drop_bit 4 (push_bit 4 buf)) pos out
       | Some d \<Rightarrow>
           (let buf' = push_bit 4 buf OR d in
            if modulus + 1 = 2 then
              (if pos < length out then decode_loop stripped (Suc index) v 0 buf' (Suc pos) (out[pos := buf'])
               else Inl HexPanicked)
            else decode_loop stripped (Suc index) v (modulus + 1) buf' pos out))"

definition decode_to_slice :: "bytes \<Rightarrow> bytes \<Rightarrow> bool \<Rightarrow> from_hex_error + nat \<times> bytes" where
  "decode_to_slice v out stripped = decode_loop stripped 0 v (length v mod 2) 0 0 out"

definition strip_prefix :: "bytes \<Rightarrow> bytes \<Rightarrow> bytes option" where
  "strip_prefix pre v = (if take (length pre) v = pre then Some (drop (length pre) v) else None)"

definition hex_decode :: "bytes \<Rightarrow> from_hex_error + bytes" where
  "hex_decode v =
     (let (v, stripped) = (case strip_prefix (ascii ''0x'') v of None \<Rightarrow> (v, False) | Some r \<Rightarrow> (r, True)) in
      rbind (decode_to_slice v (replicate ((length v + 1) div 2) 0) stripped) (\<lambda>(_, out). Inr out))"

section \<open>The instances\<close>

text \<open>\<open>impl_hex_uint!\<close>: \<open>$len - decoded.len()\<close> wraps, and a range that starts above its end is empty.\<close>

definition uint_encode_hex :: "'a::len word \<Rightarrow> from_hex_error + bytes" where
  "uint_encode_hex w = hex_encode_uint (to_be_bytes w)"

fun fill_from :: "nat \<Rightarrow> nat \<Rightarrow> bytes \<Rightarrow> bytes \<Rightarrow> from_hex_error + bytes" where
  "fill_from i 0 src raw = Inr raw"
| "fill_from i (Suc n) src raw =
     (case src of [] \<Rightarrow> Inl InvalidLength | b # rest \<Rightarrow> fill_from (Suc i) n rest (raw[i := b]))"

definition uint_from_hex :: "bytes \<Rightarrow> from_hex_error + 'a::len word" where
  "uint_from_hex v =
     rbind (hex_decode v) (\<lambda>decoded.
       (let len = LENGTH('a) div 8; start_index = unat (of_nat len - of_nat (length decoded) :: u64) in
        rbind (fill_from start_index (len - start_index) decoded (replicate len 0)) (\<lambda>raw.
          Inr (from_be_bytes raw))))"

text \<open>\<open>Vec<u8>\<close> and \<open>[u8; N]\<close>.\<close>

definition vec_encode_hex :: "bytes \<Rightarrow> from_hex_error + bytes" where
  "vec_encode_hex v = hex_encode v True"

definition vec_from_hex :: "bytes \<Rightarrow> from_hex_error + bytes" where
  "vec_from_hex v = hex_decode v"

definition array_encode_hex :: "bytes \<Rightarrow> from_hex_error + bytes" where
  "array_encode_hex a = hex_encode a False"

definition array_from_hex :: "nat \<Rightarrow> bytes \<Rightarrow> from_hex_error + bytes" where
  "array_from_hex n v = rbind (decode_to_slice v (replicate n 0) False) (\<lambda>(_, out). Inr out)"

section \<open>Reading what was printed\<close>

definition hex_pair :: "u8 \<Rightarrow> bytes" where
  "hex_pair b = [hex_chars ! hi_nibble b, hex_chars ! lo_nibble b]"

lemma nibble_bounds: "hi_nibble b < 16" "lo_nibble b < 16"
proof -
  have "unat b div 16 < 16"
    using unat_u8 [of b] by linarith
  then show "hi_nibble b < 16"
    unfolding hi_nibble_def unat_drop_bit_eq by (simp add: drop_bit_eq_div)
  have "unat (b AND 0xf) \<le> unat (0xf :: u8)"
    unfolding word_le_nat_alt [symmetric] by (rule word_and_le1)
  then show "lo_nibble b < 16"
    by (simp add: lo_nibble_def)
qed

lemma less_16: "n < 16 \<longleftrightarrow> n \<in> set [0..<16::nat]"
  by simp

lemma read_nibble_chars: "n < 16 \<Longrightarrow> read_nibble at (hex_chars ! n) = Inr (Some (of_nat n))"
  unfolding less_16 by (simp add: upt_rec hex_chars_def ascii_def read_nibble_def) (elim disjE; simp)

lemma hex_digit:
  "read_nibble at (hex_chars ! hi_nibble b) = Inr (Some (drop_bit 4 b))"
  "read_nibble at (hex_chars ! lo_nibble b) = Inr (Some (b AND 0xf))"
  using nibble_bounds [of b] by (simp_all add: read_nibble_chars) (simp_all add: hi_nibble_def lo_nibble_def)

lemma mask_15: "(0xf :: u8) = mask 4"
  by (simp add: mask_eq_exp_minus_1)

lemma join_nibbles: "push_bit 4 (drop_bit 4 b) OR (b AND 0xf) = (b :: u8)"
  unfolding mask_15 by (rule bit_word_eqI) (auto simp: bit_simps)

lemma join_low: "drop_bit 4 b = 0 \<Longrightarrow> push_bit 4 0 OR (b AND 0xf) = (b :: u8)"
  using join_nibbles [of b] by simp

lemma decode_pairs:
  assumes "pos + length bs \<le> length out"
  shows "decode_loop s i (concat (map hex_pair bs)) 0 buf pos out =
     Inr (pos + length bs, take pos out @ bs @ drop (pos + length bs) out)"
  using assms
proof (induction bs arbitrary: i buf pos out)
  case (Cons b bs)
  have len: "pos < length out" "Suc pos + length bs \<le> length (out[pos := b])"
    using Cons.prems by auto
  have "decode_loop s i (concat (map hex_pair (b # bs))) 0 buf pos out =
      decode_loop s (Suc (Suc i)) (concat (map hex_pair bs)) 0 b (Suc pos) (out[pos := b])"
    using len(1) by (simp add: hex_pair_def hex_digit join_nibbles Let_def)
  also have "\<dots> = Inr (Suc pos + length bs, take (Suc pos) (out[pos := b]) @ bs @ drop (Suc pos + length bs) (out[pos := b]))"
    by (rule Cons.IH [OF len(2)])
  finally show ?case
    using len(1) by (simp add: take_Suc_conv_app_nth)
qed simp

lemma length_pairs [simp]: "length (concat (map hex_pair bs)) = 2 * length bs"
  by (induction bs) (simp_all add: hex_pair_def)

lemma encode_to_slice_full:
  "bs \<noteq> [] \<Longrightarrow> encode_to_slice ((length bs + 1) * 2) bs False = Inr (ascii ''0x'' @ concat (map hex_pair bs))"
  by (cases bs) (auto simp: encode_to_slice_def hex_pair_def cong: map_cong)

lemma hex_encode_full: "hex_encode bs False = Inr (ascii ''0x'' @ concat (map hex_pair bs))"
  using encode_to_slice_full [of bs] by (cases "bs = []") (auto simp: hex_encode_def)

lemma strip_0x [simp]: "strip_prefix (ascii ''0x'') (ascii ''0x'' @ v) = Some v"
  by (simp add: strip_prefix_def)

lemma hex_decode_0x:
  "hex_decode (ascii ''0x'' @ v) = rbind (decode_to_slice v (replicate ((length v + 1) div 2) 0) True) (\<lambda>(_, out). Inr out)"
  by (simp add: hex_decode_def)

lemma decode_full: "rbind (hex_encode bs False) hex_decode = Inr bs"
  by (simp add: hex_encode_full hex_decode_0x decode_to_slice_def decode_pairs)

text \<open>Without leading zeros the first byte may be printed with one digit.\<close>

lemma decode_trimmed:
  assumes "bs \<noteq> []" "hd bs \<noteq> 0"
  shows "rbind (encode_to_slice ((length bs + 1) * 2) bs True) hex_decode = Inr bs"
proof -
  obtain b rest where bs: "bs = b # rest"
    using assms(1) by (cases bs) auto
  show ?thesis
  proof (cases "hi_nibble b = 0")
    case False
    then have "encode_to_slice ((length bs + 1) * 2) bs True = encode_to_slice ((length bs + 1) * 2) bs False"
      by (simp add: bs encode_to_slice_def)
    then show ?thesis
      using decode_full [of bs] assms(1) by (simp add: hex_encode_def)
  next
    case True
    then have zero: "drop_bit 4 b = 0"
      by (simp add: hi_nibble_def unat_eq_zero)
    have enc: "encode_to_slice ((length bs + 1) * 2) bs True
        = Inr (ascii ''0x'' @ (hex_chars ! lo_nibble b) # concat (map hex_pair rest))"
      using True by (simp add: bs encode_to_slice_def hex_pair_def cong: map_cong)
    let ?out = "replicate (Suc (length rest)) 0 :: bytes"
    have "decode_loop True 0 ((hex_chars ! lo_nibble b) # concat (map hex_pair rest)) 1 0 0 ?out
        = decode_loop True (Suc 0) (concat (map hex_pair rest)) 0 b (Suc 0) (?out[0 := b])"
      using join_low [OF zero] by (simp add: hex_digit Let_def)
    also have "\<dots> = Inr (Suc (length rest), b # rest)"
      using decode_pairs [of "Suc 0" rest "?out[0 := b]"] by simp
    finally show ?thesis
      unfolding enc rbind_simps hex_decode_0x decode_to_slice_def by (simp add: bs)
  qed
qed

lemma hd_dropWhile_zero: "dropWhile (\<lambda>b. b = 0) bs \<noteq> [] \<Longrightarrow> hd (dropWhile (\<lambda>b. b = 0) bs) \<noteq> (0 :: u8)"
  using hd_dropWhile [of "\<lambda>b. b = 0" bs] by simp

lemma decode_uint:
  "rbind (hex_encode_uint bs) hex_decode =
     Inr (let t = dropWhile (\<lambda>b. b = 0) bs in if t = [] then [0] else t)"
proof (cases "dropWhile (\<lambda>b. b = 0) bs = []")
  case True
  have "hex_decode (ascii ''0x0'') = Inr [0]"
    by code_simp
  with True show ?thesis
    by (simp add: hex_encode_uint_def)
next
  case False
  define t where "t = dropWhile (\<lambda>b. b = 0) bs"
  have "t \<noteq> []" "hd t \<noteq> 0" "dropWhile (\<lambda>b. b = 0) t = t"
    using False hd_dropWhile_zero [of bs] unfolding t_def by (simp_all add: dropWhile_idem)
  then show ?thesis
    using decode_trimmed [of t] unfolding hex_encode_uint_def hex_encode_def t_def [symmetric] by simp
qed

lemma fill_from_spec:
  assumes "i + n = length raw" "length src = n"
  shows "fill_from i n src raw = Inr (take i raw @ src)"
  using assms
proof (induction n arbitrary: i src raw)
  case (Suc n)
  obtain b rest where "src = b # rest"
    using Suc.prems by (cases src) auto
  then show ?case
    using Suc.IH [of "Suc i" "raw[i := b]" rest] Suc.prems by (simp add: take_Suc_conv_app_nth)
qed simp

lemma replicate_zero_dropWhile:
  "replicate (length bs - length (dropWhile (\<lambda>b. b = 0) bs)) 0 @ dropWhile (\<lambda>b. b = 0) bs = (bs :: bytes)"
  by (induction bs) (auto simp: Suc_diff_le length_dropWhile_le)

lemma fill_uint:
  fixes w :: "'a::len word"
  assumes "LENGTH('a) = 8 * n" "n \<le> 32" "rbind (Inr s) hex_decode = Inr d"
    and "length d \<le> n" "replicate (n - length d) 0 @ d = to_be_bytes w"
  shows "uint_from_hex s = Inr w"
proof -
  have len: "LENGTH('a) div 8 = n"
    using assms(1) by simp
  have "unat (of_nat n - of_nat (length d) :: u64) = n - length d"
  proof -
    have "(of_nat n - of_nat (length d) :: u64) = of_nat (n - length d)"
      using assms(4) by simp
    moreover have "n - length d < 2 ^ 64"
      using assms(2) by simp
    ultimately show ?thesis
      by (simp add: unat_of_nat)
  qed
  moreover have "fill_from (n - length d) (n - (n - length d)) d (replicate n 0) = Inr (to_be_bytes w)"
    using fill_from_spec [of "n - length d" "length d" "replicate n 0" d] assms(4,5) by (simp add: min_def)
  moreover have "from_be_bytes (to_be_bytes w) = w"
    using from_be_to_be [of w] assms(1) by simp
  ultimately show ?thesis
    using assms(3) by (simp add: uint_from_hex_def len Let_def)
qed

text \<open>C36: the hexadecimal form of an unsigned integer is read back as the same integer: the digits that
  \<open>encode_hex\<close> trims, down to a single digit of the first byte, are restored by \<open>from_hex\<close>, at every width
  of whole bytes up to 256 bits.\<close>

theorem uint_hex_round_trip:
  fixes w :: "'a::len word"
  assumes "LENGTH('a) = 8 * n" "n \<le> 32"
  shows "rbind (uint_encode_hex w) uint_from_hex = Inr w"
proof -
  let ?bs = "to_be_bytes w"
  define t where "t = dropWhile (\<lambda>b. b = 0) ?bs"
  define d where "d = (if t = [] then [0] else t)"
  have len: "length ?bs = n" "n \<noteq> 0"
    using assms(1) len_gt_0 [where 'a = 'a] by auto
  have t: "length t \<le> n" "replicate (n - length t) 0 @ t = ?bs"
    using replicate_zero_dropWhile [of ?bs] length_dropWhile_le [of "\<lambda>b. b = 0" ?bs] len by (simp_all add: t_def)
  have "replicate n (0 :: u8) = replicate (n - 1) 0 @ [0]"
    using len(2) by (metis Suc_pred' neq0_conv replicate_append_same replicate_Suc)
  then have d: "length d \<le> n" "replicate (n - length d) 0 @ d = ?bs"
    using t len(2) by (auto simp: d_def)
  have dec: "rbind (uint_encode_hex w) hex_decode = Inr d"
    using decode_uint [of ?bs] by (simp add: uint_encode_hex_def d_def t_def Let_def)
  then obtain s where "uint_encode_hex w = Inr s"
    by (cases "uint_encode_hex w") (auto simp: rbind_def)
  then show ?thesis
    using fill_uint [OF assms _ d] dec by simp
qed

theorem uint_hex_round_trip_witness:
  "uint_encode_hex (300 :: u64) = Inr (ascii ''0x12c'') \<and> rbind (uint_encode_hex (300 :: u64)) uint_from_hex = Inr (300 :: u64)"
  using uint_hex_round_trip [where 'a = 64 and n = 8 and w = 300] by (simp, code_simp)

text \<open>A string with more digits than the integer has is not refused: from one byte too many up to
  \<open>2 ^ 63\<close> bytes, \<open>$len - decoded.len()\<close> wraps to a position above every index, the copying loop does
  nothing, and \<open>from_hex\<close> returns zero instead of \<open>InvalidLength\<close>.\<close>

theorem uint_hex_overlong:
  assumes "hex_decode v = Inr d" "LENGTH('a) div 8 < length d" "length d \<le> 2 ^ 63" "LENGTH('a) \<le> 256"
  shows "uint_from_hex v = Inr (0 :: 'a::len word)"
proof -
  let ?n = "LENGTH('a) div 8"
  have n: "?n \<le> 32"
    using assms(4) by simp
  have small: "unat (of_nat ?n :: u64) = ?n" "unat (of_nat (length d) :: u64) = length d"
    using n assms(3) by (simp_all add: unat_of_nat)
  then have "unat (of_nat ?n - of_nat (length d) :: u64) = ?n + 2 ^ 64 - length d"
    using assms(2) unat_sub_if' [of "of_nat ?n :: u64" "of_nat (length d)"] by simp
  then have "?n - unat (of_nat ?n - of_nat (length d) :: u64) = 0"
    using assms(3) by simp
  moreover have "(from_be_bytes (replicate ?n 0) :: 'a word) = 0"
  proof -
    have "be_dec (replicate k 0) = 0" for k
      by (induction k) (simp_all add: be_dec_def)
    then show ?thesis
      by (simp add: from_be_bytes_def)
  qed
  ultimately show ?thesis
    using assms(1) by (simp add: uint_from_hex_def Let_def)
qed

theorem uint_hex_overlong_witness: "uint_from_hex (ascii ''0x01ff'') = Inr (0 :: u8)"
proof -
  have "hex_decode (ascii ''0x01ff'') = Inr [1, 255]"
    by code_simp
  from uint_hex_overlong [OF this, where 'a = 8] show ?thesis
    by simp
qed

end
