(* ===== verification/Tree_Db.thy ===== *)
theory Tree_Db
  imports Smt_Props Hex
begin

text \<open>
  The versioned store of the account state: \<open>MemoryStore\<close> of \<open>state/src/persistent.rs\<close>,
  \<open>TrieCacheDatabase\<close> of \<open>state/src/store.rs\<close> and \<open>TreeDB\<close> of \<open>state/src/tree.rs\<close>.

  A \<open>TreeDB\<close> keeps a committed tree (head), a partial copy with the pending writes (staging), and in the
  database every tree that was committed, under its root.  A partial copy holds all nodes but only the
  values written since, so a read follows the parents of the persisted trees.  That loop need not end: a
  read that does not return is the error \<open>StateHangs\<close>.  Lock poisoning is left out: no lock is held across a
  panic.
\<close>

section \<open>The database\<close>

datatype state_error =
    InvalidKey bytes
  | AccountNotFound
  | InsufficientFunds
  | SmtError smt_error
  | CodecError codec_error
  | DecodeError
  | Bail string
  | StatePanicked
  | StateHangs

definition hex_string :: "bytes \<Rightarrow> bytes" where
  "hex_string key = (case hex_encode key False of Inr s \<Rightarrow> s | Inl _ \<Rightarrow> [])"

text \<open>Columns come into being when they are first used: \<open>entry(column_name).or_default()\<close>.\<close>

type_synonym memory_store = "string \<Rightarrow> bytes \<Rightarrow> bytes option"

definition mem_new :: memory_store where
  "mem_new = (\<lambda>_ _. None)"

definition mem_put_cn :: "string \<Rightarrow> bytes \<Rightarrow> bytes \<Rightarrow> (memory_store, state_error, unit) action" where
  "mem_put_cn column key val = modify (\<lambda>s. s(column := (s column)(key \<mapsto> val)))"

definition mem_get_cn :: "memory_store \<Rightarrow> string \<Rightarrow> bytes \<Rightarrow> state_error + bytes" where
  "mem_get_cn s column key = ok_or (s column key) (InvalidKey (hex_string key))"

definition mem_delete_cn :: "string \<Rightarrow> bytes \<Rightarrow> (memory_store, state_error, unit) action" where
  "mem_delete_cn column key =
     bind (gets (\<lambda>s. s column key)) (\<lambda>v.
       if v = None then fail (InvalidKey (hex_string key))
       else modify (\<lambda>s. s(column := (s column)(key := None))))"

definition mem_get_or_default_cn :: "memory_store \<Rightarrow> string \<Rightarrow> bytes \<Rightarrow> bytes \<Rightarrow> state_error + bytes" where
  "mem_get_or_default_cn s column key dflt = Inr (case s column key of None \<Rightarrow> dflt | Some v \<Rightarrow> v)"

definition mem_put :: "bytes \<Rightarrow> bytes \<Rightarrow> (memory_store, state_error, unit) action" where
  "mem_put key val = mem_put_cn ''_'' key val"

definition mem_get :: "memory_store \<Rightarrow> bytes \<Rightarrow> state_error + bytes" where
  "mem_get s key = mem_get_cn s ''_'' key"

definition mem_delete :: "bytes \<Rightarrow> (memory_store, state_error, unit) action" where
  "mem_delete key = mem_delete_cn ''_'' key"

definition mem_get_or_default :: "memory_store \<Rightarrow> bytes \<Rightarrow> bytes \<Rightarrow> state_error + bytes" where
  "mem_get_or_default s key dflt = mem_get_or_default_cn s ''_'' key dflt"

section \<open>Codecs\<close>

datatype ivalue = Deleted | IValue bytes

text \<open>The digest, the codecs of key and value, and the \<open>bincode\<close> codecs of \<open>IValue\<close> and of a tree.\<close>

record ('k, 'v) tree_env =
  te_digest :: "bytes \<Rightarrow> h256"
  te_key :: "'k \<Rightarrow> bytes"
  te_enc :: "'v \<Rightarrow> bytes"
  te_dec :: "bytes \<Rightarrow> state_error + 'v"
  te_ivalue_enc :: "ivalue \<Rightarrow> bytes"
  te_ivalue_dec :: "bytes \<Rightarrow> state_error + ivalue"
  te_smt_enc :: "smt_image \<Rightarrow> bytes"
  te_smt_dec :: "bytes \<Rightarrow> smt_error + smt_image"

definition tree_laws :: "('k, 'v) tree_env \<Rightarrow> bool" where
  "tree_laws env \<longleftrightarrow> digest32 (te_digest env)
     \<and> (\<forall>v. te_dec env (te_enc env v) = Inr v)
     \<and> (\<forall>i. te_ivalue_dec env (te_ivalue_enc env i) = Inr i \<and> te_ivalue_enc env i \<noteq> [])
     \<and> (\<forall>i. te_smt_dec env (te_smt_enc env i) = Inr i)"

section \<open>Persisted trees\<close>

definition COLUMN_TREES :: string where
  "COLUMN_TREES = ''t''"

definition COLUMN_ROOT :: string where
  "COLUMN_ROOT = ''r''"

definition tc_put :: "('k, 'v) tree_env \<Rightarrow> h256 \<Rightarrow> smt \<Rightarrow> (memory_store, state_error, unit) action" where
  "tc_put env key tree =
     bind (lift_res (map_err CodecError (array_encode key))) (\<lambda>k.
     bind (lift_res (map_err SmtError (smt_encode (te_smt_enc env) tree))) (\<lambda>v.
       mem_put_cn COLUMN_TREES k v))"

definition tc_set_root :: "h256 \<Rightarrow> (memory_store, state_error, unit) action" where
  "tc_set_root new_root =
     bind (lift_res (map_err CodecError (array_encode new_root))) (mem_put_cn COLUMN_ROOT (ascii ''root''))"

definition tc_get :: "('k, 'v) tree_env \<Rightarrow> memory_store \<Rightarrow> h256 \<Rightarrow> state_error + smt" where
  "tc_get env s key =
     rbind (map_err CodecError (array_encode key)) (\<lambda>k.
     rbind (mem_get_cn s COLUMN_TREES k) (\<lambda>raw.
       map_err SmtError (smt_decode (te_smt_dec env) raw)))"

definition tc_load_root :: "('k, 'v) tree_env \<Rightarrow> memory_store \<Rightarrow> state_error + smt" where
  "tc_load_root env s =
     rbind (mem_get_cn s COLUMN_ROOT (ascii ''root'')) (\<lambda>raw.
     rbind (map_err CodecError (array_decode 32 raw)) (tc_get env s))"

definition tc_delete :: "h256 \<Rightarrow> (memory_store, state_error, unit) action" where
  "tc_delete key = bind (lift_res (map_err CodecError (array_encode key))) (mem_delete_cn COLUMN_TREES)"

section \<open>The tree database\<close>

record treedb =
  tdb_db :: memory_store
  tdb_head :: smt
  tdb_staging :: smt
  tdb_strategy :: copy_strategy

datatype ('k, 'v) tree_op = OpDelete 'k | OpPut 'k 'v

definition sub_of :: "('k, 'v) tree_env \<Rightarrow> copy_strategy \<Rightarrow> smt \<Rightarrow> state_error + smt" where
  "sub_of env strategy tree = map_err SmtError (subtree (te_digest env) tree strategy [])"

definition tdb_open_with_options :: "('k, 'v) tree_env \<Rightarrow> memory_store \<Rightarrow> copy_strategy \<Rightarrow> state_error + treedb" where
  "tdb_open_with_options env db strategy =
     (let tree = (case tc_load_root env db of Inr tree \<Rightarrow> tree | Inl _ \<Rightarrow> smt_new) in
      rbind (sub_of env strategy tree) (\<lambda>staging.
        Inr \<lparr>tdb_db = db, tdb_head = tree, tdb_staging = staging, tdb_strategy = strategy\<rparr>))"

definition tdb_open :: "('k, 'v) tree_env \<Rightarrow> memory_store \<Rightarrow> state_error + treedb" where
  "tdb_open env db = tdb_open_with_options env db Partial"

definition tdb_in_memory :: "('k, 'v) tree_env \<Rightarrow> copy_strategy \<Rightarrow> state_error + treedb" where
  "tdb_in_memory env strategy = tdb_open_with_options env mem_new strategy"

definition tdb_open_read_only_at_root :: "('k, 'v) tree_env \<Rightarrow> memory_store \<Rightarrow> h256 \<Rightarrow> state_error + treedb" where
  "tdb_open_read_only_at_root env db root =
     rbind (tc_get env db root) (\<lambda>tree.
       Inr \<lparr>tdb_db = db, tdb_head = tree, tdb_staging = tree, tdb_strategy = Partial\<rparr>)"

definition on_db :: "(memory_store, state_error, 'a) action \<Rightarrow> (treedb, state_error, 'a) action" where
  "on_db m s = (let (r, d) = m (tdb_db s) in (r, s\<lparr>tdb_db := d\<rparr>))"

definition on_head :: "(smt, smt_error, 'a) action \<Rightarrow> (treedb, state_error, 'a) action" where
  "on_head m s = (let (r, h) = m (tdb_head s) in (map_err SmtError r, s\<lparr>tdb_head := h\<rparr>))"

definition on_staging :: "(smt, smt_error, 'a) action \<Rightarrow> (treedb, state_error, 'a) action" where
  "on_staging m s = (let (r, h) = m (tdb_staging s) in (map_err SmtError r, s\<lparr>tdb_staging := h\<rparr>))"

text \<open>\<open>*staging = head.subtree(self.options.strategy, vec![])?\<close>.\<close>

definition restage :: "('k, 'v) tree_env \<Rightarrow> (treedb, state_error, unit) action" where
  "restage env =
     bind (gets (\<lambda>s. sub_of env (tdb_strategy s) (tdb_head s))) (\<lambda>r.
     bind (lift_res r) (\<lambda>staging. modify (\<lambda>s. s\<lparr>tdb_staging := staging\<rparr>)))"

definition tdb_reset :: "('k, 'v) tree_env \<Rightarrow> h256 \<Rightarrow> (treedb, state_error, unit) action" where
  "tdb_reset env root =
     bind (gets (\<lambda>s. tc_get env (tdb_db s) root)) (\<lambda>r.
     bind (lift_res r) (\<lambda>new_head.
     bind (modify (\<lambda>s. s\<lparr>tdb_head := new_head\<rparr>)) (\<lambda>_. restage env)))"

definition tdb_rollback :: "('k, 'v) tree_env \<Rightarrow> (treedb, state_error, unit) action" where
  "tdb_rollback env = restage env"

definition tdb_root :: "treedb \<Rightarrow> h256" where
  "tdb_root s = smt_root (tdb_head s)"

text \<open>A failed write of the tree is only logged.\<close>

definition tdb_commit :: "('k, 'v) tree_env \<Rightarrow> bool \<Rightarrow> (treedb, state_error, h256) action" where
  "tdb_commit env persist =
     bind (gets id) (\<lambda>s0.
       if smt_root (tdb_head s0) = smt_root (tdb_staging s0) then ret (smt_root (tdb_head s0))
       else
         bind (if persist then ignore (on_db (tc_put env (smt_root (tdb_staging s0)) (tdb_staging s0))) else ret ()) (\<lambda>_.
         bind (modify (\<lambda>s. s\<lparr>tdb_head := tdb_staging s\<rparr>)) (\<lambda>_.
         bind (restage env) (\<lambda>_. gets tdb_root))))"

text \<open>The batch becomes a \<open>HashMap\<close>: the last operation on a key counts.  Its iteration order is not
  specified; here it is the order of the encoded keys.\<close>

definition op_entry :: "('k, 'v) tree_env \<Rightarrow> ('k, 'v) tree_op \<Rightarrow> bytes \<times> bytes" where
  "op_entry env opn = (case opn of
       OpDelete k \<Rightarrow> (te_key env k, te_ivalue_enc env Deleted)
     | OpPut k v \<Rightarrow> (te_key env k, te_ivalue_enc env (IValue (te_enc env v))))"

definition batch_entries :: "('k, 'v) tree_env \<Rightarrow> ('k, 'v) tree_op list \<Rightarrow> (bytes \<times> bytes) list" where
  "batch_entries env batch = btm_from_list (map (op_entry env) batch)"

definition tdb_apply :: "('k, 'v) tree_env \<Rightarrow> ('k, 'v) tree_op list \<Rightarrow> bool \<Rightarrow> (treedb, state_error, h256) action" where
  "tdb_apply env batch persist =
     bind (tdb_commit env persist) (\<lambda>_.
     bind (for_each (\<lambda>(k, v). bind (on_head (smt_update (te_digest env) k v)) (\<lambda>_. ret ())) (batch_entries env batch)) (\<lambda>_.
     bind (gets tdb_head) (\<lambda>head.
     bind (on_db (tc_put env (smt_root head) head)) (\<lambda>_.
     bind (restage env) (\<lambda>_. ret (smt_root head))))))"

definition tdb_apply_non_commit :: "('k, 'v) tree_env \<Rightarrow> h256 \<Rightarrow> ('k, 'v) tree_op list \<Rightarrow> (treedb, state_error, h256) action" where
  "tdb_apply_non_commit env at_root batch =
     bind (gets (\<lambda>s. tc_get env (tdb_db s) at_root)) (\<lambda>r.
     bind (lift_res r) (\<lambda>tree.
       (let (r, tree') = for_each (\<lambda>(k, v). bind (smt_update (te_digest env) k v) (\<lambda>_. ret ())) (batch_entries env batch) tree in
        bind (lift_res (map_err SmtError r)) (\<lambda>_.
        bind (on_db (tc_put env (smt_root tree') tree')) (\<lambda>_. ret (smt_root tree'))))))"

definition tdb_put :: "('k, 'v) tree_env \<Rightarrow> 'k \<Rightarrow> 'v \<Rightarrow> (treedb, state_error, unit) action" where
  "tdb_put env key val =
     bind (on_staging (smt_update (te_digest env) (te_key env key) (te_ivalue_enc env (IValue (te_enc env val))))) (\<lambda>_. ret ())"

definition tdb_delete :: "('k, 'v) tree_env \<Rightarrow> 'k \<Rightarrow> (treedb, state_error, unit) action" where
  "tdb_delete env key =
     bind (on_staging (smt_update (te_digest env) (te_key env key) (te_ivalue_enc env Deleted))) (\<lambda>_. ret ())"

section \<open>Reads\<close>

text \<open>The loop of \<open>_get_descend\<close>.\<close>

partial_function (option) descend_loop ::
  "('k, 'v) tree_env \<Rightarrow> memory_store \<Rightarrow> bytes \<Rightarrow> h256 \<Rightarrow> (state_error + bytes option) option" where
  "descend_loop env db key root =
     (case tc_get env db root of
        Inl e \<Rightarrow> Some (Inl e)
      | Inr tree \<Rightarrow>
          (case smt_get (te_digest env) tree key of
             Inl e \<Rightarrow> Some (Inl (SmtError e))
           | Inr val \<Rightarrow>
               if val = [] \<and> smt_root tree \<noteq> smt_parent tree then descend_loop env db key (smt_parent tree)
               else if val = [] \<and> smt_root tree = smt_parent tree then Some (Inr None)
               else Some (Inr (Some val))))"

definition returns :: "(state_error + 'a) option \<Rightarrow> state_error + 'a" where
  "returns r = (case r of None \<Rightarrow> Inl StateHangs | Some x \<Rightarrow> x)"

definition descends :: "copy_strategy \<Rightarrow> bool" where
  "descends strategy = (case strategy of Partial \<Rightarrow> True | Full \<Rightarrow> False | NoCopy \<Rightarrow> False)"

text \<open>The end of both read functions.\<close>

definition read_ivalue :: "('k, 'v) tree_env \<Rightarrow> bytes \<Rightarrow> state_error + 'v option" where
  "read_ivalue env val =
     (if val = [] then Inr None
      else rbind (te_ivalue_dec env val) (\<lambda>decoded. case decoded of
          Deleted \<Rightarrow> Inr None
        | IValue v \<Rightarrow> rbind (te_dec env v) (\<lambda>x. Inr (Some x))))"

definition tdb_get_descend :: "('k, 'v) tree_env \<Rightarrow> treedb \<Rightarrow> 'k \<Rightarrow> bool \<Rightarrow> state_error + 'v option" where
  "tdb_get_descend env s key descend =
     (let k = te_key env key in
      rbind (map_err SmtError (smt_get (te_digest env) (tdb_staging s) k)) (\<lambda>val.
        if val = [] \<and> descend then
          rbind (returns (descend_loop env (tdb_db s) k (smt_root (tdb_head s)))) (\<lambda>res.
            case res of None \<Rightarrow> Inr None | Some encoded \<Rightarrow> read_ivalue env encoded)
        else if val = [] \<and> \<not> descend then
          rbind (map_err SmtError (smt_get (te_digest env) (tdb_head s) k)) (read_ivalue env)
        else read_ivalue env val))"

definition tdb_get :: "('k, 'v) tree_env \<Rightarrow> treedb \<Rightarrow> 'k \<Rightarrow> state_error + 'v option" where
  "tdb_get env s key = tdb_get_descend env s key (descends (tdb_strategy s))"

definition tdb_get_descend_from_root :: "('k, 'v) tree_env \<Rightarrow> treedb \<Rightarrow> h256 \<Rightarrow> 'k \<Rightarrow> bool \<Rightarrow> state_error + 'v option" where
  "tdb_get_descend_from_root env s from_root key descend =
     (let k = te_key env key in
      rbind (tc_get env (tdb_db s) from_root) (\<lambda>head.
      rbind (map_err SmtError (smt_get (te_digest env) head k)) (\<lambda>val.
        if val = [] \<and> descend then
          rbind (returns (descend_loop env (tdb_db s) k (smt_root head))) (\<lambda>res.
            case res of None \<Rightarrow> Inr None | Some encoded \<Rightarrow> read_ivalue env encoded)
        else if val = [] \<and> \<not> descend then
          rbind (map_err SmtError (smt_get (te_digest env) head k)) (read_ivalue env)
        else read_ivalue env val)))"

definition tdb_get_at_root :: "('k, 'v) tree_env \<Rightarrow> treedb \<Rightarrow> h256 \<Rightarrow> 'k \<Rightarrow> state_error + 'v option" where
  "tdb_get_at_root env s from_root key = tdb_get_descend_from_root env s from_root key (descends (tdb_strategy s))"

definition tdb_get_with_proof :: "('k, 'v) tree_env \<Rightarrow> treedb \<Rightarrow> 'k \<Rightarrow> state_error + 'v \<times> smt_proof" where
  "tdb_get_with_proof env s key =
     (let raw_key = te_key env key in
      rbind (tdb_get env s key) (\<lambda>found.
      rbind (ok_or found (InvalidKey (hex_string raw_key))) (\<lambda>val.
      rbind (map_err SmtError (smt_proof_for (te_digest env) (tdb_head s) raw_key)) (\<lambda>prf.
        Inr (val, prf)))))"

text \<open>\<open>Verifier::verify_proof\<close>.\<close>

definition verifier_verify_proof :: "('k, 'v) tree_env \<Rightarrow> smt_proof \<Rightarrow> h256 \<Rightarrow> 'k \<Rightarrow> 'v \<Rightarrow> state_error + unit" where
  "verifier_verify_proof env prf root key val =
     rbind (map_err SmtError (verify_proof_with_updates (te_digest env) prf root (te_key env key)
              (te_ivalue_enc env (IValue (te_enc env val))))) (\<lambda>_. Inr ())"

section \<open>The database interface\<close>

text \<open>What the tree database relies on: a column gives back what was last written.\<close>

locale database_backend =
  fixes put_cn :: "string \<Rightarrow> bytes \<Rightarrow> bytes \<Rightarrow> ('s, state_error, unit) action"
    and get_cn :: "'s \<Rightarrow> string \<Rightarrow> bytes \<Rightarrow> state_error + bytes"
  assumes put_ok: "\<exists>s'. put_cn c k v s = (Inr (), s')"
    and get_put: "put_cn c k v s = (Inr (), s') \<Longrightarrow> get_cn s' c' k' = (if c' = c \<and> k' = k then Inr v else get_cn s c' k')"
begin

lemma put_get:
  "\<exists>s'. put_cn c k v s = (Inr (), s') \<and> get_cn s' c k = Inr v
     \<and> (\<forall>c' k'. (c', k') \<noteq> (c, k) \<longrightarrow> get_cn s' c' k' = get_cn s c' k')"
  using put_ok [of c k v s] get_put [of c k v s] by fastforce

end

interpretation mem: database_backend mem_put_cn mem_get_cn
  by unfold_locales (auto simp: mem_put_cn_def mem_get_cn_def)

lemma on_simps [simp]:
  "m (tdb_db s) = (r, d) \<Longrightarrow> on_db m s = (r, s\<lparr>tdb_db := d\<rparr>)"
  "m' (tdb_head s) = (r', h) \<Longrightarrow> on_head m' s = (map_err SmtError r', s\<lparr>tdb_head := h\<rparr>)"
  "m' (tdb_staging s) = (r', h) \<Longrightarrow> on_staging m' s = (map_err SmtError r', s\<lparr>tdb_staging := h\<rparr>)"
  by (simp_all add: on_db_def on_head_def on_staging_def)

text \<open>A tree that was put is found again, and nothing else changes.\<close>

lemma tc_put_get:
  assumes "tree_laws env" "btm_wf (smt_nodes tree)" "btm_wf (smt_values tree)"
  obtains db' where "tc_put env r tree db = (Inr (), db')" "tc_get env db' r = Inr tree"
    "\<And>r'. r' \<noteq> r \<Longrightarrow> tc_get env db' r' = tc_get env db r'"
proof -
  let ?v = "te_smt_enc env (smt_nodes tree, smt_values tree, smt_root tree, smt_parent tree)"
  obtain db' where db': "mem_put_cn COLUMN_TREES r ?v db = (Inr (), db')" "mem_get_cn db' COLUMN_TREES r = Inr ?v"
    "\<forall>c k. (c, k) \<noteq> (COLUMN_TREES, r) \<longrightarrow> mem_get_cn db' c k = mem_get_cn db c k"
    using mem.put_get [of COLUMN_TREES r ?v db] by blast
  have "smt_decode (te_smt_dec env) ?v = Inr tree"
    using ms.restore_snapshot [OF assms(2)] ms.restore_snapshot [OF assms(3)] assms(1)
    by (simp add: smt_decode_def tree_laws_def ms_snapshot_def)
  with db' show ?thesis
    by (intro that [of db']) (simp_all add: tc_put_def tc_get_def array_encode_def smt_encode_def ms_snapshot_def)
qed

section \<open>Following the parents\<close>

text \<open>The roots that a read from \<open>r\<close> may visit.\<close>

inductive visits :: "('k, 'v) tree_env \<Rightarrow> memory_store \<Rightarrow> h256 \<Rightarrow> h256 \<Rightarrow> bool" for env db r where
  visits_start: "visits env db r r"
| visits_parent: "visits env db r r' \<Longrightarrow> tc_get env db r' = Inr tree \<Longrightarrow> smt_root tree \<noteq> smt_parent tree
     \<Longrightarrow> visits env db r (smt_parent tree)"

lemma visits_trans: "visits env db r' q \<Longrightarrow> visits env db r r' \<Longrightarrow> visits env db r q"
  by (induction rule: visits.induct) (auto intro: visits_parent)

lemma visits_closed:
  assumes "visits env db r q" "r \<in> S"
    and "\<And>x tree. x \<in> S \<Longrightarrow> tc_get env db x = Inr tree \<Longrightarrow> smt_root tree \<noteq> smt_parent tree \<Longrightarrow> smt_parent tree \<in> S"
  shows "q \<in> S"
  using assms(1,2) by (induction rule: visits.induct) (auto intro: assms(3))

text \<open>A read that returns is not changed by a write under a root that it does not visit.\<close>

lemma descend_step:
  assumes "tc_get env db r = Inr tree" "smt_get (te_digest env) tree key = Inr val"
  shows "descend_loop env db key r =
     (if val \<noteq> [] then Some (Inr (Some val))
      else if smt_root tree = smt_parent tree then Some (Inr None)
      else descend_loop env db key (smt_parent tree))"
  using assms by (subst descend_loop.simps) simp

lemma descend_frame_all:
  assumes "descend_loop env db key r = Some y"
  shows "\<forall>db'. (\<forall>q. visits env db r q \<longrightarrow> tc_get env db' q = tc_get env db q) \<longrightarrow> descend_loop env db' key r = Some y"
proof (rule descend_loop.raw_induct [OF _ assms], intro allI impI, goal_cases)
  case (1 loop env db key r y db')
  have r: "tc_get env db' r = tc_get env db r"
    using 1(3) visits_start by blast
  show ?case
  proof (cases "tc_get env db r")
    case (Inl e)
    then show ?thesis
      using 1(2) r by (subst descend_loop.simps) simp
  next
    case (Inr tree)
    show ?thesis
    proof (cases "smt_get (te_digest env) tree key")
      case (Inl e)
      then show ?thesis
        using 1(2) r Inr by (subst descend_loop.simps) simp
    next
      case val: (Inr val)
      note step = descend_step [OF r [unfolded Inr] val]
      show ?thesis
      proof (cases "val = [] \<and> smt_root tree \<noteq> smt_parent tree")
        case True
        then have "loop env db key (smt_parent tree) = Some y"
          using 1(2) Inr val by simp
        moreover have "visits env db (smt_parent tree) q \<Longrightarrow> visits env db r q" for q
          using visits_trans visits_parent [OF visits_start Inr] True by blast
        ultimately have "descend_loop env db' key (smt_parent tree) = Some y"
          using 1(1) 1(3) by blast
        then show ?thesis
          using step True by simp
      next
        case False
        then show ?thesis
          using step 1(2) Inr val by (auto split: if_splits)
      qed
    qed
  qed
qed

lemma descend_frame:
  assumes "descend_loop env db key r = Some y" "\<And>q. visits env db r q \<Longrightarrow> tc_get env db' q = tc_get env db q"
  shows "descend_loop env db' key r = Some y"
  using descend_frame_all [OF assms(1)] assms(2) by blast

section \<open>The contents of a tree database\<close>

text \<open>\<open>M\<close> gives the encoded value at each path.  A value is in staging, or reading from the head finds it.\<close>

definition found_below :: "('k, 'v) tree_env \<Rightarrow> memory_store \<Rightarrow> h256 \<Rightarrow> bytes \<Rightarrow> bytes option \<Rightarrow> bool" where
  "found_below env db root key m \<longleftrightarrow>
     (\<exists>y. descend_loop env db key root = Some y
        \<and> (case m of Some v \<Rightarrow> y = Inr (Some v) | None \<Rightarrow> y = Inr None \<or> (\<exists>k. y = Inl (InvalidKey k))))"

definition held :: "('k, 'v) tree_env \<Rightarrow> treedb \<Rightarrow> bytes \<Rightarrow> bytes option \<Rightarrow> bool" where
  "held env s key m \<longleftrightarrow> (case btm_get (smt_values (tdb_staging s)) (te_digest env key) of
       Some v \<Rightarrow> m = Some v
     | None \<Rightarrow> found_below env (tdb_db s) (smt_root (tdb_head s)) key m)"

lemma held_staged: "btm_get (smt_values (tdb_staging s)) (te_digest env key) = Some v \<Longrightarrow> held env s key m \<longleftrightarrow> m = Some v"
  and held_below: "btm_get (smt_values (tdb_staging s)) (te_digest env key) = None
    \<Longrightarrow> held env s key m \<longleftrightarrow> found_below env (tdb_db s) (smt_root (tdb_head s)) key m"
  by (simp_all add: held_def)

definition tdb_rep :: "('k, 'v) tree_env \<Rightarrow> mtree \<Rightarrow> (h256 \<rightharpoonup> bytes) \<Rightarrow> treedb \<Rightarrow> bool" where
  "tdb_rep env t M s \<longleftrightarrow> node_rep (te_digest env) t (tdb_staging s)
     \<and> smt_parent (tdb_staging s) = smt_root (tdb_head s) \<and> tdb_strategy s = Partial
     \<and> leaves t = {(p, te_digest env v) | p v. M p = Some v} \<and> (\<forall>p. M p \<noteq> Some [])
     \<and> (\<forall>key. held env s key (M (te_digest env key)))"

lemma tdb_repD:
  assumes "tdb_rep env t M s"
  shows "node_rep (te_digest env) t (tdb_staging s)" "smt_parent (tdb_staging s) = smt_root (tdb_head s)" "tdb_strategy s = Partial"
    "leaves t = {(p, te_digest env v) | p v. M p = Some v}" "\<forall>p. M p \<noteq> Some []" "held env s key (M (te_digest env key))"
  using assms unfolding tdb_rep_def by simp_all

lemma rep_empty_values:
  assumes "tdb_rep env t M s" "t = MEmpty"
  shows "M = Map.empty"
  using assms by (auto simp: tdb_rep_def intro!: ext)

lemma rep_staging_get:
  assumes "tree_laws env" "tdb_rep env t M s" "cfree (te_digest env) (subs t)"
  shows "smt_get (te_digest env) (tdb_staging s) key =
     Inr (case btm_get (smt_values (tdb_staging s)) (te_digest env key) of None \<Rightarrow> [] | Some v \<Rightarrow> v)"
proof -
  have root: "smt_root (tdb_staging s) = thash (te_digest env) t" and dg: "digest32 (te_digest env)"
    using assms(1,2) by (simp_all add: tdb_rep_def node_rep_def tree_laws_def)
  show ?thesis
  proof (cases "t = MEmpty")
    case True
    have "held env s key None"
      using rep_empty_values [OF assms(2) True] assms(2) by (simp add: tdb_rep_def)
    then have "btm_get (smt_values (tdb_staging s)) (te_digest env key) = None"
      by (auto simp: held_def split: option.splits)
    with True root show ?thesis
      by (simp add: smt_get_def h256_is_zero_iff)
  next
    case False
    then have "thash (te_digest env) t \<noteq> h256_zero"
      using thash_zero [OF assms(3), of t] subs_self [of t] by blast
    then have "\<not> h256_is_zero (smt_root (tdb_staging s))"
      using root dg by (cases t) (auto simp: h256_is_zero_iff)
    then show ?thesis
      by (simp add: smt_get_def ms_get_or_default_def path_def)
  qed
qed

text \<open>Reads.\<close>

definition absent :: "state_error + 'v option \<Rightarrow> bool" where
  "absent r \<longleftrightarrow> r = Inr None \<or> (\<exists>k. r = Inl (InvalidKey k))"

definition answers :: "('k, 'v) tree_env \<Rightarrow> bytes option \<Rightarrow> state_error + 'v option \<Rightarrow> bool" where
  "answers env m r \<longleftrightarrow> (case m of Some v \<Rightarrow> r = read_ivalue env v | None \<Rightarrow> absent r)"

lemma tdb_rep_get:
  assumes "tree_laws env" "tdb_rep env t M s" "cfree (te_digest env) (subs t)"
  shows "answers env (M (te_digest env (te_key env k))) (tdb_get env s k)"
proof -
  let ?key = "te_key env k"
  have held: "held env s ?key (M (te_digest env ?key))" and ne: "M (te_digest env ?key) \<noteq> Some []" and part: "tdb_strategy s = Partial"
    using assms(2) by (auto simp: tdb_rep_def)
  show ?thesis
  proof (cases "btm_get (smt_values (tdb_staging s)) (te_digest env ?key)")
    case (Some v)
    with held have "M (te_digest env ?key) = Some v"
      by (simp add: held_staged)
    then show ?thesis
      using ne Some rep_staging_get [OF assms, of ?key] by (simp add: tdb_get_def tdb_get_descend_def answers_def)
  next
    case None
    with held have "found_below env (tdb_db s) (smt_root (tdb_head s)) ?key (M (te_digest env ?key))"
      by (simp add: held_below)
    then show ?thesis
      using None rep_staging_get [OF assms, of ?key] part
      by (auto simp: tdb_get_def tdb_get_descend_def descends_def answers_def absent_def found_below_def returns_def
          split: option.splits)
  qed
qed

text \<open>Writes: \<open>put\<close> and \<open>delete\<close> both store an encoded \<open>IValue\<close>, so nothing is ever taken out of a tree.\<close>

definition write_ok :: "('k, 'v) tree_env \<Rightarrow> mtree \<Rightarrow> (h256 \<rightharpoonup> bytes) \<Rightarrow> bytes \<Rightarrow> bytes \<Rightarrow> bool" where
  "write_ok env t M key iv \<longleftrightarrow>
     cfree (te_digest env) (subs t \<union> subs (tinsert (te_digest env key) (te_digest env iv) t))
     \<and> (\<forall>w. M (te_digest env key) = Some w \<longrightarrow> te_digest env w = te_digest env iv \<longrightarrow> w = iv)"

lemma leaves_update:
  "{e \<in> {(p, d v) | p v. M p = Some v}. fst e \<noteq> q} \<union> {(q, d iv)} = {(p, d v) | p v. (M(q \<mapsto> iv)) p = Some v}"
  by (auto split: if_splits)

lemma rep_update:
  assumes "tree_laws env" "tdb_rep env t M s" "write_ok env t M key iv" "iv \<noteq> []"
    and t': "t' = tinsert (te_digest env key) (te_digest env iv) t"
  obtains st where "smt_update (te_digest env) key iv (tdb_staging s) = (Inr (thash (te_digest env) t'), st)"
    "tdb_rep env t' (M(te_digest env key \<mapsto> iv)) (s\<lparr>tdb_staging := st\<rparr>)"
proof -
  let ?dg = "te_digest env" and ?M = "M(te_digest env key \<mapsto> iv)"
  note rep = tdb_repD [OF assms(2)]
  have dg: "digest32 ?dg"
    using assms(1) by (simp add: tree_laws_def)
  have cf: "cfree ?dg (subs t \<union> subs t')" and same: "M (?dg key) = Some w \<Longrightarrow> ?dg w = ?dg iv \<Longrightarrow> w = iv" for w
    using assms(3) by (auto simp: write_ok_def t')
  obtain st where st: "smt_update ?dg key iv (tdb_staging s) = (Inr (thash ?dg t'), st)" "node_rep ?dg t' st"
    "smt_parent st = smt_parent (tdb_staging s)"
    and vals: "smt_values st = btm_insert (?dg key) iv (smt_values (tdb_staging s))
       \<or> (?dg key, ?dg iv) \<in> leaves t \<and> smt_values st = smt_values (tdb_staging s)"
    using smt_update_partial [OF dg assms(4) rep(1) t' cf] by blast
  have "twf 0 t"
    using rep(1) by (simp add: node_rep_def)
  have leaves: "leaves t' = {(p, ?dg v) | p v. ?M p = Some v}"
    unfolding t' leaves_tinsert [OF \<open>twf 0 t\<close>] rep(4) by (rule leaves_update)
  have "held env (s\<lparr>tdb_staging := st\<rparr>) k (?M (?dg k))" for k
    using vals
  proof
    assume "smt_values st = btm_insert (?dg key) iv (smt_values (tdb_staging s))"
    then show ?thesis
      using rep(6) [of k] by (cases "?dg k = ?dg key") (simp_all add: held_def split: option.splits)
  next
    assume same_vals: "(?dg key, ?dg iv) \<in> leaves t \<and> smt_values st = smt_values (tdb_staging s)"
    then obtain w where "M (?dg key) = Some w" "?dg iv = ?dg w"
      unfolding rep(4) by blast
    then have eq: "?M = M"
      using same [of w] by (simp add: fun_upd_idem)
    show ?thesis
      unfolding eq using rep(6) [of k] same_vals by (simp add: held_def split: option.splits)
  qed
  then show ?thesis
    using st(2,3) leaves rep(2,3,5) assms(4) by (intro that [OF st(1)]) (simp add: tdb_rep_def)
qed

lemma rep_put:
  assumes "tree_laws env" "tdb_rep env t M s" "iv = te_ivalue_enc env (IValue (te_enc env v))" "write_ok env t M (te_key env k) iv"
  obtains s' where "tdb_put env k v s = (Inr (), s')" "tdb_db s' = tdb_db s" "tdb_head s' = tdb_head s"
    "tdb_rep env (tinsert (te_digest env (te_key env k)) (te_digest env iv) t) (M(te_digest env (te_key env k) \<mapsto> iv)) s'"
proof -
  have "iv \<noteq> []"
    using assms(1,3) by (simp add: tree_laws_def)
  from rep_update [OF assms(1,2,4) this refl] obtain st where
    "smt_update (te_digest env) (te_key env k) iv (tdb_staging s)
      = (Inr (thash (te_digest env) (tinsert (te_digest env (te_key env k)) (te_digest env iv) t)), st)"
    "tdb_rep env (tinsert (te_digest env (te_key env k)) (te_digest env iv) t)
       (M(te_digest env (te_key env k) \<mapsto> iv)) (s\<lparr>tdb_staging := st\<rparr>)"
    by blast
  then show ?thesis
    by (intro that [of "s\<lparr>tdb_staging := st\<rparr>"]) (simp_all add: tdb_put_def assms(3))
qed

lemma read_put:
  "tree_laws env \<Longrightarrow> read_ivalue env (te_ivalue_enc env (IValue (te_enc env v))) = Inr (Some v)"
  "tree_laws env \<Longrightarrow> read_ivalue env (te_ivalue_enc env Deleted) = Inr None"
  by (auto simp: read_ivalue_def tree_laws_def)

text \<open>Committing.\<close>

lemma subtree_partial:
  "sub_of env Partial tree = Inr \<lparr>smt_nodes = smt_nodes tree, smt_values = ms_new, smt_root = smt_root tree, smt_parent = smt_root tree\<rparr>"
  by (simp add: sub_of_def subtree_def new_with_hasher_def Let_def)

definition committed :: "treedb \<Rightarrow> memory_store \<Rightarrow> treedb" where
  "committed s db = s\<lparr>tdb_db := db, tdb_head := tdb_staging s,
     tdb_staging := \<lparr>smt_nodes = smt_nodes (tdb_staging s), smt_values = ms_new,
       smt_root = smt_root (tdb_staging s), smt_parent = smt_root (tdb_staging s)\<rparr>\<rparr>"

lemma commit_eq:
  assumes "tdb_strategy s = Partial" "smt_root (tdb_head s) \<noteq> smt_root (tdb_staging s)"
    and "tc_put env (smt_root (tdb_staging s)) (tdb_staging s) (tdb_db s) = (Inr (), db)"
  shows "tdb_commit env True s = (Inr (smt_root (tdb_staging s)), committed s db)"
  using assms by (simp add: tdb_commit_def restage_def subtree_partial tdb_root_def committed_def)

lemma rep_commit:
  assumes "tree_laws env" "tdb_rep env t M s" "cfree (te_digest env) (subs t)"
    and "\<not> visits env (tdb_db s) (smt_root (tdb_head s)) (smt_root (tdb_staging s))"
  obtains s' where "tdb_commit env True s = (Inr (thash (te_digest env) t), s')"
    "tdb_rep env t M s'" "tdb_root s' = thash (te_digest env) t"
    "tc_get env (tdb_db s') (tdb_root s') = Inr (tdb_head s')" "tdb_head s' = tdb_staging s"
    "\<And>p. btm_get (smt_values (tdb_staging s')) p = None"
    "\<And>r. r \<noteq> tdb_root s' \<Longrightarrow> tc_get env (tdb_db s') r = tc_get env (tdb_db s) r"
proof -
  let ?st = "tdb_staging s" and ?h = "tdb_head s" and ?dg = "te_digest env"
  note rep = tdb_repD [OF assms(2)]
  have wf: "btm_wf (smt_nodes ?st)" "btm_wf (smt_values ?st)" "smt_root ?st = thash ?dg t"
    using rep(1) by (auto simp: node_rep_def)
  have new: "smt_root ?h \<noteq> smt_root ?st"
    using assms(4) visits_start [of env "tdb_db s" "smt_root ?h"] by auto
  obtain db where db: "tc_put env (smt_root ?st) ?st (tdb_db s) = (Inr (), db)" "tc_get env db (smt_root ?st) = Inr ?st"
    "\<And>r. r \<noteq> smt_root ?st \<Longrightarrow> tc_get env db r = tc_get env (tdb_db s) r"
    using tc_put_get [OF assms(1) wf(1,2)] by blast
  let ?s' = "committed s db"
  have frame: "descend_loop env db k (smt_root ?h) = Some y" if "descend_loop env (tdb_db s) k (smt_root ?h) = Some y" for k y
  proof (rule descend_frame [OF that])
    show "tc_get env db q = tc_get env (tdb_db s) q" if "visits env (tdb_db s) (smt_root ?h) q" for q
      using that assms(4) by (intro db(3)) auto
  qed
  have "held env ?s' k (M (?dg k))" for k
  proof (cases "btm_get (smt_values ?st) (?dg k)")
    case (Some v)
    then have M: "M (?dg k) = Some v"
      using rep(6) [of k] by (simp add: held_def)
    then have "v \<noteq> []"
      using rep(5) by metis
    then have "descend_loop env db k (smt_root ?st) = Some (Inr (Some v))"
      using descend_step [OF db(2) rep_staging_get [OF assms(1-3)], of k] Some by simp
    then show ?thesis
      unfolding M by (simp add: held_def found_below_def committed_def ms_new_def)
  next
    case None
    then have "descend_loop env db k (smt_root ?st) = descend_loop env db k (smt_root ?h)"
      using descend_step [OF db(2) rep_staging_get [OF assms(1-3)], of k] new rep(2) by simp
    moreover have "found_below env (tdb_db s) (smt_root ?h) k (M (?dg k))"
      using rep(6) [of k] held_below [OF None] by blast
    ultimately have "found_below env db (smt_root ?st) k (M (?dg k))"
      unfolding found_below_def by (metis frame)
    then show ?thesis
      by (simp add: held_def committed_def ms_new_def)
  qed
  then have "tdb_rep env t M ?s'"
    using rep(1-5) wf by (simp add: tdb_rep_def committed_def node_rep_def ms_new_def)
  then show ?thesis
    using commit_eq [OF rep(3) new db(1)] wf(3) db(2,3)
    by (intro that [of ?s']) (simp_all add: committed_def tdb_root_def ms_new_def)
qed

lemma answers_at_root:
  assumes "tree_laws env" "tdb_rep env t M s" "cfree (te_digest env) (subs t)"
    and "tc_get env (tdb_db s) (tdb_root s) = Inr (tdb_head s)" "smt_get (te_digest env) (tdb_head s) (te_key env k) = Inr v"
    and "btm_get (smt_values (tdb_staging s)) (te_digest env (te_key env k)) = None"
  shows "answers env (M (te_digest env (te_key env k))) (tdb_get_at_root env s (tdb_root s) k)"
proof -
  have "held env s (te_key env k) (M (te_digest env (te_key env k)))" and part: "tdb_strategy s = Partial"
    using assms(2) by (auto simp: tdb_rep_def)
  then obtain y where y: "descend_loop env (tdb_db s) (te_key env k) (smt_root (tdb_head s)) = Some y"
    "case M (te_digest env (te_key env k)) of Some v \<Rightarrow> y = Inr (Some v) | None \<Rightarrow> y = Inr None \<or> (\<exists>k. y = Inl (InvalidKey k))"
    using assms(6) by (auto simp: held_below found_below_def)
  have "descends Partial"
    by (simp add: descends_def)
  moreover have "y = Inr (Some v)" if "v \<noteq> []"
    using y(1) descend_step [OF assms(4) [unfolded tdb_root_def] assms(5)] that by simp
  ultimately show ?thesis
    using y assms(4,5) part unfolding tdb_get_at_root_def tdb_get_descend_from_root_def tdb_root_def answers_def
    by (cases "v = []") (auto simp: absent_def returns_def split: option.splits)
qed

section \<open>An instance\<close>

text \<open>Codecs that satisfy the laws: a list of strings with every byte escaped.\<close>

definition esc_string :: "bytes \<Rightarrow> bytes" where
  "esc_string b = concat (map (\<lambda>x. [0, x]) b) @ [1]"

definition esc_strings :: "bytes list \<Rightarrow> bytes" where
  "esc_strings bs = concat (map esc_string bs) @ [2]"

fun unesc :: "bytes \<Rightarrow> bytes list \<Rightarrow> bytes list list \<Rightarrow> bytes \<Rightarrow> bytes list list" where
  "unesc cur strs out [] = out"
| "unesc cur strs out (c # rest) =
     (if c = 0 then (case rest of [] \<Rightarrow> out | x # r \<Rightarrow> unesc (cur @ [x]) strs out r)
      else if c = 1 then unesc [] (strs @ [cur]) out rest
      else unesc [] [] (out @ [strs]) rest)"

lemma unesc_string: "unesc cur strs out (esc_string b @ r) = unesc [] (strs @ [cur @ b]) out r"
  by (induction b arbitrary: cur) (simp_all add: esc_string_def)

lemma unesc_strings: "unesc [] strs out (esc_strings bs @ r) = unesc [] [] (out @ [strs @ bs]) r"
  by (induction bs arbitrary: strs) (simp_all add: esc_strings_def unesc_string)

fun pairs_of :: "bytes list \<Rightarrow> (bytes \<times> bytes) list" where
  "pairs_of (k # v # r) = (k, v) # pairs_of r"
| "pairs_of _ = []"

definition demo_image_enc :: "smt_image \<Rightarrow> bytes" where
  "demo_image_enc = (\<lambda>(nodes, vals, r, q).
     esc_strings (concat (map (\<lambda>(k, v). [k, v]) nodes)) @ esc_strings (concat (map (\<lambda>(k, v). [k, v]) vals)) @ esc_strings [r, q])"

definition demo_image_dec :: "bytes \<Rightarrow> smt_error + smt_image" where
  "demo_image_dec b = (case unesc [] [] [] b of
       [nodes, vals, [r, q]] \<Rightarrow> Inr (pairs_of nodes, pairs_of vals, r, q)
     | _ \<Rightarrow> Inl StorageError)"

definition demo_env :: "(bytes, bytes) tree_env" where
  "demo_env = \<lparr>te_digest = sum_digest, te_key = id, te_enc = id, te_dec = Inr,
     te_ivalue_enc = (\<lambda>i. case i of Deleted \<Rightarrow> [0] | IValue v \<Rightarrow> 1 # v),
     te_ivalue_dec = (\<lambda>b. case b of [] \<Rightarrow> Inl DecodeError | c # v \<Rightarrow> Inr (if c = 0 then Deleted else IValue v)),
     te_smt_enc = demo_image_enc, te_smt_dec = demo_image_dec\<rparr>"

lemma pairs_of_concat: "pairs_of (concat (map (\<lambda>(k, v). [k, v]) m)) = m"
  by (induction m) auto

lemma demo_image: "demo_image_dec (demo_image_enc i) = Inr i"
  by (cases i) (simp add: demo_image_dec_def demo_image_enc_def unesc_strings pairs_of_concat unesc_strings [where r = "[]", simplified])

lemma demo_laws: "tree_laws demo_env"
  using sum_digest32 demo_image by (auto simp: tree_laws_def demo_env_def split: ivalue.splits)

lemma open_rep:
  assumes "tree_laws env"
  obtains s where "tdb_open env mem_new = Inr s" "tdb_rep env MEmpty Map.empty s" "tdb_db s = mem_new"
    "tdb_head s = smt_new" "smt_root (tdb_staging s) = h256_zero"
proof -
  let ?s = "\<lparr>tdb_db = mem_new, tdb_head = smt_new, tdb_staging = smt_new, tdb_strategy = Partial\<rparr>"
  have none: "tc_get env mem_new r = Inl (InvalidKey (hex_string r))" for r
    by (simp add: tc_get_def mem_get_cn_def mem_new_def array_encode_def)
  have "tdb_open env mem_new = Inr ?s"
    by (simp add: tdb_open_def tdb_open_with_options_def tc_load_root_def mem_get_cn_def mem_new_def Let_def)
       (simp add: subtree_partial smt_new_def)
  moreover have "held env ?s key None" for key
    using none [of h256_zero]
    by (simp add: held_def found_below_def smt_new_values) (simp add: descend_loop.simps [of env mem_new] smt_new_def)
  then have "tdb_rep env MEmpty Map.empty ?s"
    using smt_rep_node [OF smt_new_rep, of "te_digest env"] by (simp add: tdb_rep_def) (simp add: smt_new_def)
  ultimately show ?thesis
    by (intro that [of ?s]) (simp_all add: smt_new_def)
qed

text \<open>Writing the two values in turn under one key.\<close>

abbreviation demo_path :: h256 where
  "demo_path \<equiv> sum_digest [1]"

abbreviation demo_leaf :: "u8 \<Rightarrow> mtree" where
  "demo_leaf x \<equiv> MLeaf demo_path (sum_digest [1, x])"

lemma demo_env_simps [simp]:
  "te_digest demo_env = sum_digest" "te_key demo_env = id" "te_enc demo_env = id"
  "te_ivalue_enc demo_env (IValue v) = 1 # v" "te_ivalue_enc demo_env Deleted = [0]"
  by (simp_all add: demo_env_def)

lemma demo_leaf_tree:
  "tinsert demo_path (sum_digest [1, x]) MEmpty = demo_leaf x"
  "tinsert demo_path (sum_digest [1, x]) (demo_leaf y) = demo_leaf x"
  by (simp_all add: tinsert_def)

lemma demo_leaf_cfree: "cfree sum_digest (subs (demo_leaf 10) \<union> subs (demo_leaf 20))"
  unfolding cfree_def by code_simp

lemma demo_leaf_facts:
  "sum_digest [1, 10] \<noteq> sum_digest [1, 20]" "sum_digest [2] \<noteq> demo_path"
  "thash sum_digest (demo_leaf 10) \<noteq> thash sum_digest (demo_leaf 20)"
  "thash sum_digest (demo_leaf 10) \<noteq> h256_zero" "thash sum_digest (demo_leaf 20) \<noteq> h256_zero"
  by code_simp+

lemma demo_write_ok:
  "write_ok demo_env MEmpty Map.empty [1] [1, 10]"
  "write_ok demo_env (demo_leaf 10) [demo_path \<mapsto> [1, 10]] [1] [1, 20]"
  "write_ok demo_env (demo_leaf 20) [demo_path \<mapsto> [1, 20]] [1] [1, 10]"
  using demo_leaf_cfree demo_leaf_facts(1)
  by (auto simp: write_ok_def demo_leaf_tree Un_commute elim: cfree_mono)

definition demo_write :: "u8 \<Rightarrow> (treedb, state_error, h256) action" where
  "demo_write x = bind (tdb_put demo_env [1] [x]) (\<lambda>_. tdb_commit demo_env True)"

lemma demo_put:
  assumes "tdb_rep demo_env t M s" "write_ok demo_env t M [1] [1, x]" "tinsert demo_path (sum_digest [1, x]) t = demo_leaf x"
    "M = Map.empty \<or> dom M = {demo_path}"
  obtains s' where "tdb_put demo_env [1] [x] s = (Inr (), s')" "tdb_db s' = tdb_db s" "tdb_head s' = tdb_head s"
    "tdb_rep demo_env (demo_leaf x) [demo_path \<mapsto> [1, x]] s'"
proof -
  have "M(demo_path \<mapsto> [1, x]) = [demo_path \<mapsto> [1, x]]"
    using assms(4) by (auto intro!: ext)
  then show ?thesis
    using rep_put [OF demo_laws assms(1), of "[1, x]" "[x]" "[1]"] assms(2,3) that by auto
qed

lemma demo_other:
  assumes "tdb_rep demo_env (demo_leaf x) [demo_path \<mapsto> [1, x]] s" "x = 10 \<or> x = 20"
  shows "smt_get sum_digest (tdb_staging s) [2] = Inr []"
proof -
  have "cfree (te_digest demo_env) (subs (demo_leaf x))"
    using assms(2) demo_leaf_cfree by (auto elim: cfree_mono)
  moreover have "btm_get (smt_values (tdb_staging s)) (sum_digest [2]) = None"
    using tdb_repD(6) [OF assms(1), of "[2]"] demo_leaf_facts(2) by (auto simp: held_def split: option.splits)
  ultimately show ?thesis
    using rep_staging_get [OF demo_laws assms(1), of "[2]"] by simp
qed

lemma demo_put_commit:
  assumes "tdb_rep demo_env t M s" "write_ok demo_env t M [1] [1, x]" "tinsert demo_path (sum_digest [1, x]) t = demo_leaf x"
    "M = Map.empty \<or> dom M = {demo_path}" "x = 10 \<or> x = 20"
    "\<not> visits demo_env (tdb_db s) (tdb_root s) (thash sum_digest (demo_leaf x))"
  obtains s' where "demo_write x s = (Inr (thash sum_digest (demo_leaf x)), s')"
    "tdb_rep demo_env (demo_leaf x) [demo_path \<mapsto> [1, x]] s'" "tdb_root s' = thash sum_digest (demo_leaf x)"
    "tc_get demo_env (tdb_db s') (tdb_root s') = Inr (tdb_head s')" "smt_parent (tdb_head s') = tdb_root s"
    "smt_get sum_digest (tdb_head s') [2] = Inr []"
    "\<And>r. r \<noteq> tdb_root s' \<Longrightarrow> tc_get demo_env (tdb_db s') r = tc_get demo_env (tdb_db s) r"
proof -
  obtain s1 where s1: "tdb_put demo_env [1] [x] s = (Inr (), s1)" "tdb_db s1 = tdb_db s" "tdb_head s1 = tdb_head s"
    "tdb_rep demo_env (demo_leaf x) [demo_path \<mapsto> [1, x]] s1"
    by (rule demo_put [OF assms(1-4)])
  have root: "smt_root (tdb_staging s1) = thash sum_digest (demo_leaf x)" "smt_parent (tdb_staging s1) = tdb_root s"
    using tdb_repD(1,2) [OF s1(4)] s1(3) by (simp_all add: node_rep_def tdb_root_def)
  have "cfree (te_digest demo_env) (subs (demo_leaf x))"
    using assms(5) demo_leaf_cfree by (auto elim: cfree_mono)
  moreover have "\<not> visits demo_env (tdb_db s1) (smt_root (tdb_head s1)) (smt_root (tdb_staging s1))"
    using assms(6) s1(2,3) root(1) by (simp add: tdb_root_def)
  ultimately show ?thesis
  proof (rule rep_commit [OF demo_laws s1(4)], goal_cases)
    case (1 s')
    then show ?case
      using root s1(1,2) demo_other [OF s1(4) assms(5)] by (intro that [of s']) (simp_all add: demo_write_def)
  qed
qed

section \<open>Properties\<close>

text \<open>C32: \<open>TreeDB::put\<close> refines an update of the map from keys to values.  It succeeds, the key reads back as
  the value put, every other key reads as before, whether its value is pending or in one of the persisted
  trees below, and the state after it represents the updated map.  The digest has to be collision free on
  the nodes of the two trees and on the old and the new value of the key.\<close>

theorem put_get_refines:
  assumes "tree_laws env" "tdb_rep env t M s" "iv = te_ivalue_enc env (IValue (te_enc env v))" "write_ok env t M (te_key env k) iv"
  shows "\<exists>s'. tdb_put env k v s = (Inr (), s') \<and> tdb_get env s' k = Inr (Some v)
     \<and> (\<forall>k'. te_digest env (te_key env k') \<noteq> te_digest env (te_key env k)
          \<longrightarrow> answers env (M (te_digest env (te_key env k'))) (tdb_get env s' k'))
     \<and> tdb_rep env (tinsert (te_digest env (te_key env k)) (te_digest env iv) t) (M(te_digest env (te_key env k) \<mapsto> iv)) s'"
proof -
  let ?p = "te_digest env (te_key env k)"
  obtain s' where s': "tdb_put env k v s = (Inr (), s')" "tdb_rep env (tinsert ?p (te_digest env iv) t) (M(?p \<mapsto> iv)) s'"
    using rep_put [OF assms] by blast
  have "cfree (te_digest env) (subs (tinsert ?p (te_digest env iv) t))"
    using assms(4) by (auto simp: write_ok_def elim: cfree_mono)
  note get = tdb_rep_get [OF assms(1) s'(2) this]
  have "tdb_get env s' k = Inr (Some v)"
    using get [of k] read_put(1) [OF assms(1), of v] by (simp add: answers_def assms(3))
  moreover have "answers env (M (te_digest env (te_key env k'))) (tdb_get env s' k')" if "te_digest env (te_key env k') \<noteq> ?p" for k'
    using get [of k'] that by simp
  ultimately show ?thesis
    using s' by blast
qed


text \<open>a read need not return.  When two persisted trees are each other's parent and neither holds the
  key, which is what committing \<open>A\<close>, then \<open>B\<close>, then \<open>A\<close> again leaves behind, the loop of \<open>_get_descend\<close> runs
  forever.\<close>

theorem descend_cycle_hangs:
  assumes "tc_get env db r = Inr a" "smt_get (te_digest env) a key = Inr []" "smt_parent a = q" "smt_root a = r"
    and "tc_get env db q = Inr b" "smt_get (te_digest env) b key = Inr []" "smt_parent b = r" "smt_root b = q" "r \<noteq> q"
  shows "descend_loop env db key r = None"
proof -
  have loop: "env' = env \<longrightarrow> db' = db \<longrightarrow> key' = key \<longrightarrow> x \<notin> {r, q}"
    if "descend_loop env' db' key' x = Some y" for env' db' key' x y
  proof (rule descend_loop.raw_induct [OF _ that], goal_cases)
    case (1 loop env' db' key' x y)
    have "loop env db key q \<noteq> Some y'" "loop env db key r \<noteq> Some y'" for y'
      using 1(1) [of env db key _ y'] by blast+
    then show ?case
      using 1(2) assms by auto
  qed
  show ?thesis
    using loop [of env db key r] by (cases "descend_loop env db key r") auto
qed

theorem put_get_refines_witness:
  "\<exists>s s'. tdb_open demo_env mem_new = Inr s \<and> tdb_put demo_env [1] [10] s = (Inr (), s')
     \<and> tdb_get demo_env s' [1] = Inr (Some [10]) \<and> absent (tdb_get demo_env s' [2])"
proof -
  obtain s where "tdb_open demo_env mem_new = Inr s" "tdb_rep demo_env MEmpty Map.empty s"
    by (rule open_rep [OF demo_laws])
  with put_get_refines [OF demo_laws, where k = "[1]" and v = "[10]" and iv = "[1, 10]"] demo_write_ok(1) demo_leaf_facts(2)
  show ?thesis
    by (fastforce simp: answers_def)
qed

lemma open_visits:
  assumes "tdb_open env mem_new = Inr s" "tdb_db s = mem_new" "tdb_head s = smt_new" "r \<noteq> h256_zero"
  shows "\<not> visits env (tdb_db s) (tdb_root s) r"
proof
  assume "visits env (tdb_db s) (tdb_root s) r"
  then have "r \<in> {h256_zero}"
    by (rule visits_closed) (use assms(2,3) in \<open>simp_all add: tdb_root_def smt_new_def tc_get_def mem_get_cn_def mem_new_def array_encode_def\<close>)
  with assms(4) show False by simp
qed


theorem descend_cycle_hangs_witness:
  "\<exists>s s1 s2 s3. tdb_open demo_env mem_new = Inr s
     \<and> demo_write 10 s = (Inr (thash sum_digest (demo_leaf 10)), s1)
     \<and> demo_write 20 s1 = (Inr (thash sum_digest (demo_leaf 20)), s2)
     \<and> demo_write 10 s2 = (Inr (thash sum_digest (demo_leaf 10)), s3)
     \<and> tdb_get demo_env s3 [2] = Inl StateHangs"
proof -
  let ?a = "thash sum_digest (demo_leaf 10)" and ?b = "thash sum_digest (demo_leaf 20)"
  obtain s where s: "tdb_open demo_env mem_new = Inr s" "tdb_rep demo_env MEmpty Map.empty s" "tdb_db s = mem_new" "tdb_head s = smt_new"
    by (rule open_rep [OF demo_laws])
  obtain s1 where s1: "demo_write 10 s = (Inr ?a, s1)" "tdb_rep demo_env (demo_leaf 10) [demo_path \<mapsto> [1, 10]] s1" "tdb_root s1 = ?a"
    "tc_get demo_env (tdb_db s1) ?a = Inr (tdb_head s1)" "smt_parent (tdb_head s1) = h256_zero"
    "tc_get demo_env (tdb_db s1) h256_zero = Inl (InvalidKey (hex_string h256_zero))"
  proof (rule demo_put_commit [OF s(2) demo_write_ok(1) demo_leaf_tree(1) _ _ open_visits [OF s(1,3,4) demo_leaf_facts(4)]], goal_cases)
    case (3 s')
    moreover have "tc_get demo_env (tdb_db s') h256_zero = tc_get demo_env (tdb_db s) h256_zero"
      using 3(4) 3(8) [of h256_zero] demo_leaf_facts(4) by metis
    ultimately show ?case
      using s(3,4) by (simp add: tdb_root_def smt_new_def tc_get_def mem_get_cn_def mem_new_def array_encode_def)
  qed simp_all
  have "\<not> visits demo_env (tdb_db s1) (tdb_root s1) ?b"
  proof
    assume "visits demo_env (tdb_db s1) (tdb_root s1) ?b"
    then have "?b \<in> {?a, h256_zero}"
      by (rule visits_closed) (use s1(3-6) in auto)
    then show False using demo_leaf_facts(3,5) by auto
  qed
  then obtain s2 where s2: "demo_write 20 s1 = (Inr ?b, s2)" "tdb_rep demo_env (demo_leaf 20) [demo_path \<mapsto> [1, 20]] s2" "tdb_root s2 = ?b"
    "tc_get demo_env (tdb_db s2) ?b = Inr (tdb_head s2)" "smt_parent (tdb_head s2) = ?a" "smt_get sum_digest (tdb_head s2) [2] = Inr []"
    using demo_put_commit [OF s1(2) demo_write_ok(2) demo_leaf_tree(2), of thesis] s1(3) by force
  obtain s2' where put: "tdb_put demo_env [1] [10] s2 = (Inr (), s2')" "tdb_db s2' = tdb_db s2" "tdb_head s2' = tdb_head s2"
    "tdb_rep demo_env (demo_leaf 10) [demo_path \<mapsto> [1, 10]] s2'"
    by (rule demo_put [OF s2(2) demo_write_ok(3) demo_leaf_tree(2)]) simp
  note rep = tdb_repD [OF put(4)]
  have root: "smt_root (tdb_staging s2') = ?a" "btm_wf (smt_nodes (tdb_staging s2'))" "btm_wf (smt_values (tdb_staging s2'))"
    using rep(1) by (simp_all add: node_rep_def)
  obtain db where db: "tc_put demo_env ?a (tdb_staging s2') (tdb_db s2') = (Inr (), db)" "tc_get demo_env db ?a = Inr (tdb_staging s2')"
    "tc_get demo_env db ?b = Inr (tdb_head s2)"
    using tc_put_get [OF demo_laws root(2,3)] demo_leaf_facts(3) s2(4) put(2) by metis
  have "tdb_commit demo_env True s2' = (Inr ?a, committed s2' db)"
    using commit_eq [OF rep(3), of demo_env db] db(1) root(1) put(3) s2(3) demo_leaf_facts(3) by (simp add: tdb_root_def)
  moreover have "descend_loop demo_env db [2] ?a = None"
    by (rule descend_cycle_hangs [OF db(2) _ _ root(1) db(3), of "[2]"])
       (use s2(3,5,6) put(3) rep(2) demo_other [OF put(4)] demo_leaf_facts(3) in \<open>simp_all add: tdb_root_def\<close>)
  ultimately have "demo_write 10 s2 = (Inr ?a, committed s2' db)" "tdb_get demo_env (committed s2' db) [2] = Inl StateHangs"
    using put(1) rep(3) root(1)
    by (simp_all add: demo_write_def tdb_get_def tdb_get_descend_def descends_def committed_def returns_def smt_get_def
        ms_get_or_default_def ms_new_def Let_def)
  with s(1) s1(1) s2(1) show ?thesis
    by blast
qed

end
