(* ===== verification/Compact.thy ===== *)
theory Compact
  imports Codec
begin

text \<open>
  The compact spelling of a 256-bit target (\<open>Compact\<close> in \<open>common/primitive-types/src/lib.rs\<close>): a size
  in bytes and a 23-bit mantissa.  \<open>U256\<close> is the type of 256-bit words; \<open>bits\<close>, the shifts and the
  low words are those of the integer crate.  An \<open>assert!\<close> of the source that fails is \<open>None\<close>.
\<close>

unbundle bit_operations_syntax

type_synonym u256 = "256 word"

section \<open>The operations\<close>

fun bit_length :: "nat \<Rightarrow> nat" where
  "bit_length n = (if n = 0 then 0 else Suc (bit_length (n div 2)))"

declare bit_length.simps [simp del]

definition u256_bits :: "u256 \<Rightarrow> nat" where
  "u256_bits v = bit_length (unat v)"

definition compact_to_u256 :: "u32 \<Rightarrow> u256 + u256" where
  "compact_to_u256 c =
     (let size = unat (drop_bit 24 c);
          word = c AND 0x007fffff;
          (word, result) =
            (if size \<le> 3 then (let word = drop_bit (8 * (3 - size)) word in (word, ucast word))
             else (word, push_bit (8 * (size - 3)) (ucast word)));
          is_negative = (word \<noteq> 0 \<and> c AND 0x00800000 \<noteq> 0);
          is_overflow = (word \<noteq> 0 \<and> 34 < size \<or> 0xff < word \<and> 33 < size \<or> 0xffff < word \<and> 32 < size)
      in if is_negative \<or> is_overflow then Inl result else Inr result)"

definition compact_from_u256 :: "u256 \<Rightarrow> u32 option" where
  "compact_from_u256 v =
     (let size = (u256_bits v + 7) div 8;
          compact =
            (if size \<le> 3 then ucast (push_bit (8 * (3 - size)) (ucast v :: u64)) :: u32
             else ucast (drop_bit (8 * (size - 3)) v));
          (compact, size) =
            (if compact AND 0x00800000 \<noteq> 0 then (drop_bit 8 compact, size + 1) else (compact, size))
      in if compact AND NOT 0x007fffff \<noteq> 0 then None
         else if \<not> size < 256 then None
         else Some (compact OR push_bit 24 (of_nat size)))"

text \<open>\<open>impl From<Compact> for U256\<close>: negative and overflowing encodings give their value all the same.\<close>

definition compact_into_u256 :: "u32 \<Rightarrow> u256" where
  "compact_into_u256 c = (case compact_to_u256 c of Inl x \<Rightarrow> x | Inr x \<Rightarrow> x)"

section \<open>Sizes and mantissas as numbers\<close>

lemma bit_length_0 [simp]: "bit_length 0 = 0"
  by (simp add: bit_length.simps)

lemma bit_length_bounds: "0 < n \<Longrightarrow> 2 ^ (bit_length n - 1) \<le> n \<and> n < 2 ^ bit_length n \<and> 0 < bit_length n"
proof (induction n rule: bit_length.induct)
  case (1 n)
  show ?case
  proof (cases "n div 2 = 0")
    case True
    with 1(2) have "n = 1" by auto
    moreover have "bit_length 1 = 1" by (subst bit_length.simps) simp
    ultimately show ?thesis by simp
  next
    case False
    with 1 have ih: "2 ^ (bit_length (n div 2) - 1) \<le> n div 2" "n div 2 < 2 ^ bit_length (n div 2)"
        "0 < bit_length (n div 2)"
      by auto
    have s: "bit_length n = Suc (bit_length (n div 2))" using 1(2) by (simp add: bit_length.simps [of n])
    have "(2::nat) ^ bit_length (n div 2) = 2 * 2 ^ (bit_length (n div 2) - 1)"
      using ih(3) by (cases "bit_length (n div 2)") simp_all
    moreover have "2 * (n div 2) \<le> n" "n < 2 * (n div 2) + 2" by linarith+
    ultimately have "2 ^ bit_length (n div 2) \<le> n" "n < 2 * 2 ^ bit_length (n div 2)"
      using ih(1,2) by linarith+
    then show ?thesis by (simp add: s)
  qed
qed

lemma digits_bound:
  fixes a b k :: nat
  assumes "a < k" "b < m"
  shows "a + k * b < k * m"
proof -
  have "k * Suc b \<le> k * m" using assms(2) by (intro mult_le_mono2) simp
  then show ?thesis using assms(1) by simp
qed

lemma bit_length_unique: "2 ^ k \<le> n \<Longrightarrow> n < 2 ^ Suc k \<Longrightarrow> bit_length n = Suc k"
proof -
  assume n: "2 ^ k \<le> n" "n < 2 ^ Suc k"
  then have "0 < n" using zero_less_power [of "2::nat" k] by linarith
  then have b: "2 ^ (bit_length n - 1) \<le> n" "n < 2 ^ bit_length n" "0 < bit_length n"
    using bit_length_bounds by auto
  have "(2::nat) ^ k < 2 ^ bit_length n" "(2::nat) ^ (bit_length n - 1) < 2 ^ Suc k" using n b by linarith+
  then have "k < bit_length n" "bit_length n - 1 < Suc k" by (simp_all only: power_strict_increasing_iff)
  then show ?thesis by linarith
qed

lemma bit_length_shift: "a < 2 ^ w \<Longrightarrow> 0 < m \<Longrightarrow> bit_length (a + 2 ^ w * m) = w + bit_length m"
proof -
  assume a: "a < 2 ^ w" and m: "0 < m"
  define l where "l = bit_length m - 1"
  have b: "2 ^ l \<le> m" "m < 2 ^ Suc l" "bit_length m = Suc l"
    using bit_length_bounds [OF m] by (auto simp: l_def)
  have "(2::nat) ^ w * 2 ^ l \<le> 2 ^ w * m" using b(1) by simp
  moreover have "a + 2 ^ w * m < 2 ^ w * 2 ^ Suc l" using digits_bound [OF a b(2)] .
  ultimately have "2 ^ (w + l) \<le> a + 2 ^ w * m" "a + 2 ^ w * m < 2 ^ Suc (w + l)"
    unfolding power_Suc power_add by linarith+
  then have "bit_length (a + 2 ^ w * m) = Suc (w + l)" by (rule bit_length_unique)
  then show ?thesis using b(3) by simp
qed

lemma bit_length_le: "n < 2 ^ k \<Longrightarrow> bit_length n \<le> k"
proof (cases "n = 0")
  case False
  moreover assume "n < 2 ^ k"
  ultimately have "(2::nat) ^ (bit_length n - 1) < 2 ^ k" "0 < bit_length n"
    using bit_length_bounds [of n] by linarith+
  then show ?thesis by (simp only: power_strict_increasing_iff)
qed simp

definition compact_mantissa :: "nat \<Rightarrow> nat \<Rightarrow> nat" where
  "compact_mantissa n sz = (if sz \<le> 3 then n * 2 ^ (8 * (3 - sz)) else n div 2 ^ (8 * (sz - 3)))"

definition compact_value :: "nat \<Rightarrow> nat \<Rightarrow> nat" where
  "compact_value m sz = (if sz \<le> 3 then m div 2 ^ (8 * (3 - sz)) else m * 2 ^ (8 * (sz - 3)))"

lemma byte_size_bounds:
  assumes "0 < n" "sz = (bit_length n + 7) div 8"
  shows "2 ^ (8 * (sz - 1)) \<le> n" "n < 2 ^ (8 * sz)" "0 < sz"
proof -
  have b: "2 ^ (bit_length n - 1) \<le> n" "n < 2 ^ bit_length n" "0 < bit_length n"
    using bit_length_bounds [OF assms(1)] by auto
  show "0 < sz" using b(3) assms(2) by auto
  have "8 * (sz - 1) \<le> bit_length n - 1" using assms(2) b(3) by auto
  then have "(2::nat) ^ (8 * (sz - 1)) \<le> 2 ^ (bit_length n - 1)" by (intro power_increasing) simp_all
  with b(1) show "2 ^ (8 * (sz - 1)) \<le> n" by linarith
  have "bit_length n \<le> 8 * sz" using assms(2) by auto
  then have "(2::nat) ^ bit_length n \<le> 2 ^ (8 * sz)" by (intro power_increasing) simp_all
  with b(2) show "n < 2 ^ (8 * sz)" by linarith
qed

lemma mantissa_bound:
  assumes "n < 2 ^ (8 * sz)"
  shows "compact_mantissa n sz < 2 ^ 24"
proof (cases "sz \<le> 3")
  case True
  have "n * 2 ^ (8 * (3 - sz)) < 2 ^ (8 * sz) * 2 ^ (8 * (3 - sz))" using assms by simp
  also have "\<dots> = (2::nat) ^ (8 * sz + 8 * (3 - sz))" by (simp add: power_add)
  also have "8 * sz + 8 * (3 - sz) = 24" using True by simp
  finally show ?thesis using True by (simp add: compact_mantissa_def)
next
  case False
  have "(2::nat) ^ (8 * sz) = 2 ^ 24 * 2 ^ (8 * (sz - 3))"
  proof -
    have "8 * sz = 24 + 8 * (sz - 3)" using False by simp
    then show ?thesis by (simp only: power_add)
  qed
  with assms False show ?thesis by (simp add: compact_mantissa_def less_mult_imp_div_less)
qed

text \<open>Dropping one byte of the mantissa and counting one byte more keeps the value but for that byte.\<close>

lemma value_of_mantissa:
  "compact_value (compact_mantissa n sz) sz = (if sz \<le> 3 then n else n div 2 ^ (8 * (sz - 3)) * 2 ^ (8 * (sz - 3)))"
  by (simp add: compact_value_def compact_mantissa_def)

lemma value_of_shifted_mantissa:
  "compact_value (compact_mantissa n sz div 256) (Suc sz) =
   (if sz \<le> 2 then n else n div 2 ^ (8 * (Suc sz - 3)) * 2 ^ (8 * (Suc sz - 3)))"
proof -
  consider "sz \<le> 2" | "sz = 3" | "3 < sz" by linarith
  then show ?thesis
  proof cases
    case 1
    then obtain k where k: "3 - sz = Suc k" "3 - Suc sz = k" by (cases "3 - sz") auto
    have "n * 2 ^ (8 * Suc k) div 256 = n * 2 ^ (8 * k)" by (simp add: power_add)
    with 1 k show ?thesis by (simp add: compact_value_def compact_mantissa_def)
  next
    case 2
    then show ?thesis by (simp add: compact_value_def compact_mantissa_def)
  next
    case 3
    have "8 * (Suc sz - 3) = 8 * (sz - 3) + 8" using 3 by simp
    then have "n div 2 ^ (8 * (sz - 3)) div 256 = n div 2 ^ (8 * (Suc sz - 3))"
      by (simp add: power_add div_mult2_eq)
    with 3 show ?thesis by (simp add: compact_value_def compact_mantissa_def)
  qed
qed

section \<open>Words of the compact form\<close>

lemma unat_drop: "unat (drop_bit k w) = unat w div 2 ^ k"
  unfolding unat_drop_bit_eq by (rule drop_bit_eq_div)

lemma masks_u32: "0x007fffff = (mask 23 :: u32)" "0x00800000 = (push_bit 23 1 :: u32)"
  by code_simp+

lemma unat_low_mask: "unat (c AND 0x007fffff :: u32) = unat c mod 2 ^ 23"
  unfolding masks_u32 take_bit_eq_mask [symmetric] unsigned_take_bit_eq by (rule take_bit_eq_mod)

lemma and_push_bit_nonzero: "c AND push_bit k 1 \<noteq> 0 \<longleftrightarrow> bit (c :: 'a::len word) k"
proof
  assume "c AND push_bit k 1 \<noteq> 0"
  then obtain n where "bit (c AND push_bit k 1) n" by (auto simp: bit_eq_iff)
  then show "bit c k" by (auto simp: bit_simps)
next
  assume "bit c k"
  then have "bit (c AND push_bit k 1) k" by (auto simp: bit_simps dest: bit_imp_le_length)
  then show "c AND push_bit k 1 \<noteq> 0" by (metis bit_0_eq bot_apply bot_bool_def)
qed

lemma bit_23: "unat (c :: u32) < 2 ^ 24 \<Longrightarrow> c AND 0x00800000 \<noteq> 0 \<longleftrightarrow> 2 ^ 23 \<le> unat c"
proof -
  assume c: "unat c < 2 ^ 24"
  have "c AND 0x00800000 \<noteq> 0 \<longleftrightarrow> odd (unat c div 2 ^ 23)"
    unfolding masks_u32 and_push_bit_nonzero
    by (metis bit_iff_odd bit_unsigned_iff possible_bit_nat)
  moreover have "unat c div 2 ^ 23 < 2" using c by (simp add: less_mult_imp_div_less)
  then have "odd (unat c div 2 ^ 23) \<longleftrightarrow> unat c div 2 ^ 23 \<noteq> 0" by (cases "unat c div 2 ^ 23") auto
  ultimately show ?thesis by (auto simp: div_eq_0_iff not_less)
qed

lemma and_high_zero: "unat (c :: u32) < 2 ^ 23 \<Longrightarrow> c AND NOT 0x007fffff = 0"
proof -
  assume "unat c < 2 ^ 23"
  then have "take_bit 23 (unat c) = unat c" by (simp add: take_bit_nat_eq_self_iff)
  then have "take_bit 23 c = c" by (metis unsigned_take_bit_eq word_eq_iff_unsigned)
  then show ?thesis
    unfolding masks_u32 by (metis and.assoc and.right_idem and_zero_eq bit.conj_cancel_right take_bit_eq_mask)
qed

lemma unat_join:
  assumes "unat (m :: u32) < 2 ^ 24" "s < 256"
  shows "unat (m OR push_bit 24 (of_nat s)) = unat m + s * 2 ^ 24"
proof -
  have "take_bit 24 m = m"
    using assms(1) by (metis take_bit_nat_eq_self_iff unsigned_take_bit_eq word_eq_iff_unsigned)
  then have "m AND push_bit 24 (of_nat s) = 0"
    by (intro bit_word_eqI) (metis bit_0_eq bit_and_iff bit_push_bit_iff bit_take_bit_iff bot_apply bot_bool_def leD)
  then have "m OR push_bit 24 (of_nat s) = m + push_bit 24 (of_nat s)"
    by (simp add: disjunctive_add_eq_or)
  moreover have "push_bit 24 (of_nat s) = (of_nat (s * 2 ^ 24) :: u32)"
    by (simp add: push_bit_eq_mult)
  moreover have "unat (of_nat (s * 2 ^ 24) :: u32) = s * 2 ^ 24"
    using assms(2) unfolding unsigned_of_nat of_nat_id by (subst take_bit_nat_eq_self_iff) simp
  ultimately show ?thesis
    using assms by (simp add: unat_add_lem [THEN iffD1])
qed

lemma unat_ucast_mod: "unat (ucast (w :: 'a::len word) :: 'b::len word) = unat w mod 2 ^ LENGTH('b)"
  by (simp add: unsigned_ucast_eq take_bit_eq_mod)

lemma unat_ucast_up: "LENGTH('a) \<le> LENGTH('b) \<Longrightarrow> unat (ucast (w :: 'a::len word) :: 'b::len word) = unat w"
proof -
  assume le: "LENGTH('a) \<le> LENGTH('b)"
  have "unat w < 2 ^ LENGTH('a)" by (rule unsigned_less)
  also have "(2::nat) ^ LENGTH('a) \<le> 2 ^ LENGTH('b)" using le by (intro power_increasing) simp_all
  finally show ?thesis by (simp add: unat_ucast_mod)
qed

lemma unat_push_bit_mod: "unat (push_bit k w :: 'a::len word) = unat w * 2 ^ k mod 2 ^ LENGTH('a)"
  unfolding unsigned_push_bit_eq by (simp add: push_bit_eq_mult take_bit_eq_mod)

definition compact_parts :: "nat \<Rightarrow> nat \<times> nat" where
  "compact_parts n =
     (let sz = (bit_length n + 7) div 8; m = compact_mantissa n sz
      in if 2 ^ 23 \<le> m then (m div 256, Suc sz) else (m, sz))"

lemma compact_parts_bounds:
  assumes "compact_parts n = (m, s)" "n < 2 ^ 256"
  shows "m < 2 ^ 23" "s \<le> 33" "s = 33 \<longrightarrow> m < 2 ^ 16"
    "compact_value m s = (if s \<le> 3 then n else n div 2 ^ (8 * (s - 3)) * 2 ^ (8 * (s - 3)))"
proof -
  define sz where "sz = (bit_length n + 7) div 8"
  have n: "n < 2 ^ (8 * sz)"
    using byte_size_bounds(2) [of n sz] sz_def by (cases "n = 0") auto
  have sz: "sz \<le> 32"
  proof (rule ccontr)
    assume "\<not> sz \<le> 32"
    then have "n \<noteq> 0" "256 \<le> 8 * (sz - 1)" by (cases "n = 0", auto simp: sz_def)
    then have "(2::nat) ^ 256 \<le> 2 ^ (8 * (sz - 1))" by (intro power_increasing) simp_all
    moreover have "2 ^ (8 * (sz - 1)) \<le> n"
      using byte_size_bounds(1) [of n sz] sz_def \<open>n \<noteq> 0\<close> by simp
    ultimately show False using assms(2) by linarith
  qed
  note M = mantissa_bound [OF n]
  have p: "compact_parts n =
    (if 2 ^ 23 \<le> compact_mantissa n sz then (compact_mantissa n sz div 256, Suc sz) else (compact_mantissa n sz, sz))"
    by (simp add: compact_parts_def sz_def Let_def)
  show "m < 2 ^ 23" "s \<le> 33" "s = 33 \<longrightarrow> m < 2 ^ 16"
    using assms(1) M sz unfolding p by (auto split: if_splits)
  show "compact_value m s = (if s \<le> 3 then n else n div 2 ^ (8 * (s - 3)) * 2 ^ (8 * (s - 3)))"
    using assms(1) value_of_mantissa [of n sz] value_of_shifted_mantissa [of n sz] unfolding p
    by (auto split: if_splits)
qed

lemma from_u256_parts:
  assumes "compact_parts (unat v) = (m, s)"
  obtains c where "compact_from_u256 v = Some c" "unat c = m + s * 2 ^ 24"
proof -
  define sz where "sz = (u256_bits v + 7) div 8"
  define w :: u32 where "w = (if sz \<le> 3 then ucast (push_bit (8 * (3 - sz)) (ucast v :: u64)) else ucast (drop_bit (8 * (sz - 3)) v))"
  have "unat v < 2 ^ LENGTH(256)" by (rule unsigned_less)
  then have v: "unat v < 2 ^ 256" by simp
  have n: "unat v < 2 ^ (8 * sz)"
    using byte_size_bounds(2) [of "unat v" sz] sz_def by (cases "unat v = 0") (auto simp: u256_bits_def)
  note M = mantissa_bound [OF n]
  have w: "unat w = compact_mantissa (unat v) sz"
  proof (cases "sz \<le> 3")
    case True
    have "unat v * 1 \<le> unat v * 2 ^ (8 * (3 - sz))" by (intro mult_le_mono) simp_all
    moreover from M True have "unat v * 2 ^ (8 * (3 - sz)) < 2 ^ 24" by (simp add: compact_mantissa_def)
    ultimately have "unat v * 2 ^ (8 * (3 - sz)) < 2 ^ 24" "unat v < 2 ^ 24" by linarith+
    with True show ?thesis by (simp add: w_def unat_ucast_mod unat_push_bit_mod compact_mantissa_def)
  next
    case False
    with M show ?thesis by (simp add: w_def unat_ucast_mod unat_drop compact_mantissa_def)
  qed
  let ?big = "2 ^ 23 \<le> unat w"
  have parts: "(m, s) = (if ?big then (unat w div 256, Suc sz) else (unat w, sz))"
    using assms by (auto simp: compact_parts_def Let_def w sz_def u256_bits_def split: if_splits)
  define x where "x = (if ?big then drop_bit 8 w else w)"
  have x: "unat x = m" using parts by (auto simp: x_def unat_drop split: if_splits)
  have b: "m < 2 ^ 23" "s \<le> 33" using compact_parts_bounds [OF assms v] by auto
  have "compact_from_u256 v = Some (x OR push_bit 24 (of_nat s))"
    unfolding compact_from_u256_def Let_def sz_def [symmetric] w_def [symmetric]
    using bit_23 [of w] M w parts and_high_zero [of x] x b
    by (auto simp: x_def split: if_splits)
  with that unat_join [of x s] x b show ?thesis by auto
qed

lemma to_u256_parts:
  assumes "unat c = m + s * 2 ^ 24" "m < 2 ^ 23" "s \<le> 33" "s = 33 \<longrightarrow> m < 2 ^ 16" "compact_value m s < 2 ^ 256"
  obtains w where "compact_to_u256 c = Inr w" "unat w = compact_value m s"
proof -
  have s: "unat (drop_bit 24 c) = s" using assms(1,2) by (simp add: unat_drop)
  define x where "x = c AND 0x007fffff"
  have word: "unat x = m"
  proof -
    have "unat c = m + (2 * s) * 2 ^ 23" using assms(1) by simp
    then show ?thesis using assms(2) unfolding unat_low_mask x_def by (simp only: mod_mult_self1 mod_less)
  qed
  have neg: "c AND 0x00800000 = 0"
  proof -
    have "unat c div 2 ^ 23 = 2 * s" using assms(1,2) by simp
    then have "\<not> bit (unat c) 23" by (simp only: bit_iff_odd) simp
    then have "\<not> bit c 23" by (simp add: bit_unsigned_iff)
    then show ?thesis unfolding masks_u32 using and_push_bit_nonzero by blast
  qed
  define r :: u256 where "r = (if s \<le> 3 then ucast (drop_bit (8 * (3 - s)) x) else push_bit (8 * (s - 3)) (ucast x))"
  have "unat r = compact_value m s"
  proof (cases "s \<le> 3")
    case True
    have "m div 2 ^ (8 * (3 - s)) < 2 ^ 256"
      by (rule le_less_trans [OF div_le_dividend]) (rule less_trans [OF assms(2)], simp)
    with True show ?thesis by (simp add: r_def unat_ucast_mod unat_drop word compact_value_def)
  next
    case False
    with assms(2,5) show ?thesis by (simp add: r_def unat_ucast_mod unat_push_bit_mod word compact_value_def)
  qed
  moreover have "compact_to_u256 c = Inr r"
  proof -
    have "\<not> (0xffff < x \<and> 32 < s)" using assms(3,4) word by (auto simp: word_less_nat_alt)
    then show ?thesis
      unfolding compact_to_u256_def x_def [symmetric] using assms(3) neg
      by (auto simp: Let_def s r_def word_less_nat_alt)
  qed
  ultimately show ?thesis using that by blast
qed

section \<open>Accuracy of the compact form\<close>

lemma byte_size_unique:
  assumes "2 ^ (8 * (sz - 1)) \<le> n" "n < 2 ^ (8 * sz)" "0 < sz"
  shows "(bit_length n + 7) div 8 = sz"
proof -
  define t where "t = (bit_length n + 7) div 8"
  have n: "0 < n" using assms(1) by (metis less_le_trans zero_less_numeral zero_less_power)
  have t: "2 ^ (8 * (t - 1)) \<le> n" "n < 2 ^ (8 * t)" "0 < t" using byte_size_bounds [OF n t_def] by auto
  have "(2::nat) ^ (8 * (t - 1)) < 2 ^ (8 * sz)" "(2::nat) ^ (8 * (sz - 1)) < 2 ^ (8 * t)"
    using assms(1,2) t(1,2) by linarith+
  then have "8 * (t - 1) < 8 * sz" "8 * (sz - 1) < 8 * t" by (simp_all only: power_strict_increasing_iff)
  with assms(3) t(3) show ?thesis by (simp add: t_def [symmetric])
qed

lemma floor_multiple:
  assumes "k \<le> j" "2 ^ j \<le> (n :: nat)"
  shows "2 ^ j \<le> n div 2 ^ k * 2 ^ k" "n div 2 ^ k * 2 ^ k \<le> n"
proof -
  have "(2::nat) ^ j = 2 ^ (j - k) * 2 ^ k" using assms(1) by (simp flip: power_add)
  moreover have "(2::nat) ^ (j - k) \<le> n div 2 ^ k"
    using assms by (simp add: less_eq_div_iff_mult_less_eq flip: power_add)
  ultimately show "2 ^ j \<le> n div 2 ^ k * 2 ^ k" by simp
qed simp

lemma compact_parts_idem:
  assumes "compact_parts n = (m, s)"
  shows "compact_parts (compact_value m s) = (m, s) \<and> compact_value m s \<le> n \<and>
         (n - compact_value m s) * 2 ^ 15 \<le> n"
proof -
  define sz where "sz = (bit_length n + 7) div 8"
  define M where "M = compact_mantissa n sz"
  have p: "(m, s) = (if 2 ^ 23 \<le> M then (M div 256, Suc sz) else (M, sz))"
    using assms by (auto simp: compact_parts_def sz_def M_def Let_def)
  show ?thesis
  proof (cases "s \<le> 3")
    case True
    then have "compact_value m s = n"
      using p value_of_mantissa [of n sz] value_of_shifted_mantissa [of n sz] M_def
      by (auto split: if_splits)
    with assms show ?thesis by simp
  next
    case False
    then have sz: "3 \<le> sz" "\<not> 2 ^ 23 \<le> M \<Longrightarrow> 3 < sz" using p by (auto split: if_splits)
    then have "n \<noteq> 0" by (cases "n = 0") (auto simp: sz_def)
    then have n: "2 ^ (8 * (sz - 1)) \<le> n" "n < 2 ^ (8 * sz)"
      using byte_size_bounds [OF _ sz_def] by auto
    define k where "k = 8 * (s - 3)"
    have k: "k \<le> 8 * (sz - 1) - 8" using p sz by (auto simp: k_def split: if_splits)
    have val: "compact_value m s = n div 2 ^ k * 2 ^ k"
      using False p value_of_mantissa [of n sz] value_of_shifted_mantissa [of n sz] M_def
      by (auto simp: k_def split: if_splits)
    have "k \<le> 8 * (sz - 1)" using k by linarith
    note fl = floor_multiple [OF this n(1)]
    have bs: "(bit_length (compact_value m s) + 7) div 8 = sz"
      using fl(1) le_less_trans [OF fl(2) n(2)] sz(1) by (intro byte_size_unique) (simp_all add: val)
    define j where "j = 8 * (sz - 3)"
    have M: "M = n div 2 ^ j"
      using sz(1) by (cases "sz = 3") (auto simp: M_def compact_mantissa_def j_def)
    have M': "compact_mantissa (compact_value m s) sz = compact_value m s div 2 ^ j"
      using sz(1) by (cases "sz = 3") (auto simp: compact_mantissa_def j_def)
    have kj: "k = (if 2 ^ 23 \<le> M then j + 8 else j)"
      using p sz by (auto simp: k_def j_def split: if_splits)
    have "2 ^ (k + 15) \<le> n"
    proof (cases "2 ^ 23 \<le> M")
      case True
      have "(2::nat) ^ (k + 15) = 2 ^ 23 * 2 ^ j" using kj True by (simp add: power_add)
      also have "\<dots> \<le> M * 2 ^ j" using True by (intro mult_le_mono1)
      also have "\<dots> \<le> n" by (simp add: M)
      finally show ?thesis .
    next
      case False
      then have "k + 15 \<le> 8 * (sz - 1)" using kj sz by (simp add: j_def)
      then have "(2::nat) ^ (k + 15) \<le> 2 ^ (8 * (sz - 1))" by (intro power_increasing) simp_all
      with n(1) show ?thesis by linarith
    qed
    moreover have "n mod 2 ^ k * 2 ^ 15 \<le> 2 ^ (k + 15)"
      by (simp add: power_add less_imp_le)
    moreover have "n - n div 2 ^ k * 2 ^ k = n mod 2 ^ k" by (simp add: minus_div_mult_eq_mod)
    moreover have cp: "compact_parts (compact_value m s) =
        (let x = compact_value m s div 2 ^ j in if 2 ^ 23 \<le> x then (x div 256, Suc sz) else (x, sz))"
      unfolding compact_parts_def bs M' Let_def by (rule refl)
    moreover have "compact_parts (compact_value m s) = (m, s)"
    proof (cases "2 ^ 23 \<le> M")
      case True
      have "compact_value m s div 2 ^ j = M div 256 * 256"
        using True kj by (simp add: val M power_add div_mult2_eq mult.assoc [symmetric])
      moreover have "2 ^ 23 \<le> M div 256 * 256" using True by simp
      ultimately show ?thesis
        using True unfolding cp p by (simp add: Let_def)
    next
      case False
      then have "compact_value m s div 2 ^ j = M" using kj by (simp add: val M)
      with False show ?thesis unfolding cp p by (simp add: Let_def)
    qed
    ultimately show ?thesis using fl by (simp add: val)
  qed
qed

lemma compact_accurate:
  obtains c w where "compact_from_u256 v = Some c" "compact_to_u256 c = Inr w" "w \<le> v"
    "(unat v - unat w) * 2 ^ 15 \<le> unat v" "compact_from_u256 w = Some c"
proof -
  obtain m s where p: "compact_parts (unat v) = (m, s)" by fastforce
  have "unat v < 2 ^ LENGTH(256)" by (rule unsigned_less)
  then have v: "unat v < 2 ^ 256" by simp
  obtain c where c: "compact_from_u256 v = Some c" "unat c = m + s * 2 ^ 24"
    using from_u256_parts [OF p] .
  note b = compact_parts_bounds [OF p v] and i = compact_parts_idem [OF p]
  have small: "compact_value m s < 2 ^ 256" using i v by linarith
  obtain w where w: "compact_to_u256 c = Inr w" "unat w = compact_value m s"
    using to_u256_parts [OF c(2) b(1-3) small] .
  have "compact_parts (unat w) = (m, s)" using i w(2) by simp
  then obtain c' where c': "compact_from_u256 w = Some c'" "unat c' = m + s * 2 ^ 24"
    using from_u256_parts by blast
  have "c' = c" using c(2) c'(2) by (metis word_eq_iff_unsigned)
  with c'(1) i w c that show ?thesis by (simp add: word_le_nat_alt)
qed

section \<open>Proof of work\<close>

text \<open>\<open>crypto/src/lib.rs\<close>: a hash is read as a big-endian number.\<close>

definition is_valid_proof_of_work :: "u32 \<Rightarrow> u32 \<Rightarrow> h256 \<Rightarrow> bool" where
  "is_valid_proof_of_work max_work_bits bits hash =
     (case compact_to_u256 max_work_bits of
        Inl _ \<Rightarrow> False
      | Inr maximum \<Rightarrow>
          (case compact_to_u256 bits of
             Inl _ \<Rightarrow> False
           | Inr target \<Rightarrow> target \<le> maximum \<and> (from_be_bytes hash :: u256) \<le> target))"

definition is_valid_proof_of_work_hash :: "u256 \<Rightarrow> h256 \<Rightarrow> bool" where
  "is_valid_proof_of_work_hash target hash \<longleftrightarrow> (from_be_bytes hash :: u256) \<le> target"

section \<open>Properties\<close>

text \<open>C23: The compact form of any 256-bit target exists (neither assertion of \<open>from_u256\<close> fails), decodes
  without error to a target that is not easier than the original and misses it by less than one part
  in \<open>2 ^ 15\<close>, and encoding that target again gives the same compact form.\<close>

theorem compact_round_trip:
  "\<exists>c w. compact_from_u256 v = Some c \<and> compact_to_u256 c = Inr w \<and> w \<le> v \<and>
     (unat v - unat w) * 2 ^ 15 \<le> unat v \<and> compact_from_u256 w = Some c"
  using compact_accurate [of v] by metis

end
