(* ===== verification/Address.thy ===== *)
theory Address
  imports Bech32_Props Compact
begin

text \<open>
  Networks, keys, addresses and package names: \<open>common/types/src/network.rs\<close>, \<open>crypto/src/ecdsa.rs\<close>,
  \<open>common/primitive-types/src/address.rs\<close>, \<open>common/types/src/account.rs\<close> and
  \<open>common/types/src/util.rs\<close>.

  The curve arithmetic of \<open>k256\<close> is the parameter \<open>k256\<close>: keys and signatures are their bytes.
  \<open>k256_laws\<close> says what the code relies on, that a signature made with a key is well-formed and that
  the public key of the signer can be recovered from it.  Keccak is the parameter \<open>kc\<close>.
\<close>

section \<open>Networks\<close>

datatype network = Mainnet | Testnet | Alphanet

primrec network_string :: "network \<Rightarrow> bytes" where
  "network_string Mainnet = ascii ''mainnet''"
| "network_string Testnet = ascii ''testnet''"
| "network_string Alphanet = ascii ''aplhanet''"

definition u256_of_limbs :: "u64 list \<Rightarrow> u256" where
  "u256_of_limbs ls = foldr (\<lambda>l a. push_bit 64 a OR ucast l) ls 0"

definition TESTNET_MAX_DIFFICULTY :: u256 where
  "TESTNET_MAX_DIFFICULTY = u256_of_limbs [0, 0, 0, 0x00000377ae000000]"

definition ALPHA_MAX_DIFFICULTY :: u256 where
  "ALPHA_MAX_DIFFICULTY = u256_of_limbs [0, 0, 0, 0x000000fff000000]"

definition MAINNET_MAX_DIFFICULTY :: u256 where
  "MAINNET_MAX_DIFFICULTY =
     u256_of_limbs [0xffffffffffffffff, 0xffffffffffffffff, 0xffffffffffffffff, 0x00000000ffffffff]"

definition TESTNET_HRP :: bytes where
  "TESTNET_HRP = ascii ''odanx''"

definition ALPHA_HRP :: bytes where
  "ALPHA_HRP = ascii ''odaxx''"

definition MAINNET_HRP :: bytes where
  "MAINNET_HRP = ascii ''odana''"

primrec max_difficulty :: "network \<Rightarrow> u256" where
  "max_difficulty Testnet = TESTNET_MAX_DIFFICULTY"
| "max_difficulty Alphanet = ALPHA_MAX_DIFFICULTY"
| "max_difficulty Mainnet = MAINNET_MAX_DIFFICULTY"

primrec chain_id :: "network \<Rightarrow> u32" where
  "chain_id Mainnet = 0"
| "chain_id Testnet = 1"
| "chain_id Alphanet = 2"

definition from_chain_id :: "u32 \<Rightarrow> network" where
  "from_chain_id c =
     (if c = 0 then Mainnet else if c = 1 then Testnet else if c = 2 then Alphanet else Testnet)"

primrec network_hrp :: "network \<Rightarrow> bytes" where
  "network_hrp Mainnet = MAINNET_HRP"
| "network_hrp Testnet = TESTNET_HRP"
| "network_hrp Alphanet = ALPHA_HRP"

definition max_difficulty_compact :: "network \<Rightarrow> u32 option" where
  "max_difficulty_compact n = compact_from_u256 (max_difficulty n)"

section \<open>Keys and signatures\<close>

record k256 =
  k_secret_ok :: "bytes \<Rightarrow> bool"
  k_public :: "bytes \<Rightarrow> bytes"
  k_sign :: "bytes \<Rightarrow> bytes \<Rightarrow> bytes"
  k_point_ok :: "bytes \<Rightarrow> bool"
  k_signature_ok :: "bytes \<Rightarrow> bool"
  k_recover :: "bytes \<Rightarrow> bytes \<Rightarrow> bytes option"
  k_verify :: "bytes \<Rightarrow> bytes \<Rightarrow> bytes \<Rightarrow> bool"

datatype crypto_error = RSVInvalid | EcdsaError | CryptoPanicked

definition secret_from_bytes :: "k256 \<Rightarrow> bytes \<Rightarrow> crypto_error + bytes" where
  "secret_from_bytes K b = (if k_secret_ok K b then Inr b else Inl EcdsaError)"

definition secret_sign :: "k256 \<Rightarrow> bytes \<Rightarrow> bytes \<Rightarrow> crypto_error + bytes" where
  "secret_sign K sk msg = Inr (k_sign K sk msg)"

definition secret_public :: "k256 \<Rightarrow> bytes \<Rightarrow> bytes" where
  "secret_public K sk = k_public K sk"

definition point_from_bytes :: "k256 \<Rightarrow> bytes \<Rightarrow> crypto_error + bytes" where
  "point_from_bytes K b = (if k_point_ok K b then Inr b else Inl EcdsaError)"

definition point_from_fixed_bytes :: "k256 \<Rightarrow> bytes \<Rightarrow> crypto_error + bytes" where
  "point_from_fixed_bytes K b = point_from_bytes K (4 # b)"

definition point_to_bytes :: "bytes \<Rightarrow> crypto_error + bytes" where
  "point_to_bytes pk = (if length pk = 65 then Inr pk else Inl CryptoPanicked)"

definition point_to_fixed_bytes :: "bytes \<Rightarrow> crypto_error + bytes" where
  "point_to_fixed_bytes pk = (if length pk = 65 then Inr (drop 1 pk) else Inl CryptoPanicked)"

definition point_verify :: "k256 \<Rightarrow> bytes \<Rightarrow> bytes \<Rightarrow> bytes \<Rightarrow> crypto_error + unit" where
  "point_verify K pk msg sig = (if k_verify K pk msg sig then Inr () else Inl EcdsaError)"

definition point_hash :: "(bytes \<Rightarrow> h256) \<Rightarrow> bytes \<Rightarrow> h256" where
  "point_hash kc pk = kc (drop 1 pk)"

definition signature_from_bytes :: "k256 \<Rightarrow> bytes \<Rightarrow> crypto_error + bytes" where
  "signature_from_bytes K b = (if k_signature_ok K b then Inr b else Inl EcdsaError)"

definition from_rsv :: "k256 \<Rightarrow> bytes \<times> bytes \<times> u8 \<Rightarrow> crypto_error + bytes" where
  "from_rsv K = (\<lambda>(r, s, v).
     if length r \<noteq> 32 then Inl RSVInvalid
     else if length s \<noteq> 32 then Inl RSVInvalid
     else signature_from_bytes K (r @ s @ [v]))"

definition recover_public_key :: "k256 \<Rightarrow> bytes \<Rightarrow> bytes \<Rightarrow> crypto_error + bytes" where
  "recover_public_key K sig msg = ok_or (k_recover K sig msg) EcdsaError"

definition rsv :: "bytes \<Rightarrow> crypto_error + (h256 \<times> h256 \<times> u8)" where
  "rsv sig = (if length sig = 65 then Inr (take 32 sig, take 32 (drop 32 sig), sig ! 64) else Inl CryptoPanicked)"

definition k256_laws :: "k256 \<Rightarrow> bool" where
  "k256_laws K \<longleftrightarrow>
     (\<forall>sk msg. k_secret_ok K sk \<longrightarrow>
        length (k_public K sk) = 65 \<and> length (k_sign K sk msg) = 65 \<and> k_signature_ok K (k_sign K sk msg) \<and>
        k_recover K (k_sign K sk msg) msg = Some (k_public K sk))"

section \<open>Package names\<close>

datatype address_error =
    NameTooLong
  | NameParts
  | NameFirstPart
  | NameCharset
  | SecretKeyError crypto_error
  | AddressParse bech32_error
  | NetworkNotSpecified
  | AddressPanicked

definition MAX_PACKAGE_NAME_LEN :: nat where
  "MAX_PACKAGE_NAME_LEN = 128"

fun split_on :: "u8 \<Rightarrow> bytes \<Rightarrow> bytes list" where
  "split_on c [] = [[]]"
| "split_on c (b # bs) =
     (if b = c then [] # split_on c bs
      else (case split_on c bs of [] \<Rightarrow> [[b]] | p # ps \<Rightarrow> (b # p) # ps))"

definition DOT :: u8 where
  "DOT = of_char (CHR ''.'')"

definition is_ascii_digit :: "u8 \<Rightarrow> bool" where
  "is_ascii_digit b \<longleftrightarrow> of_char (CHR ''0'') \<le> b \<and> b \<le> of_char (CHR ''9'')"

definition name_char :: "u8 \<Rightarrow> bool" where
  "name_char b \<longleftrightarrow> is_lower_byte b \<or> is_ascii_digit b \<or> b = of_char (CHR ''_'')"

fun valid_parts_loop :: "bytes list \<Rightarrow> bool" where
  "valid_parts_loop [] = True"
| "valid_parts_loop (p # ps) = (if \<not> list_all name_char p then False else valid_parts_loop ps)"

definition name_parts :: "bytes \<Rightarrow> address_error + bytes list" where
  "name_parts s =
     (if length s > MAX_PACKAGE_NAME_LEN then Inl NameTooLong
      else
        (let parts = split_on DOT s in
         if length parts < 3 \<or> length parts > 8 then Inl NameParts
         else if \<not> list_all is_lower_byte (parts ! 0) then Inl NameFirstPart
         else if \<not> valid_parts_loop parts then Inl NameCharset
         else Inr parts))"

definition name_is_valid :: "bytes \<Rightarrow> bool" where
  "name_is_valid s =
     (if length s > MAX_PACKAGE_NAME_LEN then False
      else
        (let parts = split_on DOT s in
         if length parts < 3 \<or> length parts > 8 then False
         else if \<not> list_all is_lower_byte (parts ! 0) then False
         else valid_parts_loop parts))"

record package_name =
  organisation_id :: h256
  package_id :: h256

text \<open>\<open>Iterator::reduce\<close> and \<open>fold\<close> over the hashed parts.\<close>

definition name_step :: "(bytes \<Rightarrow> h256) \<Rightarrow> h256 \<Rightarrow> h256 \<Rightarrow> h256" where
  "name_step kc acc t = kc (acc @ t)"

definition name_reduce :: "(bytes \<Rightarrow> h256) \<Rightarrow> h256 list \<Rightarrow> h256 option" where
  "name_reduce kc hs = (case hs of [] \<Rightarrow> None | h # t \<Rightarrow> Some (foldl (name_step kc) h t))"

definition name_parse :: "(bytes \<Rightarrow> h256) \<Rightarrow> bytes \<Rightarrow> address_error + package_name" where
  "name_parse kc s =
     rbind (name_parts s) (\<lambda>parts.
       let organisation_id =
             (case name_reduce kc (map kc (take 2 parts)) of None \<Rightarrow> h256_zero | Some h \<Rightarrow> h);
           package_id = foldl (name_step kc) organisation_id (map kc (drop 2 parts))
       in Inr \<lparr>organisation_id = organisation_id, package_id = package_id\<rparr>)"

section \<open>Addresses\<close>

definition address_hrp :: "address \<Rightarrow> bytes" where
  "address_hrp a = (case bech_decode (from_utf8_lossy a) of Inr (hrp, _, _) \<Rightarrow> hrp | Inl _ \<Rightarrow> [])"

definition address_is_default :: "address \<Rightarrow> bool" where
  "address_is_default a \<longleftrightarrow> a = default_address"

text \<open>\<open>to_address20\<close>: \<open>H160::from_slice\<close> panics unless the payload has twenty bytes.\<close>

definition to_address20 :: "address \<Rightarrow> address_error + bytes option" where
  "to_address20 a =
     (case rbind (bech_decode (from_utf8_lossy a)) (\<lambda>(_, vs, _). convert_bits vs 5 8 False) of
        Inr b \<Rightarrow> if length b = 20 then Inr (Some b) else Inl AddressPanicked
      | Inl _ \<Rightarrow> Inr None)"

text \<open>\<open>FromStr\<close>: \<open>!input.len() == ADDRESS_LEN\<close> compares the bitwise complement of the length, so the
  guard never fires and a string of another length reaches \<open>copy_from_slice\<close>, which panics.\<close>

definition address_from_str :: "bytes \<Rightarrow> address_error + address" where
  "address_from_str input =
     (if NOT (of_nat (length input) :: u64) = of_nat ADDRESS_LEN then Inl (AddressParse InvalidLength)
      else
        (case bech_decode input of
           Inl e \<Rightarrow> Inl (AddressParse e)
         | Inr _ \<Rightarrow> if length input = ADDRESS_LEN then Inr input else Inl AddressPanicked))"

definition address_is_mainnet :: "address \<Rightarrow> bool" where
  "address_is_mainnet a \<longleftrightarrow> MAINNET_HRP = address_hrp a"

definition address_is_testnet :: "address \<Rightarrow> bool" where
  "address_is_testnet a \<longleftrightarrow> TESTNET_HRP = address_hrp a"

definition address_is_alphanet :: "address \<Rightarrow> bool" where
  "address_is_alphanet a \<longleftrightarrow> ALPHA_HRP = address_hrp a"

definition address_is_valid :: "address \<Rightarrow> bool" where
  "address_is_valid a =
     (case bech_decode (from_utf8_lossy a) of
        Inr (hrp, _, _) \<Rightarrow> ALPHA_HRP = hrp \<or> TESTNET_HRP = hrp \<or> MAINNET_HRP = hrp
      | Inl _ \<Rightarrow> False)"

definition address_network :: "address \<Rightarrow> network option" where
  "address_network a =
     (if address_hrp a = MAINNET_HRP then Some Mainnet
      else if address_hrp a = TESTNET_HRP then Some Testnet
      else if address_hrp a = ALPHA_HRP then Some Alphanet
      else None)"

text \<open>The last twenty bytes of a key, spelled under the prefix of the network.\<close>

definition encode_key :: "network \<Rightarrow> h256 \<Rightarrow> address_error + bytes" where
  "encode_key net key =
     (case bech_encode (network_hrp net) (to_base32 (drop 12 key)) Bech32m of
        Inl _ \<Rightarrow> Inl AddressPanicked
      | Inr s \<Rightarrow> Inr s)"

definition raw_address :: "bytes \<Rightarrow> address_error + address" where
  "raw_address s = (if length s = ADDRESS_LEN then Inr s else Inl AddressPanicked)"

definition raw_address_prefix :: "bytes \<Rightarrow> address_error + address" where
  "raw_address_prefix s = (if ADDRESS_LEN \<le> length s then Inr (take ADDRESS_LEN s) else Inl AddressPanicked)"

definition get_address_from_pub_key :: "(bytes \<Rightarrow> h256) \<Rightarrow> bytes \<Rightarrow> network \<Rightarrow> address_error + address" where
  "get_address_from_pub_key kc pk net = rbind (encode_key net (point_hash kc pk)) raw_address"

definition get_address_from_secret_key ::
  "k256 \<Rightarrow> (bytes \<Rightarrow> h256) \<Rightarrow> h256 \<Rightarrow> network \<Rightarrow> address_error + address" where
  "get_address_from_secret_key K kc sk net =
     (case secret_from_bytes K sk of
        Inl e \<Rightarrow> Inl (SecretKeyError e)
      | Inr sk \<Rightarrow> rbind (encode_key net (point_hash kc (secret_public K sk))) raw_address)"

definition get_address_from_package_name :: "(bytes \<Rightarrow> h256) \<Rightarrow> bytes \<Rightarrow> network \<Rightarrow> address_error + address" where
  "get_address_from_package_name kc name net =
     rbind (name_parse kc name) (\<lambda>p. rbind (encode_key net (package_id p)) raw_address_prefix)"

definition get_address_from_seed :: "(bytes \<Rightarrow> h256) \<Rightarrow> bytes \<Rightarrow> network \<Rightarrow> address_error + address" where
  "get_address_from_seed kc seed net = rbind (encode_key net (kc seed)) raw_address_prefix"

definition get_eth_address_from_pub_key :: "(bytes \<Rightarrow> h256) \<Rightarrow> bytes \<Rightarrow> address_error + bytes" where
  "get_eth_address_from_pub_key kc pk =
     (case point_to_bytes pk of Inl _ \<Rightarrow> Inl AddressPanicked | Inr b \<Rightarrow> Inr (drop 12 (kc (drop 1 b))))"

section \<open>Lemmas on addresses\<close>

lemmas hrp_defs = MAINNET_HRP_def TESTNET_HRP_def ALPHA_HRP_def ascii_def

lemma check_network_hrp: "check_hrp (network_hrp net) = Inr LowerCase"
  by (cases net) (simp_all add: hrp_defs check_hrp_def is_lower_byte_def is_upper_byte_def)

lemma length_network_hrp [simp]: "length (network_hrp net) = 5"
  by (cases net) (simp_all add: hrp_defs)

lemma hrps_differ [simp]:
  "MAINNET_HRP \<noteq> TESTNET_HRP" "MAINNET_HRP \<noteq> ALPHA_HRP" "TESTNET_HRP \<noteq> ALPHA_HRP"
  "TESTNET_HRP \<noteq> MAINNET_HRP" "ALPHA_HRP \<noteq> MAINNET_HRP" "ALPHA_HRP \<noteq> TESTNET_HRP"
  by (simp_all add: hrp_defs)

lemma from_utf8_lossy_ascii: "list_all (\<lambda>b. b < 128) bs \<Longrightarrow> from_utf8_lossy bs = bs"
  by (induction bs) simp_all

lemma encode_key_spec:
  assumes "length key = 32"
  obtains s where "encode_key net key = Inr s" "length s = ADDRESS_LEN" "from_utf8_lossy s = s"
    "bech_decode s = Inr (network_hrp net, to_base32 (drop 12 key), Bech32m)"
proof -
  have "list_all (fits 5) (to_base32 (drop 12 key))" using to_base32_spec by blast
  from decode_encode [OF check_network_hrp [of net] this, of Bech32m]
  obtain s where s: "bech_encode (network_hrp net) (to_base32 (drop 12 key)) Bech32m = Inr s"
      "bech_decode s = Inr (network_hrp net, to_base32 (drop 12 key), Bech32m)"
      "length s = 5 + 7 + length (to_base32 (drop 12 key))" "list_all (\<lambda>b. b < 128) s"
    by (auto simp: hrp_lower_def)
  have "length s = ADDRESS_LEN"
    using s(3) assms by (simp add: length_to_base32 base32_len_def ADDRESS_LEN_def Let_def)
  with s that show ?thesis by (simp add: encode_key_def from_utf8_lossy_ascii)
qed

text \<open>What an address made from a key tells: its network and the last twenty bytes of the key.\<close>

definition address_of :: "network \<Rightarrow> h256 \<Rightarrow> address \<Rightarrow> bool" where
  "address_of net key a \<longleftrightarrow>
     length a = ADDRESS_LEN \<and> address_is_valid a \<and> address_network a = Some net \<and>
     to_address20 a = Inr (Some (drop 12 key)) \<and> address_from_str a = Inr a"

lemma not_address_len: "NOT (of_nat ADDRESS_LEN :: u64) \<noteq> of_nat ADDRESS_LEN"
  by (simp add: ADDRESS_LEN_def)

lemma encode_key_address_of:
  assumes "length key = 32"
  obtains a where "encode_key net key = Inr a" "address_of net key a"
    "raw_address a = Inr a" "raw_address_prefix a = Inr a"
proof -
  obtain s where s: "encode_key net key = Inr s" "length s = ADDRESS_LEN" "from_utf8_lossy s = s"
    "bech_decode s = Inr (network_hrp net, to_base32 (drop 12 key), Bech32m)"
    using encode_key_spec [OF assms] .
  have "address_network s = Some net"
    by (cases net) (simp_all add: address_network_def address_hrp_def s(3,4))
  moreover have "address_is_valid s"
    by (cases net) (simp_all add: address_is_valid_def s(3,4))
  moreover have "to_address20 s = Inr (Some (drop 12 key))"
    using from_to_base32 [of "drop 12 key"] assms by (simp add: to_address20_def s(3,4) from_base32_def)
  moreover have "address_from_str s = Inr s"
    using not_address_len by (simp add: address_from_str_def s(2,4))
  ultimately have "address_of net key s" using s(2) by (simp add: address_of_def)
  with s that show ?thesis by (simp add: raw_address_def raw_address_prefix_def)
qed

section \<open>Lemmas on package names\<close>

lemma split_on_nonempty [simp]: "split_on c s \<noteq> []"
  by (induction s) (auto split: list.splits)

fun join_on :: "u8 \<Rightarrow> bytes list \<Rightarrow> bytes" where
  "join_on c [] = []"
| "join_on c [p] = p"
| "join_on c (p # ps) = p @ c # join_on c ps"

lemma join_split: "join_on c (split_on c s) = s"
proof (induction s)
  case (Cons b s)
  obtain p ps where "split_on c s = p # ps" by (cases "split_on c s") auto
  with Cons show ?case by (cases ps) auto
qed simp

lemma name_parts_valid: "name_is_valid s \<longleftrightarrow> name_parts s = Inr (split_on DOT s)"
  by (simp add: name_is_valid_def name_parts_def Let_def)

lemma name_parts_Inr: "name_parts s = Inr ps \<longleftrightarrow> name_is_valid s \<and> ps = split_on DOT s"
  by (auto simp: name_is_valid_def name_parts_def Let_def)

lemma name_valid_parts: "name_is_valid s \<Longrightarrow> 3 \<le> length (split_on DOT s)"
  by (simp add: name_is_valid_def Let_def split: if_splits)

text \<open>The strings that \<open>parse\<close> hands to the digest after the parts themselves.\<close>

fun chain_inputs :: "(bytes \<Rightarrow> h256) \<Rightarrow> h256 \<Rightarrow> h256 list \<Rightarrow> bytes list" where
  "chain_inputs kc acc [] = []"
| "chain_inputs kc acc (t # ts) = (acc @ t) # chain_inputs kc (kc (acc @ t)) ts"

definition name_inputs :: "(bytes \<Rightarrow> h256) \<Rightarrow> bytes list \<Rightarrow> bytes set" where
  "name_inputs kc parts =
     set parts \<union> set (chain_inputs kc (kc (parts ! 0)) (map kc (drop 1 parts)))"

lemma chain_inj:
  assumes "length ts = length us" "list_all (\<lambda>h. length h = 32) (a # ts)" "list_all (\<lambda>h. length h = 32) (b # us)"
    and "digest32 kc" "inj_on kc (set (chain_inputs kc a ts) \<union> set (chain_inputs kc b us))"
    and "foldl (name_step kc) a ts = foldl (name_step kc) b us"
  shows "a = b \<and> ts = us"
  using assms
proof (induction ts us arbitrary: a b rule: list_induct2)
  case (Cons t ts u us)
  have "inj_on kc (set (chain_inputs kc (kc (a @ t)) ts) \<union> set (chain_inputs kc (kc (b @ u)) us))"
    by (rule inj_on_subset [OF Cons.prems(4)]) auto
  then have "kc (a @ t) = kc (b @ u)" "ts = us"
    using Cons.IH [of "kc (a @ t)" "kc (b @ u)"] Cons.prems by (auto simp: name_step_def)
  moreover from this(1) have "a @ t = b @ u" by (rule inj_onD [OF Cons.prems(4)]) simp_all
  ultimately show ?case using Cons.prems(1,2) by simp
qed simp

lemma name_parse_chain:
  assumes "name_parse kc s = Inr p"
  shows "package_id p = foldl (name_step kc) (kc (split_on DOT s ! 0)) (map kc (drop 1 (split_on DOT s)))"
proof -
  have v: "name_is_valid s" "name_parts s = Inr (split_on DOT s)"
    using assms by (auto simp: name_parse_def rbind_Inr name_parts_Inr)
  obtain x y ps where "split_on DOT s = x # y # ps"
    using name_valid_parts [OF v(1)] by (metis Suc_le_length_iff numeral_3_eq_3)
  with assms v show ?thesis by (auto simp: name_parse_def name_reduce_def Let_def numeral_2_eq_2)
qed

lemma package_id_inj:
  assumes "name_parse kc s = Inr p" "name_parse kc s' = Inr p'"
    and "length (split_on DOT s) = length (split_on DOT s')" "digest32 kc"
    and "inj_on kc (name_inputs kc (split_on DOT s) \<union> name_inputs kc (split_on DOT s'))"
    and "package_id p = package_id p'"
  shows "s = s'"
proof -
  let ?ps = "split_on DOT s" and ?qs = "split_on DOT s'"
  have "kc (?ps ! 0) = kc (?qs ! 0) \<and> map kc (drop 1 ?ps) = map kc (drop 1 ?qs)"
  proof (rule chain_inj)
    show "inj_on kc (set (chain_inputs kc (kc (?ps ! 0)) (map kc (drop 1 ?ps))) \<union>
                     set (chain_inputs kc (kc (?qs ! 0)) (map kc (drop 1 ?qs))))"
      by (rule inj_on_subset [OF assms(5)]) (auto simp: name_inputs_def)
  qed (use assms in \<open>auto simp: name_parse_chain list_all_iff\<close>)
  then have "map kc ?ps = map kc ?qs"
    by (cases ?ps; cases ?qs) auto
  moreover have "inj_on kc (set ?ps \<union> set ?qs)"
    by (rule inj_on_subset [OF assms(5)]) (auto simp: name_inputs_def)
  ultimately have "?ps = ?qs" by (simp add: inj_on_map_eq_map)
  then show ?thesis by (metis join_split)
qed

section \<open>Properties\<close>

text \<open>C24: An address made from a public key has 44 bytes, is valid, names the network it was made for,
  gives back the last twenty bytes of the hash of the key, and is read back by \<open>FromStr\<close> unchanged;
  none of the panics on the way can happen.\<close>

theorem pub_key_address:
  assumes "digest32 kc"
  shows "\<exists>a. get_address_from_pub_key kc pk net = Inr a \<and> length a = ADDRESS_LEN \<and> address_is_valid a \<and>
     address_network a = Some net \<and> to_address20 a = Inr (Some (drop 12 (point_hash kc pk))) \<and>
     address_from_str a = Inr a"
proof -
  have "length (point_hash kc pk) = 32" using assms by (simp add: point_hash_def)
  then obtain a where "encode_key net (point_hash kc pk) = Inr a" "address_of net (point_hash kc pk) a"
      "raw_address a = Inr a"
    using encode_key_address_of by metis
  then show ?thesis by (simp add: get_address_from_pub_key_def address_of_def)
qed

theorem pub_key_address_witness:
  "\<exists>a. get_address_from_pub_key (\<lambda>_. replicate 32 7) (replicate 65 4) Alphanet = Inr a \<and>
       address_network a = Some Alphanet \<and> to_address20 a = Inr (Some (replicate 20 7))"
proof -
  have "digest32 (\<lambda>_. replicate 32 7)" by (simp add: digest32_def HASH_LEN_def)
  moreover have "drop 12 (point_hash (\<lambda>_. replicate 32 7) (replicate 65 4)) = replicate 20 7"
    by (simp add: point_hash_def)
  ultimately show ?thesis using pub_key_address [of "\<lambda>_. replicate 32 7" "replicate 65 4" Alphanet] by metis
qed

text \<open>C25: A package name is bound by its package id: two valid names with the same number of parts and
  the same package id are the same name, as long as the digest has no collision among the strings
  hashed for the two.\<close>

theorem package_id_binds:
  assumes "name_parse kc s = Inr p" "name_parse kc s' = Inr p'"
    and "length (split_on DOT s) = length (split_on DOT s')" "digest32 kc"
    and "inj_on kc (name_inputs kc (split_on DOT s) \<union> name_inputs kc (split_on DOT s'))"
    and "package_id p = package_id p'"
  shows "s = s'"
  using assms by (rule package_id_inj)

text \<open>A digest without collisions on the strings of the two names of the witness.\<close>

definition demo_digest :: "bytes \<Rightarrow> h256" where
  "demo_digest x =
     (case x of [] \<Rightarrow> 0 | b # _ \<Rightarrow> b) # replicate 31 (case drop 32 x of [] \<Rightarrow> 0 | b # _ \<Rightarrow> b)"

lemma demo_digest32: "digest32 demo_digest"
  by (simp add: digest32_def demo_digest_def HASH_LEN_def)

lemma demo_digest_eqs:
  "demo_digest [b] = b # replicate 31 0"
  "demo_digest ((b # replicate 31 x) @ c # replicate 31 y) = b # replicate 31 c"
  by (simp_all add: demo_digest_def)

lemma demo_names:
  "split_on DOT (ascii ''a.b.c'') = [[97], [98], [99]]" "split_on DOT (ascii ''a.b.d'') = [[97], [98], [100]]"
  "name_is_valid (ascii ''a.b.c'')" "name_is_valid (ascii ''a.b.d'')"
  by (simp_all add: ascii_def DOT_def name_is_valid_def MAX_PACKAGE_NAME_LEN_def is_lower_byte_def name_char_def)

lemma demo_inputs:
  "name_inputs demo_digest [[97], [98], [c]] =
   {[97], [98], [c], (97 # replicate 31 0) @ 98 # replicate 31 0, (97 # replicate 31 98) @ c # replicate 31 0}"
  by (auto simp: name_inputs_def demo_digest_eqs simp del: replicate.simps append_Cons)

theorem package_id_binds_witness:
  "\<exists>p p'. name_parse demo_digest (ascii ''a.b.c'') = Inr p \<and> name_parse demo_digest (ascii ''a.b.d'') = Inr p' \<and>
     package_id p \<noteq> package_id p'"
proof -
  have inj: "inj_on demo_digest (name_inputs demo_digest [[97], [98], [99]] \<union> name_inputs demo_digest [[97], [98], [100]])"
    unfolding demo_inputs by (simp add: inj_on_def demo_digest_def)
  obtain p p' where p: "name_parse demo_digest (ascii ''a.b.c'') = Inr p"
      "name_parse demo_digest (ascii ''a.b.d'') = Inr p'"
    using demo_names by (simp add: name_parse_def name_parts_valid Let_def)
  moreover have "package_id p \<noteq> package_id p'"
  proof
    assume "package_id p = package_id p'"
    with package_id_binds [OF p _ demo_digest32] inj have "ascii ''a.b.c'' = ascii ''a.b.d''"
      by (simp add: demo_names)
    then show False by (simp add: ascii_def)
  qed
  ultimately show ?thesis by blast
qed

end
