(* ===== verification/Tx.thy ===== *)
theory Tx
  imports Address
begin

text \<open>
  Accounts, transactions and blocks: \<open>common/types/src/account.rs\<close>, \<open>common/types/src/tx.rs\<close>,
  \<open>common/types/src/block.rs\<close>, \<open>common/types/src/lib.rs\<close> and \<open>transaction/src/lib.rs\<close>.

  Package names are UTF-8 bytes.  The fields of \<open>SignedTransaction\<close> and \<open>Block\<close> that memoise a hash or
  an address are left out of the records: \<open>cache\<close> is modelled and shown to be transparent.  The
  protobuf encodings that prost provides are the parameter \<open>prost\<close>.
\<close>

section \<open>Accounts\<close>

record app_state =
  root_hash :: h256
  code_hash :: h256
  creator :: address
  version :: u32

record account_state =
  free_balance :: u64
  reserve_balance :: u64
  acc_nonce :: u64
  acc_app_state :: "app_state option"

definition account_state_new :: account_state where
  "account_state_new = \<lparr>free_balance = 0, reserve_balance = 0, acc_nonce = 1, acc_app_state = None\<rparr>"

section \<open>Transactions\<close>

datatype transaction_status = Confirmed | Pending | Queued | NotFound

datatype transaction_data =
    Payment address
  | Call address u64 u64 bytes
  | Create bytes bytes
  | Update address bytes bool
  | RawData bytes

record transaction =
  tx_nonce :: u64
  tx_chain_id :: u32
  genesis_hash :: h256
  tx_fee :: u64
  tx_value :: u64
  tx_data :: "transaction_data option"

primrec data_pack :: "transaction_data \<Rightarrow> bytes" where
  "data_pack (Payment to) = to_be_bytes (1 :: u32) @ to"
| "data_pack (Call app_id service method args) =
     to_be_bytes (2 :: u32) @ app_id @ to_be_bytes service @ to_be_bytes method @ args"
| "data_pack (Create package_name binary) = to_be_bytes (3 :: u32) @ package_name @ binary"
| "data_pack (Update app_id binary migrate) =
     to_be_bytes (4 :: u32) @ app_id @ to_be_bytes (if migrate then 1 else 0 :: u8) @ binary"
| "data_pack (RawData raw) = to_be_bytes (5 :: u32) @ raw"

definition pack :: "transaction \<Rightarrow> bytes" where
  "pack t =
     to_be_bytes (tx_nonce t) @ to_be_bytes (tx_chain_id t) @ genesis_hash t @ to_be_bytes (tx_fee t) @
     to_be_bytes (tx_value t) @ (case tx_data t of None \<Rightarrow> [] | Some d \<Rightarrow> data_pack d)"

definition sig_hash :: "(bytes \<Rightarrow> h256) \<Rightarrow> transaction \<Rightarrow> h256" where
  "sig_hash kc t = kc (pack t)"

primrec data_wf :: "transaction_data \<Rightarrow> bool" where
  "data_wf (Payment to) \<longleftrightarrow> length to = ADDRESS_LEN"
| "data_wf (Call app_id service method args) \<longleftrightarrow> length app_id = ADDRESS_LEN"
| "data_wf (Create package_name binary) \<longleftrightarrow> True"
| "data_wf (Update app_id binary migrate) \<longleftrightarrow> length app_id = ADDRESS_LEN"
| "data_wf (RawData raw) \<longleftrightarrow> True"

definition tx_wf :: "transaction \<Rightarrow> bool" where
  "tx_wf t \<longleftrightarrow> length (genesis_hash t) = 32 \<and> (case tx_data t of None \<Rightarrow> True | Some d \<Rightarrow> data_wf d)"

text \<open>\<open>cache\<close>: the value of the cell if it has one; otherwise what the closure gives, stored on success.\<close>

definition cache :: "'a option \<Rightarrow> 'e + 'a \<Rightarrow> 'a \<Rightarrow> 'a \<times> 'a option" where
  "cache cell f dflt =
     (case cell of
        Some h \<Rightarrow> (h, Some h)
      | None \<Rightarrow> (case f of Inr out \<Rightarrow> (out, Some out) | Inl _ \<Rightarrow> (dflt, None)))"

definition cache_coherent :: "'a option \<Rightarrow> 'e + 'a \<Rightarrow> bool" where
  "cache_coherent cell f \<longleftrightarrow> (case cell of None \<Rightarrow> True | Some h \<Rightarrow> f = Inr h)"

lemma cache_transparent:
  assumes "cache_coherent cell f"
  shows "fst (cache cell f d) = fst (cache None f d)" "cache_coherent (snd (cache cell f d)) f"
  using assms by (auto simp: cache_def cache_coherent_def split: option.splits sum.splits)

record signed_transaction =
  stx :: transaction
  sig_r :: h256
  sig_s :: h256
  sig_v :: u32

definition signed_new :: "bytes \<Rightarrow> transaction \<Rightarrow> crypto_error + signed_transaction" where
  "signed_new signature t =
     rbind (rsv signature) (\<lambda>(r, s, v). Inr \<lparr>stx = t, sig_r = r, sig_s = s, sig_v = ucast v\<rparr>)"

definition signed_hash :: "(bytes \<Rightarrow> h256) \<Rightarrow> signed_transaction \<Rightarrow> h256" where
  "signed_hash kc t = sig_hash kc (stx t)"

definition signed_cmp :: "(bytes \<Rightarrow> h256) \<Rightarrow> signed_transaction \<Rightarrow> signed_transaction \<Rightarrow> ordering" where
  "signed_cmp kc a b = cmp (signed_hash kc a) (signed_hash kc b)"

definition signed_eq :: "(bytes \<Rightarrow> h256) \<Rightarrow> signed_transaction \<Rightarrow> signed_transaction \<Rightarrow> bool" where
  "signed_eq kc a b \<longleftrightarrow> signed_hash kc a = signed_hash kc b"

definition signed_signature :: "k256 \<Rightarrow> signed_transaction \<Rightarrow> crypto_error + bytes" where
  "signed_signature K t =
     (case from_rsv K (sig_r t, sig_s t, ucast (sig_v t)) of Inl _ \<Rightarrow> Inl CryptoPanicked | Inr s \<Rightarrow> Inr s)"

definition raw_origin :: "k256 \<Rightarrow> (bytes \<Rightarrow> h256) \<Rightarrow> signed_transaction \<Rightarrow> crypto_error + bytes" where
  "raw_origin K kc t =
     rbind (from_rsv K (sig_r t, sig_s t, ucast (sig_v t))) (\<lambda>sig.
       recover_public_key K sig (sig_hash kc (stx t)))"

definition recover_from :: "k256 \<Rightarrow> (bytes \<Rightarrow> h256) \<Rightarrow> signed_transaction \<Rightarrow> address_error + address" where
  "recover_from K kc t =
     (case raw_origin K kc t of
        Inl e \<Rightarrow> Inl (SecretKeyError e)
      | Inr key \<Rightarrow> get_address_from_pub_key kc key (from_chain_id (tx_chain_id (stx t))))"

text \<open>\<open>from\<close>, \<open>sender\<close> and \<open>origin\<close>: a signature that does not recover gives the default address.\<close>

definition signed_from :: "k256 \<Rightarrow> (bytes \<Rightarrow> h256) \<Rightarrow> signed_transaction \<Rightarrow> address" where
  "signed_from K kc t = fst (cache None (recover_from K kc t) default_address)"

definition signed_to_closure ::
  "k256 \<Rightarrow> (bytes \<Rightarrow> h256) \<Rightarrow> signed_transaction \<Rightarrow> transaction_data \<Rightarrow> address_error + address" where
  "signed_to_closure K kc t d =
     (case d of
        Payment to \<Rightarrow> Inr to
      | Call app_id _ _ _ \<Rightarrow> Inr app_id
      | RawData _ \<Rightarrow> Inr default_address
      | Create package_name _ \<Rightarrow>
          (case address_network (signed_from K kc t) of
             None \<Rightarrow> Inl NetworkNotSpecified
           | Some net \<Rightarrow> get_address_from_package_name kc package_name net)
      | Update app_id _ _ \<Rightarrow> Inr app_id)"

definition signed_to :: "k256 \<Rightarrow> (bytes \<Rightarrow> h256) \<Rightarrow> signed_transaction \<Rightarrow> address" where
  "signed_to K kc t =
     (case tx_data (stx t) of
        None \<Rightarrow> default_address
      | Some d \<Rightarrow> fst (cache None (signed_to_closure K kc t d) default_address))"

definition signed_network :: "k256 \<Rightarrow> (bytes \<Rightarrow> h256) \<Rightarrow> signed_transaction \<Rightarrow> network" where
  "signed_network K kc t =
     (case address_network (signed_from K kc t) of None \<Rightarrow> Testnet | Some n \<Rightarrow> n)"

definition signed_data :: "signed_transaction \<Rightarrow> address_error + transaction_data" where
  "signed_data t = ok_or (tx_data (stx t)) AddressPanicked"

definition signed_nonce :: "signed_transaction \<Rightarrow> u64" where
  "signed_nonce t = tx_nonce (stx t)"

definition signed_fees :: "signed_transaction \<Rightarrow> u64" where
  "signed_fees t = tx_fee (stx t)"

definition signed_price :: "signed_transaction \<Rightarrow> u64" where
  "signed_price t = tx_value (stx t)"

section \<open>Signing\<close>

definition sign_tx :: "k256 \<Rightarrow> (bytes \<Rightarrow> h256) \<Rightarrow> h256 \<Rightarrow> transaction \<Rightarrow> crypto_error + signed_transaction" where
  "sign_tx K kc secret t =
     (let payload = sig_hash kc t in
      rbind (secret_from_bytes K secret) (\<lambda>sk.
        rbind (secret_sign K sk payload) (\<lambda>sig. signed_new sig t)))"

definition make_signed_transaction ::
  "k256 \<Rightarrow> (bytes \<Rightarrow> h256) \<Rightarrow> h256 \<Rightarrow> u64 \<Rightarrow> u64 \<Rightarrow> u64 \<Rightarrow> network \<Rightarrow> transaction_data \<Rightarrow>
   crypto_error + signed_transaction" where
  "make_signed_transaction K kc signer nonce amount fee net d =
     sign_tx K kc signer
       \<lparr>tx_nonce = nonce, tx_chain_id = chain_id net, genesis_hash = h256_zero, tx_fee = fee,
        tx_value = amount, tx_data = Some d\<rparr>"

definition make_payment_sign_transaction ::
  "k256 \<Rightarrow> (bytes \<Rightarrow> h256) \<Rightarrow> h256 \<Rightarrow> address \<Rightarrow> u64 \<Rightarrow> u64 \<Rightarrow> u64 \<Rightarrow> network \<Rightarrow>
   crypto_error + signed_transaction" where
  "make_payment_sign_transaction K kc signer to nonce amount fee net =
     sign_tx K kc signer
       \<lparr>tx_nonce = nonce, tx_chain_id = chain_id net, genesis_hash = h256_zero, tx_fee = fee,
        tx_value = amount, tx_data = Some (Payment to)\<rparr>"

text \<open>The order of \<open>NoncePricedTransaction\<close>: by nonce, and the higher value first.\<close>

definition nonce_priced_cmp :: "signed_transaction \<Rightarrow> signed_transaction \<Rightarrow> ordering" where
  "nonce_priced_cmp a b =
     (case cmp (signed_nonce a) (signed_nonce b) of
        Less \<Rightarrow> Less
      | Equal \<Rightarrow> reverse (cmp (signed_price a) (signed_price b))
      | Greater \<Rightarrow> Greater)"

section \<open>Protobuf layout\<close>

text \<open>
  What prost provides: the key and length that open an embedded message, the derived encodings of
  \<open>Transaction\<close>, \<open>BlockHeader\<close> and \<open>H256\<close>, and the \<open>uint32\<close> field.
\<close>

record prost =
  p_key_len :: "u32 \<Rightarrow> nat"
  p_varint_len :: "nat \<Rightarrow> nat"
  p_open :: "u32 \<Rightarrow> nat \<Rightarrow> bytes"
  p_tx :: "transaction \<Rightarrow> bytes"
  p_header :: "block_header \<Rightarrow> bytes"
  p_h256 :: "h256 \<Rightarrow> bytes"
  p_uint32 :: "u32 \<Rightarrow> u32 \<Rightarrow> bytes"
  p_uint32_len :: "u32 \<Rightarrow> u32 \<Rightarrow> nat"

definition prost_laws :: "prost \<Rightarrow> bool" where
  "prost_laws P \<longleftrightarrow>
     (\<forall>tag n. length (p_open P tag n) = p_key_len P tag + p_varint_len P n) \<and>
     (\<forall>tag v. length (p_uint32 P tag v) = p_uint32_len P tag v \<and> 0 < p_uint32_len P tag v)"

definition message_encode :: "prost \<Rightarrow> u32 \<Rightarrow> nat \<Rightarrow> bytes \<Rightarrow> bytes" where
  "message_encode P tag len raw = p_open P tag len @ raw"

definition message_encoded_len :: "prost \<Rightarrow> u32 \<Rightarrow> nat \<Rightarrow> nat" where
  "message_encoded_len P tag len = p_key_len P tag + p_varint_len P len + len"

definition signed_encode_raw :: "prost \<Rightarrow> signed_transaction \<Rightarrow> bytes" where
  "signed_encode_raw P t =
     message_encode P 1 (length (p_tx P (stx t))) (p_tx P (stx t)) @
     message_encode P 2 (length (p_h256 P (sig_r t))) (p_h256 P (sig_r t)) @
     message_encode P 3 (length (p_h256 P (sig_s t))) (p_h256 P (sig_s t)) @
     (if sig_v t \<noteq> 0 then p_uint32 P 4 (sig_v t) else [])"

definition signed_encoded_len :: "prost \<Rightarrow> signed_transaction \<Rightarrow> nat" where
  "signed_encoded_len P t =
     message_encoded_len P 1 (length (p_tx P (stx t))) +
     message_encoded_len P 2 (length (p_h256 P (sig_r t))) +
     message_encoded_len P 3 (length (p_h256 P (sig_s t))) +
     p_uint32_len P 4 (sig_v t)"

definition signed_size :: "prost \<Rightarrow> signed_transaction \<Rightarrow> u64" where
  "signed_size P t = of_nat (signed_encoded_len P t)"

definition signed_list_encode_raw :: "prost \<Rightarrow> signed_transaction list \<Rightarrow> bytes" where
  "signed_list_encode_raw P txs =
     concat (map (\<lambda>t. message_encode P 1 (signed_encoded_len P t) (signed_encode_raw P t)) txs)"

definition signed_list_encoded_len :: "prost \<Rightarrow> signed_transaction list \<Rightarrow> nat" where
  "signed_list_encoded_len P txs =
     p_key_len P 1 * length txs +
     sum_list (map (\<lambda>len. len + p_varint_len P len) (map (signed_encoded_len P) txs))"

section \<open>Blocks\<close>

record block =
  bk_header :: block_header
  bk_transactions :: "signed_transaction list"

definition block_encode_raw :: "prost \<Rightarrow> block \<Rightarrow> bytes" where
  "block_encode_raw P b =
     message_encode P 1 (length (p_header P (bk_header b))) (p_header P (bk_header b)) @
     concat (map (\<lambda>t. message_encode P 2 (signed_encoded_len P t) (signed_encode_raw P t)) (bk_transactions b))"

definition block_encoded_len :: "prost \<Rightarrow> block \<Rightarrow> nat" where
  "block_encoded_len P b =
     message_encoded_len P 1 (length (p_header P (bk_header b))) +
     sum_list (map (\<lambda>t. message_encoded_len P 2 (signed_encoded_len P t)) (bk_transactions b))"

definition block_hash :: "(bytes \<Rightarrow> h256) \<Rightarrow> block \<Rightarrow> h256" where
  "block_hash sha b = header_hash sha (bk_header b)"

definition block_level :: "block \<Rightarrow> u32" where
  "block_level b = level (bk_header b)"

definition block_parent_hash :: "block \<Rightarrow> h256" where
  "block_parent_hash b = parent_hash (bk_header b)"

definition header_eq :: "(bytes \<Rightarrow> h256) \<Rightarrow> block_header \<Rightarrow> block_header \<Rightarrow> bool" where
  "header_eq sha a b \<longleftrightarrow> header_hash sha a = header_hash sha b"

definition block_eq :: "(bytes \<Rightarrow> h256) \<Rightarrow> block \<Rightarrow> block \<Rightarrow> bool" where
  "block_eq sha a b \<longleftrightarrow> block_hash sha a = block_hash sha b"

record indexed_header =
  ih_hash :: h256
  ih_raw :: block_header

definition indexed_from_raw :: "(bytes \<Rightarrow> h256) \<Rightarrow> block_header \<Rightarrow> indexed_header" where
  "indexed_from_raw sha h = \<lparr>ih_hash = header_hash sha h, ih_raw = h\<rparr>"

definition height_sorted_cmp :: "block_header \<Rightarrow> block_header \<Rightarrow> ordering" where
  "height_sorted_cmp a b = cmp (level a) (level b)"

section \<open>The comparisons are orders\<close>

interpretation signed_ord: rust_ord "signed_cmp kc"
  unfolding signed_cmp_def by (rule rust_ord_key)

interpretation height_ord: rust_ord height_sorted_cmp
  unfolding height_sorted_cmp_def by (rule rust_ord_key)

lemma nonce_priced_lex:
  "nonce_priced_cmp = lex_cmp (\<lambda>a b. cmp (signed_nonce a) (signed_nonce b))
                              (\<lambda>a b. reverse (cmp (signed_price a) (signed_price b)))"
  by (intro ext) (simp add: nonce_priced_cmp_def lex_cmp_def split: ordering.split)

interpretation nonce_priced_ord: rust_ord nonce_priced_cmp
  unfolding nonce_priced_lex by (intro rust_ord_intros)

section \<open>What the signed bytes determine\<close>

lemma to_be_bytes_inj:
  "LENGTH('a) = 8 * (LENGTH('a::len) div 8) \<Longrightarrow> to_be_bytes (a :: 'a word) = to_be_bytes b \<longleftrightarrow> a = b"
  by (metis from_be_to_be)

lemma to_be_bytes_inject [simp]:
  "to_be_bytes (a :: u8) = to_be_bytes b \<longleftrightarrow> a = b"
  "to_be_bytes (c :: u32) = to_be_bytes d \<longleftrightarrow> c = d"
  "to_be_bytes (e :: u64) = to_be_bytes f \<longleftrightarrow> e = f"
  by (simp_all add: to_be_bytes_inj)

lemma tag_neq:
  "a \<noteq> b \<Longrightarrow> to_be_bytes (a :: u32) @ xs \<noteq> to_be_bytes b @ ys"
  by (auto simp: append_eq_append_conv)

lemma data_pack_nonempty: "data_pack d \<noteq> []"
  by (cases d) (auto dest: arg_cong [of _ _ length])

definition same_data :: "transaction_data option \<Rightarrow> transaction_data option \<Rightarrow> bool" where
  "same_data d e \<longleftrightarrow>
     d = e \<or> (\<exists>n b n' b'. d = Some (Create n b) \<and> e = Some (Create n' b') \<and> n @ b = n' @ b')"

lemma data_pack_eq:
  "data_wf d \<Longrightarrow> data_wf e \<Longrightarrow> data_pack d = data_pack e \<longleftrightarrow> same_data (Some d) (Some e)"
  by (cases d; cases e) (auto simp: same_data_def tag_neq append_eq_append_conv split: if_splits)

lemma pack_eq:
  assumes "tx_wf t" "tx_wf u"
  shows "pack t = pack u \<longleftrightarrow>
    t\<lparr>tx_data := None\<rparr> = u\<lparr>tx_data := None\<rparr> \<and> same_data (tx_data t) (tx_data u)"
proof -
  let ?p = "\<lambda>d. case d of None \<Rightarrow> [] | Some d \<Rightarrow> data_pack d"
  have d: "?p (tx_data t) = ?p (tx_data u) \<longleftrightarrow> same_data (tx_data t) (tx_data u)"
    using assms data_pack_eq data_pack_nonempty data_pack_nonempty [symmetric]
    by (auto simp: tx_wf_def same_data_def split: option.splits)
  have "pack t = pack u \<longleftrightarrow> tx_nonce t = tx_nonce u \<and> tx_chain_id t = tx_chain_id u \<and>
     genesis_hash t = genesis_hash u \<and> tx_fee t = tx_fee u \<and> tx_value t = tx_value u \<and>
     ?p (tx_data t) = ?p (tx_data u)"
    using assms by (simp add: pack_def append_eq_append_conv tx_wf_def)
  then show ?thesis unfolding d by (cases t; cases u) auto
qed

section \<open>Signing and recovering\<close>

lemma rsv_join:
  assumes "rsv sig = Inr (r, s, v)"
  shows "r @ s @ [v] = sig" "length r = 32" "length s = 32"
proof -
  have l: "length sig = 65" "r = take 32 sig" "s = take 32 (drop 32 sig)" "v = sig ! 64"
    using assms by (auto simp: rsv_def split: if_splits)
  have "drop 64 sig = [sig ! 64]"
    using l(1) Cons_nth_drop_Suc [of 64 sig] by simp
  moreover have "take 32 (drop 32 sig) @ drop 64 sig = drop 32 sig"
    by (metis append_take_drop_id drop_drop numeral_Bit0)
  ultimately show "r @ s @ [v] = sig" "length r = 32" "length s = 32"
    using l append_take_drop_id [of 32 sig] by simp_all
qed

lemma ucast_u8_u32_u8: "(ucast (ucast (v :: u8) :: u32) :: u8) = v"
  by (rule bit_word_eqI) (auto simp: bit_simps)

lemma sign_tx_spec:
  assumes "k256_laws K" "k_secret_ok K sk"
  obtains t' where "sign_tx K kc sk t = Inr t'" "stx t' = t" "raw_origin K kc t' = Inr (k_public K sk)"
proof -
  let ?sig = "k_sign K sk (sig_hash kc t)"
  have laws: "length ?sig = 65" "k_signature_ok K ?sig"
      "k_recover K ?sig (sig_hash kc t) = Some (k_public K sk)"
    using assms by (auto simp: k256_laws_def)
  obtain r s v where r: "rsv ?sig = Inr (r, s, v)" using laws(1) by (auto simp: rsv_def)
  note j = rsv_join [OF r]
  let ?t = "\<lparr>stx = t, sig_r = r, sig_s = s, sig_v = ucast v\<rparr>"
  have "sign_tx K kc sk t = Inr ?t"
    using assms(2) r by (simp add: sign_tx_def secret_from_bytes_def secret_sign_def signed_new_def Let_def)
  moreover have "raw_origin K kc ?t = Inr (k_public K sk)"
    using j laws by (simp add: raw_origin_def from_rsv_def signature_from_bytes_def recover_public_key_def ucast_u8_u32_u8)
  ultimately show ?thesis using that by simp
qed

section \<open>Lengths of the protobuf encodings\<close>

lemma length_message_encode:
  "prost_laws P \<Longrightarrow> length (message_encode P tag len raw) = p_key_len P tag + p_varint_len P len + length raw"
  by (simp add: message_encode_def prost_laws_def)

lemma length_signed_encode_raw:
  assumes "prost_laws P"
  shows "length (signed_encode_raw P t) + (if sig_v t = 0 then p_uint32_len P 4 0 else 0) = signed_encoded_len P t"
  using assms
  by (simp add: signed_encode_raw_def signed_encoded_len_def length_message_encode message_encoded_len_def)
     (simp add: prost_laws_def)

section \<open>Properties\<close>

text \<open>C26: Two transactions have the same signed bytes exactly when all their fixed fields agree and so do
  their payloads, except that of an application creation only the concatenation of the package name
  and the binary is signed, not where one ends and the other begins.\<close>

theorem pack_determines:
  assumes "tx_wf t" "tx_wf u"
  shows "pack t = pack u \<longleftrightarrow>
    t\<lparr>tx_data := None\<rparr> = u\<lparr>tx_data := None\<rparr> \<and>
    (tx_data t = tx_data u \<or>
     (\<exists>n b n' b'. tx_data t = Some (Create n b) \<and> tx_data u = Some (Create n' b') \<and> n @ b = n' @ b'))"
  using pack_eq [OF assms] by (simp only: same_data_def)

definition demo_tx :: "transaction_data \<Rightarrow> transaction" where
  "demo_tx d = \<lparr>tx_nonce = 1, tx_chain_id = 0, genesis_hash = h256_zero, tx_fee = 10, tx_value = 5, tx_data = Some d\<rparr>"

theorem pack_determines_witness:
  "tx_wf (demo_tx (Create (ascii ''a.b.c'') [100])) \<and>
   pack (demo_tx (Create (ascii ''a.b.c'') [100])) = pack (demo_tx (Create (ascii ''a.b.cd'') [])) \<and>
   pack (demo_tx (RawData [1])) \<noteq> pack (demo_tx (RawData [2]))"
proof -
  have w: "tx_wf (demo_tx d)" if "data_wf d" for d using that by (simp add: tx_wf_def demo_tx_def)
  have "pack (demo_tx (Create (ascii ''a.b.c'') [100])) = pack (demo_tx (Create (ascii ''a.b.cd'') []))"
    by (subst pack_determines) (simp_all add: w, simp add: demo_tx_def ascii_def)
  moreover have "pack (demo_tx (RawData [1])) \<noteq> pack (demo_tx (RawData [2]))"
    by (subst pack_determines) (simp_all add: w, simp add: demo_tx_def)
  ultimately show ?thesis using w by simp
qed

text \<open>C27: Signing and recovering agree: a transaction signed with a secret key is accepted by \<open>sign_tx\<close>,
  carries the transaction that was signed, and its sender is the address of that secret key on the
  network of its chain id.\<close>

theorem signer_is_sender:
  assumes "k256_laws K" "digest32 kc" "k_secret_ok K sk"
  shows "\<exists>t'. sign_tx K kc sk t = Inr t' \<and> stx t' = t \<and>
     get_address_from_secret_key K kc sk (from_chain_id (tx_chain_id t)) = Inr (signed_from K kc t')"
proof -
  obtain t' where t': "sign_tx K kc sk t = Inr t'" "stx t' = t" "raw_origin K kc t' = Inr (k_public K sk)"
    using sign_tx_spec [OF assms(1,3)] .
  let ?net = "from_chain_id (tx_chain_id t)" and ?key = "point_hash kc (k_public K sk)"
  have "length ?key = 32" using assms(2) by (simp add: point_hash_def)
  then obtain a where a: "encode_key ?net ?key = Inr a" "raw_address a = Inr a"
    using encode_key_address_of by metis
  have "signed_from K kc t' = a"
    using t'(2,3) a by (simp add: signed_from_def recover_from_def get_address_from_pub_key_def cache_def)
  moreover have "get_address_from_secret_key K kc sk ?net = Inr a"
    using assms(3) a by (simp add: get_address_from_secret_key_def secret_from_bytes_def secret_public_def)
  ultimately show ?thesis using t'(1,2) by blast
qed

definition demo_k256 :: k256 where
  "demo_k256 =
     \<lparr>k_secret_ok = (\<lambda>sk. length sk = 32), k_public = (\<lambda>sk. 4 # sk @ replicate 32 0),
      k_sign = (\<lambda>sk msg. sk @ replicate 33 0), k_point_ok = (\<lambda>p. length p = 65),
      k_signature_ok = (\<lambda>s. length s = 65),
      k_recover = (\<lambda>sig msg. Some (4 # take 32 sig @ replicate 32 0)), k_verify = (\<lambda>pk msg sig. True)\<rparr>"

lemma demo_k256_laws: "k256_laws demo_k256"
  by (auto simp: k256_laws_def demo_k256_def)

theorem signer_is_sender_witness:
  "\<exists>t'. sign_tx demo_k256 demo_digest h256_zero (demo_tx (RawData [1])) = Inr t' \<and>
     get_address_from_secret_key demo_k256 demo_digest h256_zero Mainnet = Inr (signed_from demo_k256 demo_digest t')"
proof -
  have "k_secret_ok demo_k256 h256_zero" by (simp add: demo_k256_def)
  from signer_is_sender [OF demo_k256_laws demo_digest32 this, of "demo_tx (RawData [1])"]
  show ?thesis by (auto simp: demo_tx_def from_chain_id_def)
qed

text \<open>\<open>encoded_len\<close> of a signed transaction is the number of bytes that \<open>encode_raw\<close> writes exactly when
  the recovery id \<open>v\<close> is not zero: a zero \<open>v\<close> is skipped by the writer but counted in the length, so the
  length prefix of every list or block that holds the transaction is wrong.\<close>

theorem encoded_len_iff:
  assumes "prost_laws P"
  shows "length (signed_encode_raw P t) = signed_encoded_len P t \<longleftrightarrow> sig_v t \<noteq> 0"
proof -
  have "0 < p_uint32_len P 4 0" using assms unfolding prost_laws_def by blast
  with length_signed_encode_raw [OF assms, of t] show ?thesis by (auto split: if_splits)
qed

definition demo_prost :: prost where
  "demo_prost =
     \<lparr>p_key_len = (\<lambda>_. 1), p_varint_len = (\<lambda>_. 1), p_open = (\<lambda>tag n. [ucast tag, of_nat n]),
      p_tx = (\<lambda>_. []), p_header = (\<lambda>_. []), p_h256 = (\<lambda>h. h), p_uint32 = (\<lambda>tag v. [ucast tag, ucast v]),
      p_uint32_len = (\<lambda>_ _. 2)\<rparr>"

definition demo_signed :: "u32 \<Rightarrow> signed_transaction" where
  "demo_signed v = \<lparr>stx = demo_tx (RawData []), sig_r = h256_zero, sig_s = h256_zero, sig_v = v\<rparr>"

theorem encoded_len_iff_witness:
  "prost_laws demo_prost \<and>
   length (signed_encode_raw demo_prost (demo_signed 0)) \<noteq> signed_encoded_len demo_prost (demo_signed 0) \<and>
   length (signed_encode_raw demo_prost (demo_signed 1)) = signed_encoded_len demo_prost (demo_signed 1)"
proof -
  have "prost_laws demo_prost" by (simp add: prost_laws_def demo_prost_def)
  then show ?thesis by (simp add: encoded_len_iff) (simp add: demo_signed_def)
qed

end
