(* ===== verification/Consensus.thy ===== *)
theory Consensus
  imports Tx
begin

text \<open>
  The Barossa protocol (\<open>consensus/src\<close>): block rewards, difficulty retargeting and header checks.

  A \<open>ChainHeadReader\<close> is the record of its three lookups.  \<open>unwrap\<close>, \<open>expect\<close> and the overflow checks
  of the 256-bit integers are the error \<open>ConsPanicked\<close>; words wrap elsewhere.  The clock is an argument.
  \<open>finalize\<close> works on the state of the chain and is modelled with it.
\<close>

datatype consensus_error =
    ParentBlockNotFound
  | BlockBadTarget
  | BadPow u32 u32
  | FutureTimestamp
  | ReaderError
  | ConsPanicked

section \<open>Constants and rewards\<close>

type_synonym u128 = "128 word"

definition BLOCK_MAX_FUTURE :: int where
  "BLOCK_MAX_FUTURE = 2 * 60 * 60"

definition RETARGETING_FACTOR :: u32 where
  "RETARGETING_FACTOR = 4"

definition TARGET_SPACING_SECONDS :: u32 where
  "TARGET_SPACING_SECONDS = 2 * 60"

definition DOUBLE_SPACING_SECONDS :: u32 where
  "DOUBLE_SPACING_SECONDS = 2 * TARGET_SPACING_SECONDS"

definition TARGET_TIMESPAN_SECONDS :: u32 where
  "TARGET_TIMESPAN_SECONDS = 2 * 7 * 24 * 60 * 60"

definition MIN_TIMESPAN :: u32 where
  "MIN_TIMESPAN = TARGET_TIMESPAN_SECONDS div RETARGETING_FACTOR"

definition MAX_TIMESPAN :: u32 where
  "MAX_TIMESPAN = TARGET_TIMESPAN_SECONDS * RETARGETING_FACTOR"

definition RETARGETING_INTERVAL :: u32 where
  "RETARGETING_INTERVAL = TARGET_TIMESPAN_SECONDS div TARGET_SPACING_SECONDS"

definition MAX_BLOCK_HEIGHT :: u128 where
  "MAX_BLOCK_HEIGHT = 25000000"

definition INITIAL_REWARD :: u128 where
  "INITIAL_REWARD = 10 * 1000000000"

definition SPREAD :: u128 where
  "SPREAD = MAX_BLOCK_HEIGHT ^ 4 div INITIAL_REWARD"

definition miner_reward :: "u128 \<Rightarrow> u128" where
  "miner_reward block_height = INITIAL_REWARD - block_height ^ 4 div SPREAD"

definition protocol_miner_reward :: "u32 \<Rightarrow> u64" where
  "protocol_miner_reward lvl = ucast (miner_reward (ucast lvl))"

section \<open>Difficulty\<close>

record head_reader =
  get_header :: "h256 \<Rightarrow> u32 \<Rightarrow> consensus_error + indexed_header option"
  get_header_by_hash :: "h256 \<Rightarrow> consensus_error + indexed_header option"
  get_header_by_level :: "u32 \<Rightarrow> consensus_error + indexed_header option"

text \<open>\<open>.unwrap()\<close> and \<open>.unwrap().expect(..)\<close> on a lookup, and the checked operations of \<open>U256\<close>.\<close>

definition unwrap :: "consensus_error + 'a \<Rightarrow> consensus_error + 'a" where
  "unwrap r = (case r of Inl _ \<Rightarrow> Inl ConsPanicked | Inr x \<Rightarrow> Inr x)"

definition unwrap_expect :: "consensus_error + 'a option \<Rightarrow> consensus_error + 'a" where
  "unwrap_expect r = rbind (unwrap r) (\<lambda>x. ok_or x ConsPanicked)"

definition u256_mul :: "u256 \<Rightarrow> u256 \<Rightarrow> consensus_error + u256" where
  "u256_mul a b = (if unat a * unat b < 2 ^ 256 then Inr (a * b) else Inl ConsPanicked)"

definition u256_add :: "u256 \<Rightarrow> u256 \<Rightarrow> consensus_error + u256" where
  "u256_add a b = (if unat a + unat b < 2 ^ 256 then Inr (a + b) else Inl ConsPanicked)"

definition u256_div :: "u256 \<Rightarrow> u256 \<Rightarrow> consensus_error + u256" where
  "u256_div a b = (if b = 0 then Inl ConsPanicked else Inr (a div b))"

definition into_compact :: "u256 \<Rightarrow> consensus_error + u32" where
  "into_compact v = ok_or (compact_from_u256 v) ConsPanicked"

definition is_retarget_height :: "u32 \<Rightarrow> bool" where
  "is_retarget_height height \<longleftrightarrow> height mod RETARGETING_INTERVAL = 0"

definition range_constrain :: "int \<Rightarrow> int \<Rightarrow> int \<Rightarrow> int" where
  "range_constrain v lo hi = min (max v lo) hi"

definition retarget_timespan :: "u32 \<Rightarrow> u32 \<Rightarrow> u32" where
  "retarget_timespan retarget_timestamp last_timestamp =
     (let timespan = uint last_timestamp - uint retarget_timestamp
      in of_int (range_constrain timespan (uint MIN_TIMESPAN) (uint MAX_TIMESPAN)))"

definition work_required_retarget ::
  "indexed_header \<Rightarrow> u32 \<Rightarrow> head_reader \<Rightarrow> u32 \<Rightarrow> consensus_error + u32" where
  "work_required_retarget parent_header height chain max_work_bits =
     rbind (unwrap_expect (get_header_by_level chain (height - RETARGETING_INTERVAL))) (\<lambda>retarget_header.
       let retarget_timestamp = time (ih_raw retarget_header);
           last_timestamp = time (ih_raw parent_header);
           last_bits = difficulty (ih_raw parent_header);
           retarget = compact_into_u256 last_bits;
           maximum = compact_into_u256 max_work_bits
       in rbind (u256_mul retarget (ucast (retarget_timespan retarget_timestamp last_timestamp))) (\<lambda>retarget.
            rbind (u256_div retarget (ucast TARGET_TIMESPAN_SECONDS)) (\<lambda>retarget.
              if maximum < retarget then Inr max_work_bits else into_compact retarget)))"

text \<open>\<open>work_required_testnet\<close>: the difficulties of the ancestors, nearest first, and the first that counts.\<close>

fun collect_bits :: "head_reader \<Rightarrow> nat \<Rightarrow> h256 \<Rightarrow> consensus_error + u32 list" where
  "collect_bits chain 0 block_ref = Inr []"
| "collect_bits chain (Suc n) block_ref =
     rbind (unwrap (get_header_by_hash chain block_ref)) (\<lambda>r.
       case r of
         None \<Rightarrow> Inr []
       | Some h \<Rightarrow>
           rbind (collect_bits chain n (parent_hash (ih_raw h))) (\<lambda>bits.
             Inr (difficulty (ih_raw h) # bits)))"

fun pick_bits :: "u32 \<Rightarrow> u32 \<Rightarrow> nat \<Rightarrow> u32 list \<Rightarrow> u32" where
  "pick_bits max_bits height index [] = max_bits"
| "pick_bits max_bits height index (b # bs) =
     (if b \<noteq> max_bits \<or> is_retarget_height (height - of_nat index - 1) then b
      else pick_bits max_bits height (Suc index) bs)"

definition work_required_testnet ::
  "network \<Rightarrow> h256 \<Rightarrow> u32 \<Rightarrow> u32 \<Rightarrow> head_reader \<Rightarrow> consensus_error + u32" where
  "work_required_testnet net parent now height chain =
     (if height = 0 then Inl ConsPanicked
      else
        rbind (unwrap_expect (get_header_by_hash chain parent)) (\<lambda>parent_header.
          let max_time_gap = time (ih_raw parent_header) + DOUBLE_SPACING_SECONDS in
          rbind (into_compact (max_difficulty net)) (\<lambda>max_bits.
            if max_time_gap < now then Inr max_bits
            else
              rbind (collect_bits chain (unat RETARGETING_INTERVAL) parent) (\<lambda>bits.
                Inr (pick_bits max_bits height 0 bits)))))"

definition work_required ::
  "network \<Rightarrow> h256 \<Rightarrow> u32 \<Rightarrow> u32 \<Rightarrow> head_reader \<Rightarrow> consensus_error + u32" where
  "work_required net parent now height chain =
     rbind (into_compact (max_difficulty net)) (\<lambda>max_bits.
       if height = 0 then Inr max_bits
       else
         rbind (unwrap_expect (get_header_by_hash chain parent)) (\<lambda>parent_header.
           if is_retarget_height height then work_required_retarget parent_header height chain max_bits
           else if net = Testnet then work_required_testnet net parent now height chain
           else Inr (difficulty (ih_raw parent_header))))"

section \<open>The adjusted difficulty\<close>

text \<open>\<open>suitable_block\<close>: three compare-and-swaps leave the median by time in the middle.\<close>

definition suitable_block :: "indexed_header \<Rightarrow> head_reader \<Rightarrow> consensus_error + indexed_header" where
  "suitable_block header2 chain =
     rbind (unwrap_expect (get_header_by_hash chain (parent_hash (ih_raw header2)))) (\<lambda>header1.
       rbind (unwrap_expect (get_header_by_hash chain (parent_hash (ih_raw header1)))) (\<lambda>header0.
         let (header0, header2) =
               (if time (ih_raw header2) < time (ih_raw header0) then (header2, header0) else (header0, header2));
             (header0, header1) =
               (if time (ih_raw header1) < time (ih_raw header0) then (header1, header0) else (header0, header1));
             (header1, header2) =
               (if time (ih_raw header2) < time (ih_raw header1) then (header2, header1) else (header1, header2))
         in Inr header1))"

definition block_proof :: "indexed_header \<Rightarrow> consensus_error + u256" where
  "block_proof header =
     (case compact_to_u256 (difficulty (ih_raw header)) of
        Inl _ \<Rightarrow> Inl ConsPanicked
      | Inr p \<Rightarrow>
          rbind (u256_add p 1) (\<lambda>d. rbind (u256_div (NOT p) d) (\<lambda>q. u256_add q 1)))"

text \<open>The loop of \<open>compute_work_between_blocks\<close> follows parents until it meets \<open>first\<close>; \<open>None\<close> is a run
  that never does.\<close>

partial_function (option) work_loop ::
  "head_reader \<Rightarrow> h256 \<Rightarrow> u256 \<Rightarrow> h256 \<Rightarrow> (consensus_error + u256) option" where
  "work_loop chain first chain_work prev_hash =
     (case unwrap_expect (get_header_by_hash chain prev_hash) of
        Inl e \<Rightarrow> Some (Inl e)
      | Inr header \<Rightarrow>
          (case rbind (block_proof header) (u256_add chain_work) of
             Inl e \<Rightarrow> Some (Inl e)
           | Inr chain_work \<Rightarrow>
               if parent_hash (ih_raw header) = first then Some (Inr chain_work)
               else work_loop chain first chain_work (parent_hash (ih_raw header))))"

definition compute_work_between_blocks ::
  "h256 \<Rightarrow> indexed_header \<Rightarrow> head_reader \<Rightarrow> (consensus_error + u256) option" where
  "compute_work_between_blocks first last_header chain =
     (case block_proof last_header of
        Inl e \<Rightarrow> Some (Inl e)
      | Inr chain_work \<Rightarrow> work_loop chain first chain_work (parent_hash (ih_raw last_header)))"

definition clamp_timespan :: "u32 \<Rightarrow> u32" where
  "clamp_timespan actual_timespan =
     (if 288 * TARGET_SPACING_SECONDS < actual_timespan then 288 * TARGET_SPACING_SECONDS
      else if actual_timespan < 72 * TARGET_SPACING_SECONDS then 72 * TARGET_SPACING_SECONDS
      else actual_timespan)"

definition compute_target ::
  "indexed_header \<Rightarrow> indexed_header \<Rightarrow> head_reader \<Rightarrow> (consensus_error + u256) option" where
  "compute_target first_header last_header chain =
     map_option (\<lambda>r.
       rbind r (\<lambda>work.
         rbind (u256_mul work (ucast TARGET_SPACING_SECONDS)) (\<lambda>work.
           let actual_timespan = clamp_timespan (time (ih_raw last_header) - time (ih_raw first_header)) in
           rbind (u256_div work (ucast actual_timespan)) (\<lambda>work. u256_div (NOT work) work))))
       (compute_work_between_blocks (ih_hash first_header) last_header chain)"

definition work_required_adjusted ::
  "network \<Rightarrow> indexed_header \<Rightarrow> u32 \<Rightarrow> u32 \<Rightarrow> head_reader \<Rightarrow> (consensus_error + u32) option" where
  "work_required_adjusted net parent_header now lvl chain =
     (if net = Testnet \<and> time (ih_raw parent_header) + DOUBLE_SPACING_SECONDS < now
      then Some (into_compact (max_difficulty net))
      else
        (let last_level = lvl - 1; first_level = last_level - 144;
             headers =
               rbind (suitable_block parent_header chain) (\<lambda>last_header.
                 rbind (unwrap_expect (get_header_by_level chain first_level)) (\<lambda>first_header.
                   rbind (suitable_block first_header chain) (\<lambda>first_header.
                     Inr (first_header, last_header))))
         in case headers of
              Inl e \<Rightarrow> Some (Inl e)
            | Inr (first_header, last_header) \<Rightarrow>
                map_option (\<lambda>r.
                  rbind r (\<lambda>next_target.
                    if max_difficulty net < next_target then into_compact (max_difficulty net)
                    else into_compact next_target))
                  (compute_target first_header last_header chain)))"

section \<open>Header checks\<close>

definition verify_header ::
  "(bytes \<Rightarrow> h256) \<Rightarrow> network \<Rightarrow> head_reader \<Rightarrow> int \<Rightarrow> block_header \<Rightarrow> consensus_error + unit" where
  "verify_header sha net chain current_time header =
     rbind (get_header chain (parent_hash header) (level header - 1)) (\<lambda>r.
       rbind (ok_or r ParentBlockNotFound) (\<lambda>_.
         if \<not> uint (time header) < BLOCK_MAX_FUTURE + current_time then Inl FutureTimestamp
         else
           rbind (into_compact (max_difficulty net)) (\<lambda>max_bits.
             if \<not> is_valid_proof_of_work max_bits (difficulty header) (header_hash sha header)
             then Inl (BadPow max_bits (difficulty header))
             else Inr ())))"

definition prepare_header :: "network \<Rightarrow> head_reader \<Rightarrow> block_header \<Rightarrow> consensus_error + block_header" where
  "prepare_header net chain header =
     rbind (get_header chain (parent_hash header) (level header - 1)) (\<lambda>r.
       rbind (ok_or r ParentBlockNotFound) (\<lambda>parent.
         let header = header\<lparr>bh_chain_id := chain_id net\<rparr> in
         rbind (work_required net (ih_hash parent) (time header) (level header + 1) chain) (\<lambda>bits.
           Inr (header\<lparr>difficulty := bits\<rparr>))))"

definition protocol_work_required ::
  "network \<Rightarrow> head_reader \<Rightarrow> h256 \<Rightarrow> u32 \<Rightarrow> consensus_error + u32" where
  "protocol_work_required net chain parent now =
     rbind (get_header_by_hash chain parent) (\<lambda>r.
       rbind (ok_or r ParentBlockNotFound) (\<lambda>parent_header.
         work_required net (ih_hash parent_header) now (level (ih_raw parent_header) + 1) chain))"

definition get_genesis_header :: "network \<Rightarrow> consensus_error + block_header" where
  "get_genesis_header net =
     rbind (into_compact (max_difficulty net)) (\<lambda>bits.
       Inr \<lparr>parent_hash = replicate 32 0, receipt_hash = replicate 32 0, tx_root = replicate 32 0,
            state_root =
              [167, 166, 177, 200, 75, 77, 145, 25, 149, 154, 251, 233, 94, 46, 215, 162, 118, 43,
               119, 114, 196, 232, 42, 88, 209, 4, 27, 184, 193, 138, 143, 109],
            mix_nonce = from_be_bytes (replicate 32 0), coinbase = replicate 44 0, difficulty = bits,
            bh_chain_id = chain_id net, level = 0, time = 0, bh_nonce = 0\<rparr>)"

section \<open>Lemmas on rewards\<close>

lemmas reward_consts = MAX_BLOCK_HEIGHT_def INITIAL_REWARD_def

lemma SPREAD_value: "SPREAD = 39062500000000000000"
  by (simp add: SPREAD_def reward_consts)

lemma unat_pow:
  assumes "unat (h :: 'a::len word) ^ k < 2 ^ LENGTH('a)"
  shows "unat (h ^ k) = unat h ^ k"
proof -
  have "h ^ k = of_nat (unat h ^ k)" by simp
  then show ?thesis using assms unat_of_nat [of "unat h ^ k", where ?'a = 'a] by (simp only: mod_less)
qed

definition decay :: "u32 \<Rightarrow> nat" where
  "decay lvl = unat lvl ^ 4 div 39062500000000000000"

lemma decay_word: "unat ((ucast lvl :: u128) ^ 4 div SPREAD) = decay lvl" "decay lvl < 9000000000000000000"
proof -
  have "unat lvl < 2 ^ LENGTH(32)" by (rule unsigned_less)
  then have "unat lvl ^ 4 < (2 ^ 32) ^ 4" by (intro power_strict_mono) simp_all
  then have b: "unat lvl ^ 4 < 2 ^ 128" by simp
  then have "unat ((ucast lvl :: u128) ^ 4) = unat lvl ^ 4"
    by (subst unat_pow) (simp_all add: unat_ucast_up)
  then show "unat ((ucast lvl :: u128) ^ 4 div SPREAD) = decay lvl"
    by (simp add: SPREAD_value unat_div decay_def)
  have "decay lvl \<le> 2 ^ 128 div 39062500000000000000"
    unfolding decay_def using b by (intro div_le_mono) simp
  then show "decay lvl < 9000000000000000000" by simp
qed

lemma decay_mono: "l \<le> m \<Longrightarrow> decay l \<le> decay m"
  unfolding decay_def by (intro div_le_mono power_mono) (simp_all add: word_le_nat_alt)

lemma decay_limit: "decay 25000000 = 10000000000" "decay 25000001 = 10000001600"
  by (simp_all add: decay_def)

lemma protocol_reward_value:
  "decay lvl \<le> 10000000000 \<Longrightarrow> unat (protocol_miner_reward lvl) = 10000000000 - decay lvl"
  "10000000000 < decay lvl \<Longrightarrow> unat (protocol_miner_reward lvl) = 2 ^ 64 + 10000000000 - decay lvl"
proof -
  define q where "q = (ucast lvl :: u128) ^ 4 div SPREAD"
  have q: "unat q = decay lvl" "decay lvl < 9000000000000000000" using decay_word by (simp_all add: q_def)
  have r: "unat (protocol_miner_reward lvl) = unat (INITIAL_REWARD - q) mod 2 ^ 64"
    by (simp add: protocol_miner_reward_def miner_reward_def q_def [symmetric] unat_ucast_mod)
  have i: "unat INITIAL_REWARD = 10000000000" by (simp add: INITIAL_REWARD_def)
  show "unat (protocol_miner_reward lvl) = 10000000000 - decay lvl" if "decay lvl \<le> 10000000000"
  proof -
    have "q \<le> INITIAL_REWARD" using that by (simp only: word_le_nat_alt q i)
    then have "unat (INITIAL_REWARD - q) = 10000000000 - decay lvl" by (simp only: unat_sub q i)
    then show ?thesis unfolding r by simp
  qed
  show "unat (protocol_miner_reward lvl) = 2 ^ 64 + 10000000000 - decay lvl" if "10000000000 < decay lvl"
  proof -
    have "unat (INITIAL_REWARD - q) = 2 ^ 128 + 10000000000 - decay lvl"
      using that by (simp add: unat_sub_if' q i)
    moreover have "2 ^ 128 + 10000000000 - decay lvl =
        (2 ^ 64 + 10000000000 - decay lvl) + 2 ^ 64 * (2 ^ 64 - 1 :: nat)"
      using q(2) by simp
    moreover have "2 ^ 64 + 10000000000 - decay lvl < 2 ^ 64" using that by simp
    ultimately show ?thesis unfolding r by (simp only: mod_mult_self2 mod_less)
  qed
qed

section \<open>Lemmas on retargeting\<close>

lemmas timespan_consts = MIN_TIMESPAN_def MAX_TIMESPAN_def TARGET_TIMESPAN_SECONDS_def RETARGETING_FACTOR_def

lemma timespan_values: "MIN_TIMESPAN = 302400" "MAX_TIMESPAN = 4838400" "TARGET_TIMESPAN_SECONDS = 1209600"
  by (simp_all add: timespan_consts)

lemma retarget_timespan_bounds: "302400 \<le> unat (retarget_timespan a b)" "unat (retarget_timespan a b) \<le> 4838400"
proof -
  define x where "x = range_constrain (uint b - uint a) 302400 4838400"
  have x: "302400 \<le> x" "x \<le> 4838400" by (auto simp: x_def range_constrain_def)
  have "retarget_timespan a b = of_int x"
    by (simp add: retarget_timespan_def timespan_values x_def Let_def)
  moreover have "uint (of_int x :: u32) = x"
    using x by (simp add: uint_word_of_int)
  ultimately have "int (unat (retarget_timespan a b)) = x" by (simp flip: uint_nat)
  with x show "302400 \<le> unat (retarget_timespan a b)" "unat (retarget_timespan a b) \<le> 4838400" by linarith+
qed

lemma max_difficulty_small: "unat (max_difficulty net) * 4838400 < 2 ^ 256"
  by (cases net)
     (simp_all add: TESTNET_MAX_DIFFICULTY_def ALPHA_MAX_DIFFICULTY_def MAINNET_MAX_DIFFICULTY_def u256_of_limbs_def)

lemma max_bits_decode:
  obtains c w where "into_compact (max_difficulty net) = Inr c" "compact_to_u256 c = Inr w" "w \<le> max_difficulty net"
  using compact_accurate [of "max_difficulty net"] by (metis into_compact_def ok_or_simps(2))

lemma retarget_arith:
  assumes "302400 \<le> (ts :: nat)" "ts \<le> 4838400" "r = x * ts div 1209600"
  shows "r \<le> 4 * x" "x \<le> 4 * r + 3"
proof -
  have "x * ts div 1209600 \<le> x * 4838400 div 1209600" using assms(2) by (intro div_le_mono mult_le_mono2)
  then show "r \<le> 4 * x" using assms(3) by simp
  have "x * 302400 div 1209600 \<le> x * ts div 1209600" using assms(1) by (intro div_le_mono mult_le_mono2)
  moreover have "x * 302400 div 1209600 = x div 4"
    using div_mult_mult1_if [of 302400 x 4] by (simp add: mult.commute)
  ultimately show "x \<le> 4 * r + 3" using assms(3) by linarith
qed

lemma retarget_result:
  assumes old: "compact_to_u256 (difficulty (ih_raw parent)) = Inr old"
    and mx: "compact_to_u256 maxb = Inr maximum" "maximum \<le> max_difficulty net" "old \<le> maximum"
    and rd: "get_header_by_level chain (height - RETARGETING_INTERVAL) = Inr (Some rh)"
  shows "\<exists>c w. work_required_retarget parent height chain maxb = Inr c \<and> compact_to_u256 c = Inr w \<and>
     w \<le> maximum \<and> unat w \<le> 4 * unat old \<and> unat old \<le> 5 * unat w + 5"
proof -
  define ts where "ts = retarget_timespan (time (ih_raw rh)) (time (ih_raw parent))"
  have ts: "302400 \<le> unat ts" "unat ts \<le> 4838400" using retarget_timespan_bounds by (simp_all add: ts_def)
  have le: "unat old \<le> unat maximum" "unat maximum \<le> unat (max_difficulty net)"
    using mx by (simp_all add: word_le_nat_alt)
  have "unat old * unat ts \<le> unat (max_difficulty net) * 4838400" using le ts(2) by (intro mult_le_mono) simp_all
  then have small: "unat old * unat ts < 2 ^ 256" using max_difficulty_small [of net] by linarith
  then have mul: "u256_mul old (ucast ts) = Inr (old * ucast ts)" "unat (old * ucast ts) = unat old * unat ts"
    by (simp_all add: u256_mul_def unat_ucast_up unat_word_ariths(2))
  define r where "r = old * ucast ts div ucast TARGET_TIMESPAN_SECONDS"
  have T: "unat (ucast TARGET_TIMESPAN_SECONDS :: u256) = 1209600" by (simp add: timespan_values)
  have div: "u256_div (old * ucast ts) (ucast TARGET_TIMESPAN_SECONDS) = Inr r"
    by (simp add: u256_div_def r_def timespan_values)
  have r: "unat r = unat old * unat ts div 1209600" unfolding r_def unat_div mul(2) T ..
  note ar = retarget_arith [OF ts r]
  have step: "work_required_retarget parent height chain maxb = (if maximum < r then Inr maxb else into_compact r)"
    using rd old mx(1) mul(1) div
    by (simp add: work_required_retarget_def unwrap_expect_def unwrap_def compact_into_u256_def Let_def ts_def)
  show ?thesis
  proof (cases "maximum < r")
    case True
    then have "unat maximum < unat r" by (simp add: word_less_nat_alt)
    then show ?thesis using True step mx(1) le ar by auto
  next
    case False
    obtain c w where c: "compact_from_u256 r = Some c" "compact_to_u256 c = Inr w" "w \<le> r"
        "(unat r - unat w) * 2 ^ 15 \<le> unat r"
      using compact_accurate [of r] by metis
    have "unat w \<le> unat r" "unat r \<le> unat maximum" using c(3) False by (simp_all add: word_le_nat_alt word_less_nat_alt not_less)
    moreover from c(4) this(1) have "4 * unat r \<le> 5 * unat w" by simp
    ultimately show ?thesis
      using step False c(1,2) ar by (intro exI [of _ c] exI [of _ w]) (simp add: into_compact_def word_le_nat_alt)
  qed
qed

lemma pow_valid:
  "is_valid_proof_of_work maxb bits h \<longleftrightarrow>
   (\<exists>maximum target. compact_to_u256 maxb = Inr maximum \<and> compact_to_u256 bits = Inr target \<and>
      target \<le> maximum \<and> from_be_bytes h \<le> target)"
  by (cases "compact_to_u256 maxb"; cases "compact_to_u256 bits") (auto simp: is_valid_proof_of_work_def)

section \<open>Lemmas on the work loop\<close>

fun parent_path :: "head_reader \<Rightarrow> h256 \<Rightarrow> indexed_header list \<Rightarrow> h256 \<Rightarrow> bool" where
  "parent_path chain p [] q \<longleftrightarrow> p = q"
| "parent_path chain p (h # hs) q \<longleftrightarrow>
     get_header_by_hash chain p = Inr (Some h) \<and> parent_path chain (parent_hash (ih_raw h)) hs q"

definition add_proof :: "indexed_header \<Rightarrow> u256 \<Rightarrow> consensus_error + u256" where
  "add_proof h w = rbind (block_proof h) (u256_add w)"

lemma work_loop_path:
  "parent_path chain p hs first \<Longrightarrow> hs \<noteq> [] \<Longrightarrow> \<forall>h \<in> set (butlast hs). parent_hash (ih_raw h) \<noteq> first \<Longrightarrow>
   work_loop chain first w p = Some (rfold add_proof hs w)"
proof (induction hs arbitrary: p w)
  case (Cons h hs)
  have step: "work_loop chain first w p =
    (case add_proof h w of
       Inl e \<Rightarrow> Some (Inl e)
     | Inr w \<Rightarrow> if parent_hash (ih_raw h) = first then Some (Inr w)
               else work_loop chain first w (parent_hash (ih_raw h)))"
    using Cons.prems(1) by (subst work_loop.simps) (simp add: unwrap_expect_def unwrap_def add_proof_def)
  show ?case
  proof (cases "add_proof h w")
    case (Inl e)
    then show ?thesis using step by simp
  next
    case (Inr w')
    show ?thesis
    proof (cases "hs = []")
      case True
      then show ?thesis using step Inr Cons.prems(1) by simp
    next
      case False
      then show ?thesis using step Inr Cons by simp
    qed
  qed
qed simp

section \<open>Properties\<close>


definition demo_head :: "u32 \<Rightarrow> u32 \<Rightarrow> indexed_header" where
  "demo_head bits t =
     \<lparr>ih_hash = replicate 32 1,
      ih_raw = \<lparr>parent_hash = replicate 32 2, receipt_hash = h256_zero, tx_root = h256_zero, state_root = h256_zero,
                mix_nonce = 0, coinbase = default_address, difficulty = bits, bh_chain_id = 0, level = 1,
                time = t, bh_nonce = 0\<rparr>\<rparr>"

definition demo_reader :: head_reader where
  "demo_reader =
     \<lparr>get_header = (\<lambda>_ _. Inr (Some (demo_head 0x1b0404cb 0))),
      get_header_by_hash = (\<lambda>h. Inr (if h = replicate 32 2 then Some (demo_head 0x1b0404cb 0\<lparr>ih_raw := (ih_raw (demo_head 0x1b0404cb 0))\<lparr>parent_hash := replicate 32 3\<rparr>\<rparr>) else None)),
      get_header_by_level = (\<lambda>_. Inr (Some (demo_head 0x1b0404cb 0)))\<rparr>"

lemma demo_bits: "compact_to_u256 0x1b0404cb = Inr (push_bit 192 0x0404cb)" "compact_to_u256 0x1d00ffff = Inr (push_bit 208 0xffff)"
  by (simp_all add: compact_to_u256_def Let_def)


text \<open>C29: The reward schedule: up to level 25,000,000 the reward is the initial reward less the fourth
  power of the level over the spread, it never grows with the level, never exceeds the initial reward
  and reaches zero at the last of these levels; neither the power nor the subtraction wraps.\<close>

theorem reward_schedule:
  assumes "l \<le> m" "m \<le> 25000000"
  shows "unat (protocol_miner_reward m) = 10000000000 - unat m ^ 4 div 39062500000000000000 \<and>
     protocol_miner_reward m \<le> protocol_miner_reward l \<and> protocol_miner_reward l \<le> 10000000000 \<and>
     protocol_miner_reward 25000000 = 0"
proof -
  have d: "decay l \<le> decay m" "decay m \<le> 10000000000" "decay 25000000 \<le> 10000000000"
    using decay_mono [OF assms(1)] decay_mono [OF assms(2)] decay_limit(1) by simp_all
  have v: "unat (protocol_miner_reward m) = 10000000000 - decay m"
     "unat (protocol_miner_reward l) = 10000000000 - decay l" "unat (protocol_miner_reward 25000000) = 0"
    using d decay_limit(1) protocol_reward_value(1) [of m] protocol_reward_value(1) [of l]
      protocol_reward_value(1) [of 25000000] by simp_all
  have "protocol_miner_reward 25000000 = 0" using v(3) by (simp add: unat_eq_zero)
  moreover have "10000000000 - decay m \<le> 10000000000 - decay l" using d(1) by (rule diff_le_mono2)
  ultimately show ?thesis using v(1,2) by (simp add: decay_def word_le_nat_alt)
qed

theorem reward_schedule_witness:
  "protocol_miner_reward 20000000 \<le> protocol_miner_reward 10000000 \<and>
   unat (protocol_miner_reward 20000000) = 5904000000"
  using reward_schedule [of 10000000 20000000] by simp

text \<open>Past level 25,000,000 the subtraction wraps: every later level is rewarded with at least \<open>2 ^ 63\<close>
  units, more than nine hundred million times the initial reward.\<close>

theorem reward_wraps:
  assumes "25000000 < lvl"
  shows "2 ^ 63 \<le> unat (protocol_miner_reward lvl)"
proof -
  have "25000001 \<le> lvl" using assms by (simp add: word_le_nat_alt word_less_nat_alt)
  then have "10000000000 < decay lvl" using decay_mono [of 25000001 lvl] decay_limit(2) by simp
  then show ?thesis using protocol_reward_value(2) [of lvl] decay_word(2) [of lvl] by simp
qed

theorem reward_wraps_witness: "2 ^ 63 \<le> unat (protocol_miner_reward 25000001)"
  by (rule reward_wraps) simp

text \<open>C30: What \<open>verify_header\<close> accepts, exactly: the parent is known, the timestamp is less than two hours
  ahead, and the hash read as a number is at most the header's own target, which decodes and is at
  most the network's maximum.  The difficulty that \<open>work_required\<close> computes plays no part.\<close>

theorem verify_header_accepts:
  "verify_header sha net chain now h = Inr () \<longleftrightarrow>
     (\<exists>p. get_header chain (parent_hash h) (level h - 1) = Inr (Some p)) \<and>
     uint (time h) < 7200 + now \<and>
     (\<exists>maxb maximum target. compact_from_u256 (max_difficulty net) = Some maxb \<and>
        compact_to_u256 maxb = Inr maximum \<and> compact_to_u256 (difficulty h) = Inr target \<and>
        target \<le> maximum \<and> from_be_bytes (header_hash sha h) \<le> target)"
proof -
  obtain maxb where m: "into_compact (max_difficulty net) = Inr maxb" "compact_from_u256 (max_difficulty net) = Some maxb"
    using compact_accurate [of "max_difficulty net"] by (metis into_compact_def ok_or_simps(2))
  have "verify_header sha net chain now h = Inr () \<longleftrightarrow>
     (\<exists>p. get_header chain (parent_hash h) (level h - 1) = Inr (Some p)) \<and> uint (time h) < 7200 + now \<and>
     is_valid_proof_of_work maxb (difficulty h) (header_hash sha h)"
    by (cases "get_header chain (parent_hash h) (level h - 1)")
       (auto simp: verify_header_def m ok_or_def BLOCK_MAX_FUTURE_def split: option.splits)
  then show ?thesis unfolding pow_valid m(2) by auto
qed

text \<open>C31: Summing the work between two blocks ends: when following parents from \<open>prev\<close> leads through the
  headers \<open>hs\<close> to the first block, the loop returns after exactly those headers, with the sum of their
  proofs or the panic of the first one whose proof overflows or does not decode.\<close>

theorem work_between_blocks_ends:
  assumes "parent_path chain prev hs first" "hs \<noteq> []" "\<forall>h \<in> set (butlast hs). parent_hash (ih_raw h) \<noteq> first"
  shows "work_loop chain first w prev = Some (rfold (\<lambda>h w. rbind (block_proof h) (u256_add w)) hs w)"
  using work_loop_path [OF assms] by (simp add: add_proof_def [abs_def])

theorem work_between_blocks_ends_witness:
  "\<exists>h. work_loop demo_reader (replicate 32 3) 5 (replicate 32 2) =
       Some (rfold (\<lambda>h w. rbind (block_proof h) (u256_add w)) [h] 5)"
proof -
  define h where "h = demo_head 0x1b0404cb 0\<lparr>ih_raw := (ih_raw (demo_head 0x1b0404cb 0))\<lparr>parent_hash := replicate 32 3\<rparr>\<rparr>"
  have "parent_path demo_reader (replicate 32 2) [h] (replicate 32 3)"
    by (simp add: demo_reader_def h_def)
  moreover have "[h] \<noteq> []" "\<forall>h \<in> set (butlast [h]). parent_hash (ih_raw h) \<noteq> replicate 32 3" by simp_all
  ultimately show ?thesis using work_between_blocks_ends [of demo_reader "replicate 32 2" "[h]" "replicate 32 3" 5] by blast
qed

end
