(* ===== verification/State.thy ===== *)
theory State
  imports Tree_Db Consensus
begin

text \<open>
  The account state: \<open>KvDB\<close> of \<open>state/src/kvdb.rs\<close>, \<open>State\<close> of \<open>state/src/lib.rs\<close>, the registration of a
  namespace from \<open>dapps/builtin/src/lib.rs\<close>, and the block finalisation of \<open>consensus/src/barossa.rs\<close>.

  The operations are actions on the record \<open>state\<close>.  Amounts are \<open>u64\<close> and wrap.  The virtual machine, the
  protobuf reflection that builds the arguments of the registry call and the \<open>bincode\<close> codecs are parameters.
\<close>

section \<open>Key-value databases\<close>

record kvdb =
  kv_inner :: memory_store
  kv_read_only :: bool
  kv_staging :: "bytes \<Rightarrow> bytes option"

definition kv_open :: "memory_store \<Rightarrow> kvdb" where
  "kv_open db = \<lparr>kv_inner = db, kv_read_only = False, kv_staging = (\<lambda>_. None)\<rparr>"

definition kv_open_read_only_at_root :: "memory_store \<Rightarrow> kvdb" where
  "kv_open_read_only_at_root db = \<lparr>kv_inner = db, kv_read_only = True, kv_staging = (\<lambda>_. None)\<rparr>"

definition kv_put :: "('k \<Rightarrow> bytes) \<Rightarrow> ('v \<Rightarrow> bytes) \<Rightarrow> 'k \<Rightarrow> 'v \<Rightarrow> (kvdb, state_error, unit) action" where
  "kv_put kenc venc key val s =
     (if kv_read_only s then (Inr (), s\<lparr>kv_staging := (kv_staging s)(kenc key \<mapsto> venc val)\<rparr>)
      else (let (r, d) = mem_put (kenc key) (venc val) (kv_inner s) in (r, s\<lparr>kv_inner := d\<rparr>)))"

definition kv_get :: "('k \<Rightarrow> bytes) \<Rightarrow> (bytes \<Rightarrow> state_error + 'v) \<Rightarrow> kvdb \<Rightarrow> 'k \<Rightarrow> state_error + 'v" where
  "kv_get kenc vdec s key =
     (case kv_staging s (kenc key) of
        Some entry \<Rightarrow> vdec entry
      | None \<Rightarrow> rbind (mem_get (kv_inner s) (kenc key)) vdec)"

definition kv_delete :: "('k \<Rightarrow> bytes) \<Rightarrow> 'k \<Rightarrow> (kvdb, state_error, unit) action" where
  "kv_delete kenc key s =
     (if kv_read_only s then (Inr (), s\<lparr>kv_staging := (kv_staging s)(kenc key := None)\<rparr>)
      else (let (r, d) = mem_delete (kenc key) (kv_inner s) in (r, s\<lparr>kv_inner := d\<rparr>)))"

section \<open>The state\<close>

record app_metadata =
  binary :: bytes
  descriptor :: bytes

type_synonym app_state_key = "address \<times> h256"

record chain_env =
  ce_k256 :: k256
  ce_keccak :: "bytes \<Rightarrow> h256"
  ce_trie :: "(address, account_state) tree_env"
  ce_app_key :: "app_state_key \<Rightarrow> bytes"
  ce_metadata_enc :: "app_metadata \<Rightarrow> bytes"
  ce_metadata_dec :: "bytes \<Rightarrow> state_error + app_metadata"

record state =
  st_trie :: treedb
  st_appdata :: kvdb
  st_metadata :: kvdb
  st_read_only :: bool

definition on_trie :: "(treedb, state_error, 'a) action \<Rightarrow> (state, state_error, 'a) action" where
  "on_trie m s = (let (r, t) = m (st_trie s) in (r, s\<lparr>st_trie := t\<rparr>))"

definition on_appdata :: "(kvdb, state_error, 'a) action \<Rightarrow> (state, state_error, 'a) action" where
  "on_appdata m s = (let (r, t) = m (st_appdata s) in (r, s\<lparr>st_appdata := t\<rparr>))"

definition on_metadata :: "(kvdb, state_error, 'a) action \<Rightarrow> (state, state_error, 'a) action" where
  "on_metadata m s = (let (r, t) = m (st_metadata s) in (r, s\<lparr>st_metadata := t\<rparr>))"

definition state_new :: "chain_env \<Rightarrow> memory_store \<Rightarrow> memory_store \<Rightarrow> memory_store \<Rightarrow> state_error + state" where
  "state_new env accounts appdata metadata =
     rbind (tdb_open (ce_trie env) accounts) (\<lambda>trie.
       Inr \<lparr>st_trie = trie, st_appdata = kv_open appdata, st_metadata = kv_open metadata, st_read_only = False\<rparr>)"

definition root_hash_of :: "state \<Rightarrow> h256" where
  "root_hash_of s = tdb_root (st_trie s)"

text \<open>Every failed read counts as a new account; a read that does not return stays one.\<close>

definition account_or_new :: "state_error + account_state option \<Rightarrow> state_error + account_state" where
  "account_or_new r = (case r of
       Inr (Some account_state) \<Rightarrow> Inr account_state
     | Inr None \<Rightarrow> Inr account_state_new
     | Inl e \<Rightarrow> if e = StateHangs then Inl StateHangs else Inr account_state_new)"

definition get_account_state :: "chain_env \<Rightarrow> state \<Rightarrow> address \<Rightarrow> state_error + account_state" where
  "get_account_state env s a = account_or_new (tdb_get (ce_trie env) (st_trie s) a)"

definition get_account_state_at_root :: "chain_env \<Rightarrow> state \<Rightarrow> h256 \<Rightarrow> address \<Rightarrow> state_error + account_state" where
  "get_account_state_at_root env s at_root a = account_or_new (tdb_get_at_root (ce_trie env) (st_trie s) at_root a)"

definition state_nonce :: "chain_env \<Rightarrow> state \<Rightarrow> address \<Rightarrow> state_error + u64" where
  "state_nonce env s a = rbind (get_account_state env s a) (\<lambda>acc. Inr (acc_nonce acc))"

definition state_balance :: "chain_env \<Rightarrow> state \<Rightarrow> address \<Rightarrow> state_error + u64" where
  "state_balance env s a = rbind (get_account_state env s a) (\<lambda>acc. Inr (free_balance acc))"

definition set_account_state :: "chain_env \<Rightarrow> address \<Rightarrow> account_state \<Rightarrow> (state, state_error, h256) action" where
  "set_account_state env a acc = bind (on_trie (tdb_put (ce_trie env) a acc)) (\<lambda>_. gets root_hash_of)"

definition credit_balance :: "chain_env \<Rightarrow> address \<Rightarrow> u64 \<Rightarrow> (state, state_error, h256) action" where
  "credit_balance env a amount =
     bind (gets (\<lambda>s. get_account_state env s a)) (\<lambda>r.
     bind (lift_res r) (\<lambda>acc.
     bind (on_trie (tdb_put (ce_trie env) a (acc\<lparr>free_balance := free_balance acc + amount\<rparr>))) (\<lambda>_.
       gets root_hash_of)))"

definition debit_balance :: "chain_env \<Rightarrow> address \<Rightarrow> u64 \<Rightarrow> (state, state_error, h256) action" where
  "debit_balance env a amount =
     bind (gets (\<lambda>s. get_account_state env s a)) (\<lambda>r.
     bind (lift_res r) (\<lambda>acc.
     bind (on_trie (tdb_put (ce_trie env) a (acc\<lparr>free_balance := free_balance acc - amount\<rparr>))) (\<lambda>_.
       gets root_hash_of)))"

definition state_reset :: "chain_env \<Rightarrow> h256 \<Rightarrow> (state, state_error, unit) action" where
  "state_reset env root = on_trie (tdb_reset (ce_trie env) root)"

definition state_commit :: "chain_env \<Rightarrow> (state, state_error, unit) action" where
  "state_commit env =
     bind (gets st_read_only) (\<lambda>read_only.
     bind (on_trie (tdb_commit (ce_trie env) (\<not> read_only))) (\<lambda>_. ret ()))"

definition get_state_at :: "chain_env \<Rightarrow> state \<Rightarrow> h256 \<Rightarrow> state_error + state" where
  "get_state_at env s root =
     rbind (tdb_open_read_only_at_root (ce_trie env) (tdb_db (st_trie s)) root) (\<lambda>trie.
       Inr \<lparr>st_trie = trie, st_appdata = kv_open_read_only_at_root (kv_inner (st_appdata s)),
            st_metadata = kv_open_read_only_at_root (kv_inner (st_metadata s)), st_read_only = True\<rparr>)"

definition state_snapshot :: "chain_env \<Rightarrow> state \<Rightarrow> state_error + state" where
  "state_snapshot env s = get_state_at env s (root_hash_of s)"

definition get_account_state_with_proof ::
  "chain_env \<Rightarrow> state \<Rightarrow> address \<Rightarrow> state_error + account_state \<times> smt_proof \<times> h256" where
  "get_account_state_with_proof env s a =
     rbind (tdb_get_with_proof (ce_trie env) (st_trie s) a) (\<lambda>(acc, prf). Inr (acc, prf, tdb_root (st_trie s)))"

section \<open>Applications\<close>

definition smt_value_enc :: "chain_env \<Rightarrow> smt \<Rightarrow> bytes" where
  "smt_value_enc env tree = (case smt_encode (te_smt_enc (ce_trie env)) tree of Inr b \<Rightarrow> b | Inl _ \<Rightarrow> [])"

definition smt_value_dec :: "chain_env \<Rightarrow> bytes \<Rightarrow> state_error + smt" where
  "smt_value_dec env raw = map_err SmtError (smt_decode (te_smt_dec (ce_trie env)) raw)"

definition set_app_data :: "chain_env \<Rightarrow> app_state_key \<Rightarrow> smt \<Rightarrow> (state, state_error, unit) action" where
  "set_app_data env key app_data = on_appdata (kv_put (ce_app_key env) (smt_value_enc env) key app_data)"

definition get_app_data :: "chain_env \<Rightarrow> state \<Rightarrow> address \<Rightarrow> state_error + smt" where
  "get_app_data env s app_id =
     (case tdb_get (ce_trie env) (st_trie s) app_id of
        Inr (Some acc) \<Rightarrow>
          (case acc_app_state acc of
             None \<Rightarrow> Inl (Bail ''app not initialized'')
           | Some app \<Rightarrow>
               Inr (case kv_get (ce_app_key env) (smt_value_dec env) (st_appdata s) (app_id, root_hash app) of
                      Inr tree \<Rightarrow> tree
                    | Inl _ \<Rightarrow> smt_new))
      | Inl e \<Rightarrow> if e = StateHangs then Inl StateHangs else Inl (Bail ''app not found'')
      | _ \<Rightarrow> Inl (Bail ''app not found''))"

definition app_metadata_of :: "chain_env \<Rightarrow> state \<Rightarrow> address \<Rightarrow> state_error + app_metadata" where
  "app_metadata_of env s app_id =
     rbind (tdb_get (ce_trie env) (st_trie s) app_id) (\<lambda>found.
     rbind (ok_or found (Bail ''app not found'')) (\<lambda>acc.
       case acc_app_state acc of
         None \<Rightarrow> Inl (Bail ''address is not an application address'')
       | Some app \<Rightarrow> kv_get id (ce_metadata_dec env) (st_metadata s) (code_hash app)))"

definition get_app_source :: "chain_env \<Rightarrow> state \<Rightarrow> address \<Rightarrow> state_error + bytes" where
  "get_app_source env s app_id = rbind (app_metadata_of env s app_id) (\<lambda>bins. Inr (binary bins))"

definition get_app_descriptor :: "chain_env \<Rightarrow> state \<Rightarrow> address \<Rightarrow> state_error + bytes" where
  "get_app_descriptor env s app_id = rbind (app_metadata_of env s app_id) (\<lambda>bins. Inr (descriptor bins))"

definition set_app_metadata :: "chain_env \<Rightarrow> bytes \<Rightarrow> bytes \<Rightarrow> (state, state_error, unit) action" where
  "set_app_metadata env bin desc =
     on_metadata (kv_put id (ce_metadata_enc env) (ce_keccak env bin) \<lparr>binary = bin, descriptor = desc\<rparr>)"

text \<open>The virtual machine reads the state and returns the changes it asks for.\<close>

record changelist =
  account_changes :: "(address \<times> account_state) list"
  logs :: "(bytes \<times> bytes) list"
  storage :: smt

record application_call =
  ac_app_id :: address
  ac_service :: u64
  ac_method :: u64
  ac_args :: bytes

record wasm_vm =
  execute_app_create :: "state \<Rightarrow> address \<Rightarrow> u64 \<Rightarrow> bytes \<times> bytes \<Rightarrow> state_error + bytes \<times> changelist"
  execute_app_tx :: "state \<Rightarrow> address \<Rightarrow> u64 \<Rightarrow> application_call \<Rightarrow> state_error + changelist"
  execute_app_query :: "state \<Rightarrow> application_call \<Rightarrow> state_error + bytes"
  vm_twox :: "bytes \<Rightarrow> u64"
  vm_register_args :: "h256 \<Rightarrow> address \<Rightarrow> state_error + bytes"
  vm_owner_args :: "h256 \<Rightarrow> state_error + bytes"
  vm_decode_owner :: "bytes \<Rightarrow> state_error + address"

type_synonym accounts = "(address, account_state) btmap"

definition insert_changes :: "changelist \<Rightarrow> accounts \<Rightarrow> accounts" where
  "insert_changes cl states = fold (\<lambda>(a, acc). btm_insert a acc) (account_changes cl) states"

text \<open>\<open>states.get_mut(a).and_then(|s| s.app_state.as_mut())\<close> and the write of its root.\<close>

definition set_app_root :: "address \<Rightarrow> h256 \<Rightarrow> accounts \<Rightarrow> state_error + accounts" where
  "set_app_root a root states =
     (case btm_get states a of
        None \<Rightarrow> Inl (Bail ''app state not found'')
      | Some acc \<Rightarrow>
          (case acc_app_state acc of
             None \<Rightarrow> Inl (Bail ''app state not found'')
           | Some app \<Rightarrow> Inr (btm_insert a (acc\<lparr>acc_app_state := Some (app\<lparr>root_hash := root\<rparr>)\<rparr>) states)))"

definition NAME_REGISTRY :: bytes where
  "NAME_REGISTRY = ascii ''network.odax.nameregistry''"

definition ADMIN :: address where
  "ADMIN = ascii ''odanx1kz27mpjh2qnj68psan63gmtw3q46zha2wfucd2''"

definition addr_res :: "address_error + 'a \<Rightarrow> state_error + 'a" where
  "addr_res r = map_err (\<lambda>e. if e = AddressPanicked then StatePanicked else Bail ''address'') r"

definition is_namespace_registered :: "chain_env \<Rightarrow> wasm_vm \<Rightarrow> package_name \<Rightarrow> signed_transaction \<Rightarrow> state \<Rightarrow> state_error + bool" where
  "is_namespace_registered env vm pkn tx s =
     rbind (addr_res (get_address_from_package_name (ce_keccak env) NAME_REGISTRY (signed_network (ce_k256 env) (ce_keccak env) tx))) (\<lambda>app_id.
     rbind (vm_owner_args vm (organisation_id pkn)) (\<lambda>args.
     rbind (execute_app_query vm s \<lparr>ac_app_id = app_id, ac_service = vm_twox vm (ascii ''service.Registry''),
              ac_method = vm_twox vm (ascii ''/service.Registry/GetOwner''), ac_args = args\<rparr>) (\<lambda>raw.
     rbind (vm_decode_owner vm raw) (\<lambda>owner.
       Inr (\<not> list_all (\<lambda>b. b = 0) owner \<and> owner \<noteq> default_address)))))"

definition register_namespace :: "chain_env \<Rightarrow> wasm_vm \<Rightarrow> accounts \<Rightarrow> signed_transaction \<Rightarrow> (state, state_error, accounts) action" where
  "register_namespace env vm states tx =
     bind (lift_res (addr_res (signed_data tx))) (\<lambda>d. case d of
         Create name bin \<Rightarrow>
           bind (lift_res (addr_res (name_parse (ce_keccak env) name))) (\<lambda>pkn.
           bind (lift_res (addr_res (get_address_from_package_name (ce_keccak env) NAME_REGISTRY (signed_network (ce_k256 env) (ce_keccak env) tx)))) (\<lambda>app_id.
           bind (lift_res (vm_register_args vm (organisation_id pkn) (signed_from (ce_k256 env) (ce_keccak env) tx))) (\<lambda>args.
           bind (gets (\<lambda>s. execute_app_tx vm s ADMIN 0 \<lparr>ac_app_id = app_id, ac_service = vm_twox vm (ascii ''service.Registry''),
                   ac_method = vm_twox vm (ascii ''/service.Registry/Register''), ac_args = args\<rparr>)) (\<lambda>r.
           bind (lift_res r) (\<lambda>changes.
           bind (lift_res (set_app_root app_id (smt_root (storage changes)) (insert_changes changes states))) (\<lambda>states.
           bind (set_app_data env (app_id, smt_root (storage changes)) (storage changes)) (\<lambda>_.
             ret states)))))))
       | _ \<Rightarrow> ret states)"

section \<open>Transactions\<close>

definition execute_payment_tx :: "chain_env \<Rightarrow> signed_transaction \<Rightarrow> accounts \<Rightarrow> state_error + accounts" where
  "execute_payment_tx env tx states =
     (let from = signed_from (ce_k256 env) (ce_keccak env) tx; to = signed_to (ce_k256 env) (ce_keccak env) tx in
      rbind (ok_or (btm_get states from) AccountNotFound) (\<lambda>from_acc.
        (let amount = signed_price tx + signed_fees tx in
         if free_balance from_acc < amount then Inl InsufficientFunds
         else (let states' = btm_insert from (from_acc\<lparr>free_balance := free_balance from_acc - amount\<rparr>) states in
               rbind (ok_or (btm_get states' to) AccountNotFound) (\<lambda>to_acc.
                 Inr (btm_insert to (to_acc\<lparr>free_balance := free_balance to_acc + signed_price tx\<rparr>) states'))))))"

definition bump_nonce :: "chain_env \<Rightarrow> signed_transaction \<Rightarrow> accounts \<Rightarrow> state_error + accounts" where
  "bump_nonce env tx states =
     (let from = signed_from (ce_k256 env) (ce_keccak env) tx in
      rbind (ok_or (btm_get states from) AccountNotFound) (\<lambda>acc.
        Inr (btm_insert from (acc\<lparr>acc_nonce :=
               (if signed_nonce tx > acc_nonce acc then signed_nonce tx + 1 else acc_nonce acc + 1)\<rparr>) states)))"

definition apply_call :: "chain_env \<Rightarrow> wasm_vm \<Rightarrow> signed_transaction \<Rightarrow> application_call \<Rightarrow> accounts \<Rightarrow> (state, state_error, accounts) action" where
  "apply_call env vm tx arg states =
     (let app_address = signed_to (ce_k256 env) (ce_keccak env) tx in
      bind (gets (\<lambda>s. execute_app_tx vm s (signed_from (ce_k256 env) (ce_keccak env) tx) (signed_price tx) arg)) (\<lambda>r.
      bind (lift_res r) (\<lambda>cl.
      bind (lift_res (set_app_root app_address (smt_root (storage cl)) (insert_changes cl states))) (\<lambda>states.
      bind (set_app_data env (app_address, smt_root (storage cl)) (storage cl)) (\<lambda>_. ret states)))))"

definition apply_create :: "chain_env \<Rightarrow> wasm_vm \<Rightarrow> signed_transaction \<Rightarrow> bytes \<times> bytes \<Rightarrow> accounts \<Rightarrow> (state, state_error, accounts) action" where
  "apply_create env vm tx arg states =
     (let app_address = signed_to (ce_k256 env) (ce_keccak env) tx; from = signed_from (ce_k256 env) (ce_keccak env) tx in
      bind (gets (\<lambda>s. tdb_get (ce_trie env) (st_trie s) app_address)) (\<lambda>t.
        if t = Inl StateHangs then fail StateHangs
        else if (case t of Inr (Some _) \<Rightarrow> True | _ \<Rightarrow> False) then fail (Bail ''app address already exists'')
        else
          bind (register_namespace env vm states tx) (\<lambda>states.
          bind (gets (\<lambda>s. execute_app_create vm s from (signed_price tx) arg)) (\<lambda>r.
          bind (lift_res r) (\<lambda>(desc, cl).
          bind (lift_res (ok_or (btm_get (insert_changes cl states) app_address) (Bail ''app state not found''))) (\<lambda>acc.
          bind (set_app_metadata env (snd arg) desc) (\<lambda>_.
          bind (set_app_data env (app_address, smt_root (storage cl)) (storage cl)) (\<lambda>_.
            ret (btm_insert app_address
                   (acc\<lparr>acc_app_state := Some \<lparr>root_hash = smt_root (storage cl), code_hash = ce_keccak env (snd arg),
                                              creator = from, version = 1\<rparr>\<rparr>)
                   (insert_changes cl states))))))))))"

definition apply_transaction :: "chain_env \<Rightarrow> wasm_vm \<Rightarrow> signed_transaction \<Rightarrow> accounts \<Rightarrow> (state, state_error, accounts) action" where
  "apply_transaction env vm tx states =
     bind (lift_res (addr_res (signed_data tx))) (\<lambda>d.
     bind (case d of
             Payment _ \<Rightarrow> lift_res (execute_payment_tx env tx states)
           | Call app_id service method args \<Rightarrow>
               apply_call env vm tx \<lparr>ac_app_id = app_id, ac_service = service, ac_method = method, ac_args = args\<rparr> states
           | Create name bin \<Rightarrow> apply_create env vm tx (name, bin) states
           | Update _ _ _ \<Rightarrow> fail StatePanicked
           | RawData _ \<Rightarrow> ret states) (\<lambda>states.
       lift_res (bump_nonce env tx states)))"

section \<open>Blocks of transactions\<close>

text \<open>The first loop of \<open>apply_txs\<close>: the accounts touched, and the transactions of each sender in a
  \<open>BTreeSet\<close> ordered by nonce and price.  \<open>load\<close> reads an account.\<close>

type_synonym by_sender = "(address, signed_transaction list) btmap"

definition vacant_insert :: "(address \<Rightarrow> state_error + account_state) \<Rightarrow> address \<Rightarrow> accounts \<Rightarrow> state_error + accounts" where
  "vacant_insert load a states =
     (if btm_contains states a then Inr states else rbind (load a) (\<lambda>acc. Inr (btm_insert a acc states)))"

definition collect_tx ::
  "chain_env \<Rightarrow> (address \<Rightarrow> state_error + account_state) \<Rightarrow> signed_transaction \<Rightarrow> by_sender \<times> accounts
     \<Rightarrow> state_error + by_sender \<times> accounts" where
  "collect_tx env load tx acc =
     (let (accounts, states) = acc; from = signed_from (ce_k256 env) (ce_keccak env) tx; to = signed_to (ce_k256 env) (ce_keccak env) tx in
      rbind (vacant_insert load from states) (\<lambda>states.
      rbind (vacant_insert load to states) (\<lambda>states.
        (let txs = (case btm_get accounts from of None \<Rightarrow> [] | Some txs \<Rightarrow> txs) in
         Inr (btm_insert from (bts_insert nonce_priced_cmp tx txs) accounts, states)))))"

definition collect_txs ::
  "chain_env \<Rightarrow> (address \<Rightarrow> state_error + account_state) \<Rightarrow> signed_transaction list \<Rightarrow> state_error + by_sender \<times> accounts" where
  "collect_txs env load txs = rfold (collect_tx env load) txs ([], [])"

definition apply_collected :: "chain_env \<Rightarrow> wasm_vm \<Rightarrow> by_sender \<Rightarrow> accounts \<Rightarrow> (state, state_error, accounts) action" where
  "apply_collected env vm accounts states = for_acc (apply_transaction env vm) (concat (map snd accounts)) states"

definition apply_txs :: "chain_env \<Rightarrow> wasm_vm \<Rightarrow> signed_transaction list \<Rightarrow> (state, state_error, unit) action" where
  "apply_txs env vm txs =
     bind (gets (\<lambda>s. collect_txs env (get_account_state env s) txs)) (\<lambda>r.
     bind (lift_res r) (\<lambda>(accounts, states).
     bind (apply_collected env vm accounts states) (\<lambda>states.
       for_each (\<lambda>(a, acc). on_trie (tdb_put (ce_trie env) a acc)) states)))"

definition statedb_apply_txs :: "chain_env \<Rightarrow> wasm_vm \<Rightarrow> signed_transaction list \<Rightarrow> (state, state_error, h256) action" where
  "statedb_apply_txs env vm txs = bind (apply_txs env vm txs) (\<lambda>_. gets root_hash_of)"

definition account_state_default :: account_state where
  "account_state_default = \<lparr>free_balance = 0, reserve_balance = 0, acc_nonce = 0, acc_app_state = None\<rparr>"

text \<open>The reward is added to what the coinbase had at \<open>at_root\<close>, not to what the transactions left it.\<close>

definition apply_txs_no_commit ::
  "chain_env \<Rightarrow> wasm_vm \<Rightarrow> h256 \<Rightarrow> u64 \<Rightarrow> address \<Rightarrow> signed_transaction list \<Rightarrow> (state, state_error, h256) action" where
  "apply_txs_no_commit env vm at_root reward cb txs =
     bind (gets (\<lambda>s. collect_txs env (get_account_state_at_root env s at_root) txs)) (\<lambda>r.
     bind (lift_res r) (\<lambda>(accounts, states).
     bind (apply_collected env vm accounts states) (\<lambda>states.
     bind (gets (\<lambda>s. tdb_get_at_root (ce_trie env) (st_trie s) at_root cb)) (\<lambda>found.
       if found = Inl StateHangs then fail StateHangs
       else (let acc = (case found of Inr (Some acc) \<Rightarrow> acc | _ \<Rightarrow> account_state_default);
                 batch = map (\<lambda>(a, acc). OpPut a acc) states
                         @ [OpPut cb (acc\<lparr>free_balance := free_balance acc + reward\<rparr>)]
             in on_trie (tdb_apply_non_commit (ce_trie env) at_root batch))))))"

section \<open>Finalising a block\<close>

text \<open>The transaction root: a sparse Merkle tree with every transaction hash as key and value.\<close>

definition tx_merkle :: "chain_env \<Rightarrow> signed_transaction list \<Rightarrow> state_error + smt" where
  "tx_merkle env txs =
     (let (r, tree) = for_each (\<lambda>tx. bind (smt_update (ce_keccak env) (signed_hash (ce_keccak env) tx) (signed_hash (ce_keccak env) tx)) (\<lambda>_. ret ()))
            txs smt_new
      in rbind (map_err SmtError r) (\<lambda>_. Inr tree))"

definition finalize :: "chain_env \<Rightarrow> wasm_vm \<Rightarrow> block_header \<Rightarrow> signed_transaction list \<Rightarrow> (state, state_error, block_header) action" where
  "finalize env vm header txs =
     bind (lift_res (tx_merkle env txs)) (\<lambda>merkle.
     bind (statedb_apply_txs env vm txs) (\<lambda>_.
     bind (credit_balance env (coinbase header) (protocol_miner_reward (level header))) (\<lambda>_.
     bind (state_commit env) (\<lambda>_.
     bind (gets root_hash_of) (\<lambda>root.
       ret (header\<lparr>state_root := root, tx_root := smt_root merkle\<rparr>))))))"

definition finalize_and_assemble :: "chain_env \<Rightarrow> wasm_vm \<Rightarrow> block_header \<Rightarrow> signed_transaction list \<Rightarrow> (state, state_error, block option) action" where
  "finalize_and_assemble env vm header txs =
     bind (finalize env vm header txs) (\<lambda>header. ret (Some \<lparr>bk_header = header, bk_transactions = txs\<rparr>))"

section \<open>Money\<close>

definition balance_of :: "account_state \<Rightarrow> nat" where
  "balance_of acc = unat (free_balance acc)"

definition total_balance :: "accounts \<Rightarrow> nat" where
  "total_balance states = sum_list (map (\<lambda>e. balance_of (snd e)) states)"

lemma btm_get_Cons: "btm_get (e # m) k = (if fst e = k then Some (snd e) else btm_get m k)"
  by (cases e) (simp add: btm_get_def)

lemma total_insert:
  assumes "btm_wf m" "btm_get m k = Some acc"
  shows "total_balance (btm_insert k acc' m) + balance_of acc = total_balance m + balance_of acc'"
  using assms
proof (induction m)
  case (Cons e m)
  show ?case
  proof (cases "fst e = k")
    case True
    then show ?thesis
      using Cons.prems by (cases e) (simp add: btm_get_Cons total_balance_def cmp_def)
  next
    case False
    then have get: "btm_get m k = Some acc" and wf: "btm_wf m"
      using Cons.prems by (auto simp: btm_get_Cons btm_wf_Cons)
    have "(k, acc) \<in> set m"
      using get btm_get_iff [OF wf] by blast
    then have "fst e < k"
      using Cons.prems(1) by (auto simp: btm_wf_Cons)
    then show ?thesis
      using Cons.IH [OF wf get] by (cases e) (auto simp: total_balance_def cmp_def dest: less_asym)
  qed
qed simp

lemma balance_le_total: "btm_get m k = Some acc \<Longrightarrow> balance_of acc \<le> total_balance m"
  by (induction m) (auto simp: btm_get_Cons total_balance_def split: if_splits)

lemmas payment_defs = execute_payment_tx_def Let_def ok_or_def

definition no_wrap :: "signed_transaction \<Rightarrow> bool" where
  "no_wrap tx \<longleftrightarrow> unat (signed_price tx) + unat (signed_fees tx) < 2 ^ 64"

text \<open>What a successful payment does.\<close>

lemma payment_steps:
  assumes "execute_payment_tx env tx states = Inr states'"
  obtains from_acc to_acc where
    "btm_get states (signed_from (ce_k256 env) (ce_keccak env) tx) = Some from_acc"
    "signed_price tx + signed_fees tx \<le> free_balance from_acc"
    "btm_get (btm_insert (signed_from (ce_k256 env) (ce_keccak env) tx)
        (from_acc\<lparr>free_balance := free_balance from_acc - (signed_price tx + signed_fees tx)\<rparr>) states)
      (signed_to (ce_k256 env) (ce_keccak env) tx) = Some to_acc"
    "states' = btm_insert (signed_to (ce_k256 env) (ce_keccak env) tx)
       (to_acc\<lparr>free_balance := free_balance to_acc + signed_price tx\<rparr>)
       (btm_insert (signed_from (ce_k256 env) (ce_keccak env) tx)
        (from_acc\<lparr>free_balance := free_balance from_acc - (signed_price tx + signed_fees tx)\<rparr>) states)"
  using assms unfolding execute_payment_tx_def Let_def rbind_Inr
  by (auto simp: ok_or_def not_less split: option.splits if_splits)

lemma payment_conserves:
  assumes "execute_payment_tx env tx states = Inr states'" "btm_wf states" "no_wrap tx" "total_balance states < 2 ^ 64"
  shows "btm_wf states'" "total_balance states' + unat (signed_fees tx) = total_balance states"
proof -
  let ?amount = "signed_price tx + signed_fees tx"
  obtain f t s1 where f: "btm_get states (signed_from (ce_k256 env) (ce_keccak env) tx) = Some f" "?amount \<le> free_balance f"
    and s1: "s1 = btm_insert (signed_from (ce_k256 env) (ce_keccak env) tx) (f\<lparr>free_balance := free_balance f - ?amount\<rparr>) states"
    and t: "btm_get s1 (signed_to (ce_k256 env) (ce_keccak env) tx) = Some t"
    and s': "states' = btm_insert (signed_to (ce_k256 env) (ce_keccak env) tx) (t\<lparr>free_balance := free_balance t + signed_price tx\<rparr>) s1"
    using payment_steps [OF assms(1)] by metis
  have wf: "btm_wf s1"
    using assms(2) by (simp add: s1 btm_wf_insert)
  then show "btm_wf states'"
    by (simp add: s' btm_wf_insert)
  have amount: "unat ?amount = unat (signed_price tx) + unat (signed_fees tx)"
    using assms(3) by (simp add: no_wrap_def unat_word_ariths)
  have "unat (free_balance f - ?amount) = unat (free_balance f) - unat ?amount"
    using f(2) by (simp add: unat_sub)
  moreover have "unat ?amount \<le> unat (free_balance f)"
    using f(2) by (simp add: word_le_nat_alt)
  ultimately have tot1: "total_balance s1 + unat ?amount = total_balance states"
    using total_insert [OF assms(2) f(1), of "f\<lparr>free_balance := free_balance f - ?amount\<rparr>"] by (simp add: s1 balance_of_def)
  have "unat (free_balance t) + unat (signed_price tx) < 2 ^ 64"
    using balance_le_total [OF t] tot1 amount assms(4) by (simp add: balance_of_def)
  then have "unat (free_balance t + signed_price tx) = unat (free_balance t) + unat (signed_price tx)"
    by (simp add: unat_word_ariths)
  then show "total_balance states' + unat (signed_fees tx) = total_balance states"
    using total_insert [OF wf t, of "t\<lparr>free_balance := free_balance t + signed_price tx\<rparr>"] tot1 amount by (simp add: s' balance_of_def)
qed

lemma bump_nonce_money:
  assumes "bump_nonce env tx states = Inr states'" "btm_wf states"
  shows "btm_wf states'" "total_balance states' = total_balance states"
proof -
  obtain acc n where acc: "btm_get states (signed_from (ce_k256 env) (ce_keccak env) tx) = Some acc"
    "states' = btm_insert (signed_from (ce_k256 env) (ce_keccak env) tx) (acc\<lparr>acc_nonce := n\<rparr>) states"
    using assms(1) by (auto simp: bump_nonce_def Let_def rbind_Inr ok_or_def split: option.splits)
  then show "btm_wf states'" "total_balance states' = total_balance states"
    using total_insert [OF assms(2) acc(1), of "acc\<lparr>acc_nonce := n\<rparr>"] assms(2) by (auto simp: btm_wf_insert balance_of_def)
qed

text \<open>Transactions that do not run an application.\<close>

definition plain :: "signed_transaction \<Rightarrow> bool" where
  "plain tx \<longleftrightarrow> (case tx_data (stx tx) of Some (Payment _) \<Rightarrow> True | Some (RawData _) \<Rightarrow> True | _ \<Rightarrow> False)"

definition fee_paid :: "signed_transaction \<Rightarrow> nat" where
  "fee_paid tx = (case tx_data (stx tx) of Some (Payment _) \<Rightarrow> unat (signed_fees tx) | _ \<Rightarrow> 0)"

lemma apply_plain:
  assumes "plain tx" "apply_transaction env vm tx states s = (Inr states', s')"
  obtains mid where "s' = s" "bump_nonce env tx mid = Inr states'"
    "execute_payment_tx env tx states = Inr mid \<and> fee_paid tx = unat (signed_fees tx) \<or> mid = states \<and> fee_paid tx = 0"
  using assms
  by (auto simp: plain_def apply_transaction_def signed_data_def addr_res_def bind_eq_Inr fee_paid_def lift_res_def ret_def
      split: option.splits transaction_data.splits)

lemma apply_plain_money:
  assumes "plain tx" "no_wrap tx" "apply_transaction env vm tx states s = (Inr states', s')" "btm_wf states" "total_balance states < 2 ^ 64"
  shows "s' = s \<and> btm_wf states' \<and> total_balance states' + fee_paid tx = total_balance states"
proof -
  obtain mid where mid: "s' = s" "bump_nonce env tx mid = Inr states'"
    "execute_payment_tx env tx states = Inr mid \<and> fee_paid tx = unat (signed_fees tx) \<or> mid = states \<and> fee_paid tx = 0"
    using apply_plain [OF assms(1,3)] .
  have "btm_wf mid \<and> total_balance mid + fee_paid tx = total_balance states"
    using mid(3) payment_conserves [OF _ assms(4,2,5), of env mid] assms(4) by auto
  then show ?thesis
    using mid(1) bump_nonce_money [OF mid(2)] by auto
qed

lemma apply_list_money:
  assumes "\<forall>tx \<in> set txs. plain tx \<and> no_wrap tx" "for_acc (apply_transaction env vm) txs states s = (Inr states', s')"
    and "btm_wf states" "total_balance states < 2 ^ 64"
  shows "s' = s \<and> btm_wf states' \<and> total_balance states' + sum_list (map fee_paid txs) = total_balance states"
  using assms
proof (induction txs arbitrary: states s)
  case (Cons tx txs)
  then obtain mid s1 where step: "apply_transaction env vm tx states s = (Inr mid, s1)"
    and rest: "for_acc (apply_transaction env vm) txs mid s1 = (Inr states', s')"
    by (auto simp: bind_eq_Inr)
  have "s1 = s \<and> btm_wf mid \<and> total_balance mid + fee_paid tx = total_balance states"
    using apply_plain_money [OF _ _ step] Cons.prems by simp
  then show ?case
    using Cons.IH [OF _ rest] Cons.prems(1,4) by auto
qed simp

text \<open>Collecting the transactions of a block.\<close>

definition collected :: "by_sender \<Rightarrow> signed_transaction set" where
  "collected accounts = set (concat (map snd accounts))"

lemma collected_insert: "collected (btm_insert a txs accounts) \<subseteq> collected accounts \<union> set txs"
  using set_btm_insert [of a txs accounts] by (fastforce simp: collected_def)

lemma vacant_insert_wf: "vacant_insert load a states = Inr states' \<Longrightarrow> btm_wf states \<Longrightarrow> btm_wf states'"
  by (auto simp: vacant_insert_def rbind_Inr btm_wf_insert split: if_splits)

lemma collect_tx_spec:
  assumes "collect_tx env load tx (accounts, states) = Inr (accounts', states')" "btm_wf states"
  shows "btm_wf states' \<and> collected accounts' \<subseteq> insert tx (collected accounts)"
proof -
  let ?from = "signed_from (ce_k256 env) (ce_keccak env) tx"
  let ?txs = "case btm_get accounts ?from of None \<Rightarrow> [] | Some txs \<Rightarrow> txs"
  have acc: "accounts' = btm_insert ?from (bts_insert nonce_priced_cmp tx ?txs) accounts" and "btm_wf states'"
    using assms by (auto simp: collect_tx_def Let_def rbind_Inr dest: vacant_insert_wf)
  have "set ?txs \<subseteq> collected accounts"
    by (cases "btm_get accounts ?from") (auto simp: collected_def btm_get_def dest!: map_of_SomeD)
  then show ?thesis
    using acc \<open>btm_wf states'\<close> collected_insert [of ?from "bts_insert nonce_priced_cmp tx ?txs" accounts]
      nonce_priced_ord.set_insert_subset [of tx ?txs] by blast
qed

lemma collect_fold_spec:
  assumes "rfold (collect_tx env load) txs (accounts, states) = Inr (accounts', states')" "btm_wf states"
  shows "btm_wf states' \<and> collected accounts' \<subseteq> collected accounts \<union> set txs"
  using assms
proof (induction txs arbitrary: accounts states)
  case (Cons tx txs)
  then obtain a1 s1 where step: "collect_tx env load tx (accounts, states) = Inr (a1, s1)"
    and rest: "rfold (collect_tx env load) txs (a1, s1) = Inr (accounts', states')"
    by (auto simp: rbind_Inr)
  from collect_tx_spec [OF step Cons.prems(2)] show ?case
    using Cons.IH [OF rest] by auto
qed simp

text \<open>C34: a block of payments and raw data conserves money.  When the accounts it touches hold less than
  \<open>2 ^ 64\<close> units together and no price plus fee wraps, then whenever all transactions succeed the balances
  afterwards and the fees of the payments applied add up to the balances before: fees are burned, nothing
  is created.  The state itself is not written before all transactions have succeeded.\<close>

theorem block_conserves_money:
  assumes "\<forall>tx \<in> set txs. plain tx \<and> no_wrap tx" "collect_txs env load txs = Inr (accounts, states)"
    and "total_balance states < 2 ^ 64" "apply_collected env vm accounts states s = (Inr states', s')"
  shows "s' = s \<and> btm_wf states'
     \<and> total_balance states' + sum_list (map fee_paid (concat (map snd accounts))) = total_balance states"
proof -
  have "btm_wf states" "collected accounts \<subseteq> set txs"
    using collect_fold_spec [of env load txs "[]" "[]"] assms(2) by (auto simp: collect_txs_def collected_def)
  then show ?thesis
    using apply_list_money [of "concat (map snd accounts)" env vm states s states' s'] assms
    by (auto simp: apply_collected_def collected_def)
qed

text \<open>A payment whose price plus fee exceeds the range of \<open>u64\<close> creates money.  The sum wraps, so the
  sender needs only the wrapped amount, and the receiver is credited the full price: the balances grow by
  \<open>2 ^ 64\<close> less the fee.\<close>

theorem payment_overflow_creates_money:
  fixes tx :: signed_transaction and env :: chain_env
  defines "sender \<equiv> signed_from (ce_k256 env) (ce_keccak env) tx" and "receiver \<equiv> signed_to (ce_k256 env) (ce_keccak env) tx"
  assumes "2 ^ 64 \<le> unat (signed_price tx) + unat (signed_fees tx)" "btm_wf states"
    and "btm_get states sender = Some f" "unat (signed_price tx) + unat (signed_fees tx) - 2 ^ 64 \<le> balance_of f"
    and "receiver \<noteq> sender" "btm_get states receiver = Some t" "balance_of t + unat (signed_price tx) < 2 ^ 64"
  shows "\<exists>states'. execute_payment_tx env tx states = Inr states'
     \<and> total_balance states' + unat (signed_fees tx) = total_balance states + 2 ^ 64"
proof -
  let ?p = "signed_price tx" and ?fee = "signed_fees tx"
  let ?s1 = "btm_insert sender (f\<lparr>free_balance := free_balance f - (?p + ?fee)\<rparr>) states"
  let ?s2 = "btm_insert receiver (t\<lparr>free_balance := free_balance t + ?p\<rparr>) ?s1"
  have less: "unat ?p < 2 ^ 64" "unat ?fee < 2 ^ 64"
    using unsigned_less [of ?p] unsigned_less [of ?fee] by simp_all
  have amount: "unat (?p + ?fee) = unat ?p + unat ?fee - 2 ^ 64"
    using assms(3) less by (simp add: unat_word_ariths mod_if)
  then have le: "?p + ?fee \<le> free_balance f"
    using assms(6) by (simp add: word_le_nat_alt balance_of_def)
  have get: "btm_get ?s1 receiver = Some t"
    using assms(7,8) by simp
  have run: "execute_payment_tx env tx states = Inr ?s2"
    using assms(5) le get unfolding execute_payment_tx_def Let_def sender_def receiver_def by (simp add: not_less)
  have "unat (free_balance f - (?p + ?fee)) = unat (free_balance f) - unat (?p + ?fee)"
    using le by (simp add: unat_sub)
  then have tot1: "total_balance ?s1 + (unat ?p + unat ?fee - 2 ^ 64) = total_balance states"
    using total_insert [OF assms(4,5), of "f\<lparr>free_balance := free_balance f - (?p + ?fee)\<rparr>"] amount assms(6)
    by (simp add: balance_of_def)
  have "unat (free_balance t + ?p) = unat (free_balance t) + unat ?p"
    using assms(9) by (simp add: balance_of_def unat_word_ariths)
  then have "total_balance ?s2 = total_balance ?s1 + unat ?p"
    using total_insert [OF btm_wf_insert [OF assms(4)] get, of "t\<lparr>free_balance := free_balance t + ?p\<rparr>"] by (simp add: balance_of_def)
  then show ?thesis
    using run tot1 assms(3) by auto
qed

text \<open>A transaction whose signature does not recover spends from the default address.  The sender is then
  taken to be \<open>Address::default()\<close>, the account that genesis funds, and nothing in the execution of a block
  looks at the signature again: the payment succeeds whenever that account can pay for it.\<close>

theorem unsigned_payment_spends_default:
  assumes "recover_from (ce_k256 env) (ce_keccak env) tx = Inl e" "tx_data (stx tx) = Some (Payment receiver)"
    and "btm_get states default_address = Some f" "signed_price tx + signed_fees tx \<le> free_balance f"
    and "btm_get states receiver = Some t" "receiver \<noteq> default_address"
  shows "\<exists>states'. apply_transaction env vm tx states s = (Inr states', s)
     \<and> map_option free_balance (btm_get states' default_address) = Some (free_balance f - (signed_price tx + signed_fees tx))
     \<and> map_option free_balance (btm_get states' receiver) = Some (free_balance t + signed_price tx)"
proof -
  have fr: "signed_from (ce_k256 env) (ce_keccak env) tx = default_address"
    using assms(1) by (simp add: signed_from_def cache_def)
  have rc: "signed_to (ce_k256 env) (ce_keccak env) tx = receiver"
    using assms(2) by (simp add: signed_to_def signed_to_closure_def cache_def)
  obtain mid where mid: "execute_payment_tx env tx states = Inr mid"
    "btm_get mid default_address = Some (f\<lparr>free_balance := free_balance f - (signed_price tx + signed_fees tx)\<rparr>)"
    "btm_get mid receiver = Some (t\<lparr>free_balance := free_balance t + signed_price tx\<rparr>)"
    using assms(3-6) by (auto simp: execute_payment_tx_def fr rc Let_def not_less)
  obtain n where "bump_nonce env tx mid = Inr (btm_insert default_address
      (f\<lparr>free_balance := free_balance f - (signed_price tx + signed_fees tx), acc_nonce := n\<rparr>) mid)"
    using mid(2) by (simp add: bump_nonce_def fr Let_def)
  then show ?thesis
    using mid assms(2,6) by (simp add: apply_transaction_def signed_data_def addr_res_def)
qed

lemma payment_nonce:
  assumes "execute_payment_tx env tx states = Inr mid" "btm_get states (signed_from (ce_k256 env) (ce_keccak env) tx) = Some f"
  shows "map_option acc_nonce (btm_get mid (signed_from (ce_k256 env) (ce_keccak env) tx)) = Some (acc_nonce f)"
  by (rule payment_steps [OF assms(1)]) (use assms(2) in \<open>auto split: if_splits\<close>)

lemma bump_nonce_spec:
  assumes "bump_nonce env tx mid = Inr states'" "map_option acc_nonce (btm_get mid (signed_from (ce_k256 env) (ce_keccak env) tx)) = Some n"
  shows "map_option acc_nonce (btm_get states' (signed_from (ce_k256 env) (ce_keccak env) tx))
     = Some ((if signed_nonce tx > n then signed_nonce tx else n) + 1)"
  using assms by (auto simp: bump_nonce_def Let_def)

text \<open>C35: exactly when a payment is accepted.  It succeeds if and only if both accounts are known and the
  sender holds price plus fee; the nonce of the transaction plays no part, so a payment that was already
  applied is accepted again in a later block.  The nonce of the sender afterwards is one more than the
  larger of its nonce and that of the transaction.\<close>

theorem payment_accepted_iff:
  assumes "tx_data (stx tx) = Some (Payment receiver)" "sender = signed_from (ce_k256 env) (ce_keccak env) tx"
  shows "((\<exists>states'. apply_transaction env vm tx states s = (Inr states', s)) \<longleftrightarrow>
       (\<exists>f t. btm_get states sender = Some f \<and> signed_price tx + signed_fees tx \<le> free_balance f \<and> btm_get states receiver = Some t))
    \<and> (apply_transaction env vm tx states s = (Inr states', s') \<and> btm_get states sender = Some f \<longrightarrow>
       map_option acc_nonce (btm_get states' sender)
       = Some ((if signed_nonce tx > acc_nonce f then signed_nonce tx else acc_nonce f) + 1))"
proof -
  have rc: "signed_to (ce_k256 env) (ce_keccak env) tx = receiver"
    using assms(1) by (simp add: signed_to_def signed_to_closure_def cache_def)
  have apply_eq: "apply_transaction env vm tx states s =
      (rbind (execute_payment_tx env tx states) (bump_nonce env tx), s)"
    using assms(1) by (cases "execute_payment_tx env tx states")
      (simp_all add: apply_transaction_def signed_data_def addr_res_def)
  have "(\<exists>states'. apply_transaction env vm tx states s = (Inr states', s)) \<longleftrightarrow>
       (\<exists>f t. btm_get states sender = Some f \<and> signed_price tx + signed_fees tx \<le> free_balance f \<and> btm_get states receiver = Some t)"
    unfolding apply_eq
    by (cases "btm_get states sender"; cases "btm_get states receiver"; cases "receiver = sender")
       (auto simp: execute_payment_tx_def bump_nonce_def rc assms(2) [symmetric] Let_def not_less not_le)
  moreover have "map_option acc_nonce (btm_get states' sender)
       = Some ((if signed_nonce tx > acc_nonce f then signed_nonce tx else acc_nonce f) + 1)"
    if run: "apply_transaction env vm tx states s = (Inr states', s')" "btm_get states sender = Some f"
  proof -
    obtain mid where "execute_payment_tx env tx states = Inr mid" "bump_nonce env tx mid = Inr states'"
      using run(1) unfolding apply_eq by (auto simp: rbind_Inr)
    then show ?thesis
      using payment_nonce bump_nonce_spec run(2) unfolding assms(2) by blast
  qed
  ultimately show ?thesis
    by blast
qed

section \<open>Witnesses\<close>

text \<open>An account book of two accounts, and an unsigned payment between them.\<close>

definition demo_chain :: chain_env where
  "demo_chain = \<lparr>ce_k256 = demo_k256\<lparr>k_recover := (\<lambda>_ _. None)\<rparr>, ce_keccak = demo_digest,
     ce_trie = \<lparr>te_digest = demo_digest, te_key = id, te_enc = (\<lambda>_. []), te_dec = (\<lambda>_. Inl DecodeError),
       te_ivalue_enc = (\<lambda>_. []), te_ivalue_dec = (\<lambda>_. Inl DecodeError), te_smt_enc = demo_image_enc, te_smt_dec = demo_image_dec\<rparr>,
     ce_app_key = fst, ce_metadata_enc = binary, ce_metadata_dec = (\<lambda>b. Inr \<lparr>binary = b, descriptor = []\<rparr>)\<rparr>"

definition demo_account :: "u64 \<Rightarrow> account_state" where
  "demo_account n = \<lparr>free_balance = n, reserve_balance = 0, acc_nonce = 1, acc_app_state = None\<rparr>"

definition demo_receiver :: address where
  "demo_receiver = replicate 44 9"

definition demo_payment :: "u64 \<Rightarrow> u64 \<Rightarrow> signed_transaction" where
  "demo_payment price fee =
     \<lparr>stx = (demo_tx (Payment demo_receiver))\<lparr>tx_value := price, tx_fee := fee\<rparr>, sig_r = h256_zero, sig_s = h256_zero, sig_v = 0\<rparr>"

definition demo_book :: accounts where
  "demo_book = btm_from_list [(default_address, demo_account 100), (demo_receiver, demo_account 0)]"

lemma demo_recover: "recover_from (ce_k256 demo_chain) (ce_keccak demo_chain) (demo_payment p f) = Inl (SecretKeyError EcdsaError)"
  by (simp add: recover_from_def raw_origin_def demo_chain_def demo_payment_def recover_public_key_def from_rsv_def signature_from_bytes_def demo_k256_def)

lemma demo_parties:
  "signed_from (ce_k256 demo_chain) (ce_keccak demo_chain) (demo_payment p f) = default_address"
  "signed_to (ce_k256 demo_chain) (ce_keccak demo_chain) (demo_payment p f) = demo_receiver"
  "tx_data (stx (demo_payment p f)) = Some (Payment demo_receiver)"
  "signed_price (demo_payment p f) = p" "signed_fees (demo_payment p f) = f"
  using demo_recover [of p f]
  by (simp_all add: signed_from_def cache_def signed_to_def signed_to_closure_def demo_payment_def demo_tx_def signed_price_def signed_fees_def)

lemma demo_book_facts:
  "btm_wf demo_book" "demo_receiver \<noteq> default_address" "total_balance demo_book = 100"
  "btm_get demo_book default_address = Some (demo_account 100)" "btm_get demo_book demo_receiver = Some (demo_account 0)"
  unfolding demo_book_def by (rule btm_from_list_wf) code_simp+

theorem unsigned_payment_spends_default_witness:
  "\<forall>vm s. \<exists>states'. apply_transaction demo_chain vm (demo_payment 60 5) demo_book s = (Inr states', s)
     \<and> map_option free_balance (btm_get states' default_address) = Some 35
     \<and> map_option free_balance (btm_get states' demo_receiver) = Some 60"
proof (intro allI)
  fix vm s
  show "\<exists>states'. apply_transaction demo_chain vm (demo_payment 60 5) demo_book s = (Inr states', s)
     \<and> map_option free_balance (btm_get states' default_address) = Some 35
     \<and> map_option free_balance (btm_get states' demo_receiver) = Some 60"
    using unsigned_payment_spends_default [OF demo_recover demo_parties(3) demo_book_facts(4) _ demo_book_facts(5,2), of 60 5 vm s]
    by (simp add: demo_parties demo_account_def)
qed

lemma demo_plain: "plain (demo_payment p f)" "fee_paid (demo_payment p f) = unat f"
  by (simp_all add: plain_def fee_paid_def demo_parties)

definition demo_load :: "address \<Rightarrow> state_error + account_state" where
  "demo_load a = Inr (demo_account (if a = default_address then 100 else 0))"

lemma demo_collect:
  "collect_txs demo_chain demo_load [demo_payment 60 5] = Inr ([(default_address, [demo_payment 60 5])], demo_book)"
  using demo_book_facts(2)
  by (simp add: collect_txs_def collect_tx_def demo_parties vacant_insert_def btm_contains_def demo_load_def Let_def
      demo_book_def btm_from_list_def btm_get_Cons)

lemma demo_run:
  obtains states' where "apply_transaction demo_chain vm (demo_payment 60 5) demo_book s = (Inr states', s)"
  using demo_book_facts demo_parties
  by (auto simp: apply_transaction_def signed_data_def addr_res_def execute_payment_tx_def bump_nonce_def Let_def demo_account_def)

theorem block_conserves_money_witness:
  "\<forall>vm s. \<exists>accounts states states'. collect_txs demo_chain demo_load [demo_payment 60 5] = Inr (accounts, states)
     \<and> apply_collected demo_chain vm accounts states s = (Inr states', s) \<and> total_balance states' = 95"
proof (intro allI)
  fix vm s
  obtain states' where "apply_transaction demo_chain vm (demo_payment 60 5) demo_book s = (Inr states', s)"
    by (rule demo_run)
  then have run: "apply_collected demo_chain vm [(default_address, [demo_payment 60 5])] demo_book s = (Inr states', s)"
    by (simp add: apply_collected_def)
  have "\<forall>tx \<in> set [demo_payment 60 5]. plain tx \<and> no_wrap tx"
    by (simp add: demo_plain no_wrap_def demo_parties)
  from block_conserves_money [OF this demo_collect _ run] run demo_collect
  show "\<exists>accounts states states'. collect_txs demo_chain demo_load [demo_payment 60 5] = Inr (accounts, states)
     \<and> apply_collected demo_chain vm accounts states s = (Inr states', s) \<and> total_balance states' = 95"
    by (auto simp: demo_book_facts demo_plain)
qed

theorem payment_overflow_creates_money_witness:
  "\<exists>states'. execute_payment_tx demo_chain (demo_payment (2 ^ 63) (2 ^ 63 + 1)) demo_book = Inr states'
     \<and> total_balance states' + (2 ^ 63 + 1) = 100 + 2 ^ 64"
  using payment_overflow_creates_money [where tx = "demo_payment (2 ^ 63) (2 ^ 63 + 1)" and env = demo_chain
      and states = demo_book and f = "demo_account 100" and t = "demo_account 0"] demo_book_facts
  by (simp add: demo_parties demo_account_def balance_of_def)

theorem payment_accepted_iff_witness:
  "\<forall>vm s. (\<exists>states'. apply_transaction demo_chain vm (demo_payment 60 5) demo_book s = (Inr states', s)
      \<and> map_option acc_nonce (btm_get states' default_address) = Some 2)
    \<and> \<not> (\<exists>states'. apply_transaction demo_chain vm (demo_payment 100 5) demo_book s = (Inr states', s))"
proof (intro allI)
  fix vm s
  note iff = payment_accepted_iff [where env = demo_chain and states = demo_book and sender = default_address, OF demo_parties(3), unfolded demo_parties(1), OF refl]
  have nonce: "signed_nonce (demo_payment p f) = 1" for p f
    by (simp add: signed_nonce_def demo_payment_def demo_tx_def)
  show "(\<exists>states'. apply_transaction demo_chain vm (demo_payment 60 5) demo_book s = (Inr states', s)
      \<and> map_option acc_nonce (btm_get states' default_address) = Some 2)
    \<and> \<not> (\<exists>states'. apply_transaction demo_chain vm (demo_payment 100 5) demo_book s = (Inr states', s))"
  proof
    obtain states' where "apply_transaction demo_chain vm (demo_payment 60 5) demo_book s = (Inr states', s)"
      using iff [of vm 60 5 s, THEN conjunct1] demo_book_facts(4,5) by (auto simp: demo_parties demo_account_def)
    then show "\<exists>states'. apply_transaction demo_chain vm (demo_payment 60 5) demo_book s = (Inr states', s)
      \<and> map_option acc_nonce (btm_get states' default_address) = Some 2"
      using iff [of vm 60 5 s states' s "demo_account 100"] demo_book_facts(4) by (intro exI [of _ states']) (simp add: nonce demo_account_def)
    show "\<not> (\<exists>states'. apply_transaction demo_chain vm (demo_payment 100 5) demo_book s = (Inr states', s))"
      using iff [of vm 100 5 s, THEN conjunct1] demo_book_facts(4,5) by (simp add: demo_parties demo_account_def)
  qed
qed

end
