(* ===== verification/Tx_List.thy ===== *)
theory Tx_List
  imports Tx "HOL-Library.Multiset"
begin

text \<open>
  The containers of the transaction pool: the lists per account of \<open>txpool/src/tx_list.rs\<close>, the lookup by
  hash and the account set of \<open>txpool/src/tx_lookup.rs\<close>, the nonces of \<open>txpool/src/tx_noncer.rs\<close> and the
  priority queue of \<open>txpool/src/prque.rs\<close>.
\<close>

text \<open>Errors of the pool.  Texts and the causes of other crates are not kept; the last four are an error of the
  chain, a closed event channel, a panic and a loop that does not end.\<close>

datatype pool_error =
    PoolRWPoison
  | MutexGuardError
  | CompositeErrors "pool_error list"
  | GenericError
  | TransactionAlreadyKnown
  | NonceTooLow
  | FeeTooLow
  | BadOrigin
  | PoolInsufficientFunds u64 u64
  | ExplictCoinbase
  | TransactionNotFoundInPrimary
  | Underpriced
  | TxPoolOverflow
  | ReplaceUnderpriced
  | MissingBlock
  | PoolHexError
  | ChainFailed
  | SendFailed
  | PoolPanicked
  | PoolHangs

section \<open>Transactions by nonce\<close>

type_synonym tx_sorted_list = "(u64, signed_transaction) btmap"

definition sl_new :: tx_sorted_list where
  "sl_new = []"

definition sl_put :: "signed_transaction \<Rightarrow> tx_sorted_list \<Rightarrow> tx_sorted_list" where
  "sl_put tx l = btm_insert (signed_nonce tx) tx l"

definition sl_get :: "tx_sorted_list \<Rightarrow> u64 \<Rightarrow> signed_transaction option" where
  "sl_get l nonce = btm_get l nonce"

definition sl_remove :: "u64 \<Rightarrow> tx_sorted_list \<Rightarrow> bool \<times> tx_sorted_list" where
  "sl_remove nonce l = (btm_contains l nonce, btm_remove nonce l)"

definition sl_filter :: "(u64 \<times> signed_transaction \<Rightarrow> bool) \<Rightarrow> tx_sorted_list \<Rightarrow> signed_transaction list \<times> tx_sorted_list" where
  "sl_filter f l = (let (out, rest) = btm_drain f l in (map snd out, rest))"

definition sl_forward :: "u64 \<Rightarrow> tx_sorted_list \<Rightarrow> signed_transaction list \<times> tx_sorted_list" where
  "sl_forward threshold l = sl_filter (\<lambda>(nonce, _). nonce < threshold) l"

definition sl_ready :: "u64 \<Rightarrow> tx_sorted_list \<Rightarrow> signed_transaction list \<times> tx_sorted_list" where
  "sl_ready start l = sl_filter (\<lambda>(nonce, _). nonce \<ge> start) l"

text \<open>\<open>pop_first\<close> until at most \<open>threshold\<close> entries are left.\<close>

fun sl_cap_loop :: "nat \<Rightarrow> tx_sorted_list \<Rightarrow> signed_transaction list \<times> tx_sorted_list" where
  "sl_cap_loop threshold [] = ([], [])"
| "sl_cap_loop threshold (e # l) =
     (if length (e # l) > threshold then apfst ((#) (snd e)) (sl_cap_loop threshold l) else ([], e # l))"

definition sl_cap :: "nat \<Rightarrow> tx_sorted_list \<Rightarrow> signed_transaction list \<times> tx_sorted_list" where
  "sl_cap threshold l = (if length l \<le> threshold then ([], l) else sl_cap_loop threshold l)"

definition sl_last_element :: "tx_sorted_list \<Rightarrow> signed_transaction option" where
  "sl_last_element l = (case l of [] \<Rightarrow> None | e # _ \<Rightarrow> Some (snd e))"

definition sl_flatten :: "tx_sorted_list \<Rightarrow> signed_transaction list" where
  "sl_flatten l = map snd l"

definition sl_overlaps :: "tx_sorted_list \<Rightarrow> u64 \<Rightarrow> bool" where
  "sl_overlaps l nonce = btm_contains l nonce"

definition sl_has :: "tx_sorted_list \<Rightarrow> u64 \<Rightarrow> bool" where
  "sl_has l nonce = btm_contains l nonce"

section \<open>The list of an account\<close>

record tx_list =
  tl_strict :: bool
  tl_txs :: tx_sorted_list

definition tl_new :: "bool \<Rightarrow> tx_list" where
  "tl_new strict = \<lparr>tl_strict = strict, tl_txs = sl_new\<rparr>"

text \<open>Division of \<open>i128\<close> rounds towards zero and panics on a zero divisor.\<close>

definition i128_div :: "int \<Rightarrow> int \<Rightarrow> int option" where
  "i128_div a b = (if b = 0 then None else Some (sgn a * sgn b * (\<bar>a\<bar> div \<bar>b\<bar>)))"

definition tl_add :: "signed_transaction \<Rightarrow> 128 word \<Rightarrow> tx_list \<Rightarrow> pool_error + (bool \<times> signed_transaction option) \<times> tx_list" where
  "tl_add tx price_bump l =
     (let old = sl_get (tl_txs l) (signed_nonce tx);
          put = Inr ((True, old), l\<lparr>tl_txs := sl_put tx (tl_txs l)\<rparr>)
      in case old of
           None \<Rightarrow> put
         | Some o_tx \<Rightarrow>
             (case i128_div ((uint (signed_fees tx) - uint (signed_fees o_tx)) * 100) (uint (signed_fees tx)) of
                None \<Rightarrow> Inl PoolPanicked
              | Some bump \<Rightarrow>
                  if is_le (cmp (signed_fees o_tx) (signed_fees tx)) \<and> bump < sint price_bump then Inr ((False, None), l)
                  else put))"

definition tl_remove :: "signed_transaction \<Rightarrow> tx_list \<Rightarrow> (bool \<times> signed_transaction list) \<times> tx_list" where
  "tl_remove tx l =
     (let nonce = signed_nonce tx; (found, txs) = sl_remove nonce (tl_txs l) in
      if found then ((False, []), l\<lparr>tl_txs := txs\<rparr>)
      else if tl_strict l then
        (let (out, rest) = sl_filter (\<lambda>(_, t). signed_nonce t > nonce) txs in ((True, out), l\<lparr>tl_txs := rest\<rparr>))
      else ((True, []), l\<lparr>tl_txs := txs\<rparr>))"

definition tl_forward :: "u64 \<Rightarrow> tx_list \<Rightarrow> signed_transaction list \<times> tx_list" where
  "tl_forward threshold l = (let (out, rest) = sl_forward threshold (tl_txs l) in (out, l\<lparr>tl_txs := rest\<rparr>))"

definition tl_filter :: "u64 \<Rightarrow> tx_list \<Rightarrow> (signed_transaction list \<times> signed_transaction list) option \<times> tx_list" where
  "tl_filter price_limit l =
     (if price_limit = 0 then (None, l)
      else (let (removed, rest) = sl_filter (\<lambda>(_, t). signed_price t > price_limit) (tl_txs l) in
            if tl_strict l then
              (let lowest = fold (\<lambda>t low. if low > signed_nonce t then signed_nonce t else low) removed (- 1);
                   (invalids, rest') = sl_filter (\<lambda>(_, t). signed_nonce t > lowest) rest
               in (Some (removed, invalids), l\<lparr>tl_txs := rest'\<rparr>))
            else (Some (removed, []), l\<lparr>tl_txs := rest\<rparr>)))"

definition tl_ready :: "u64 \<Rightarrow> tx_list \<Rightarrow> signed_transaction list \<times> tx_list" where
  "tl_ready start l = (let (out, rest) = sl_ready start (tl_txs l) in (out, l\<lparr>tl_txs := rest\<rparr>))"

definition tl_cap :: "u64 \<Rightarrow> tx_list \<Rightarrow> signed_transaction list \<times> tx_list" where
  "tl_cap threshold l = (let (out, rest) = sl_cap (unat threshold) (tl_txs l) in (out, l\<lparr>tl_txs := rest\<rparr>))"

definition tl_len :: "tx_list \<Rightarrow> nat" where
  "tl_len l = length (tl_txs l)"

definition tl_is_empty :: "tx_list \<Rightarrow> bool" where
  "tl_is_empty l \<longleftrightarrow> tl_txs l = []"

definition tl_flatten :: "tx_list \<Rightarrow> signed_transaction list" where
  "tl_flatten l = sl_flatten (tl_txs l)"

definition tl_last_element :: "tx_list \<Rightarrow> signed_transaction option" where
  "tl_last_element l = sl_last_element (tl_txs l)"

definition tl_overlaps :: "signed_transaction \<Rightarrow> tx_list \<Rightarrow> bool" where
  "tl_overlaps tx l = sl_overlaps (tl_txs l) (signed_nonce tx)"

section \<open>Transactions by fee\<close>

definition priced_cmp :: "signed_transaction \<Rightarrow> signed_transaction \<Rightarrow> ordering" where
  "priced_cmp a b =
     (case reverse (cmp (signed_fees a) (signed_fees b)) of
        Less \<Rightarrow> Less
      | Equal \<Rightarrow> reverse (cmp (signed_nonce a) (signed_nonce b))
      | Greater \<Rightarrow> Greater)"

definition nonce_tx_cmp :: "signed_transaction \<Rightarrow> signed_transaction \<Rightarrow> ordering" where
  "nonce_tx_cmp a b = reverse (cmp (signed_nonce a) (signed_nonce b))"

record tx_priced_list =
  pr_txs :: "signed_transaction list"
  pr_total_fee :: u64

definition pr_new :: tx_priced_list where
  "pr_new = \<lparr>pr_txs = [], pr_total_fee = 0\<rparr>"

definition pr_put :: "signed_transaction \<Rightarrow> bool \<Rightarrow> tx_priced_list \<Rightarrow> tx_priced_list" where
  "pr_put tx is_local l =
     (if is_local then l
      else l\<lparr>pr_total_fee := pr_total_fee l + signed_fees tx, pr_txs := bts_insert priced_cmp tx (pr_txs l)\<rparr>)"

definition pr_remove :: "signed_transaction \<Rightarrow> tx_priced_list \<Rightarrow> bool \<times> tx_priced_list" where
  "pr_remove tx l =
     (let (removed, txs) = bts_remove priced_cmp tx (pr_txs l) in
      (removed, l\<lparr>pr_txs := txs, pr_total_fee := (if removed then pr_total_fee l - signed_fees tx else pr_total_fee l)\<rparr>))"

definition pr_underpriced :: "tx_priced_list \<Rightarrow> signed_transaction \<Rightarrow> bool" where
  "pr_underpriced l tx =
     (if pr_txs l = [] then False else is_ge (priced_cmp (last (pr_txs l)) tx))"

text \<open>\<open>discard\<close> moves the first \<open>slots\<close> transactions aside and swaps: these stay, the others are dropped.\<close>

definition pr_discard :: "u64 \<Rightarrow> tx_priced_list \<Rightarrow> signed_transaction list \<times> tx_priced_list" where
  "pr_discard slots l =
     (if length (pr_txs l) \<le> unat slots then ([], l)
      else (drop (unat slots) (pr_txs l), l\<lparr>pr_txs := take (unat slots) (pr_txs l)\<rparr>))"

section \<open>The account set\<close>

type_synonym account_set = "address list"

definition as_new :: account_set where
  "as_new = []"

definition as_from :: "address list \<Rightarrow> account_set" where
  "as_from addresses = bts_collect cmp addresses"

definition as_contains :: "account_set \<Rightarrow> address \<Rightarrow> bool" where
  "as_contains s a \<longleftrightarrow> a \<in> set s"

definition as_add :: "address \<Rightarrow> account_set \<Rightarrow> account_set" where
  "as_add a s = bts_insert cmp a s"

definition as_merge :: "account_set \<Rightarrow> account_set \<Rightarrow> account_set" where
  "as_merge s other = fold as_add other s"

section \<open>The lookup by hash\<close>

text \<open>What the pool needs of a transaction: its hash, its sender and its size.\<close>

record pool_crypto =
  pc_k256 :: k256
  pc_keccak :: "bytes \<Rightarrow> h256"
  pc_prost :: prost

definition tx_hash_of :: "pool_crypto \<Rightarrow> signed_transaction \<Rightarrow> h256" where
  "tx_hash_of C tx = signed_hash (pc_keccak C) tx"

definition tx_sender :: "pool_crypto \<Rightarrow> signed_transaction \<Rightarrow> address" where
  "tx_sender C tx = signed_from (pc_k256 C) (pc_keccak C) tx"

definition TX_SLOT_SIZE :: u64 where
  "TX_SLOT_SIZE = 32 * 1024"

definition num_slots :: "pool_crypto \<Rightarrow> signed_transaction \<Rightarrow> u64" where
  "num_slots C tx = (signed_size (pc_prost C) tx + TX_SLOT_SIZE - 1) div TX_SLOT_SIZE"

record tx_lookup =
  lk_slots :: u64
  lk_locals :: "(h256, signed_transaction) btmap"
  lk_remotes :: "(h256, signed_transaction) btmap"

definition lk_new :: tx_lookup where
  "lk_new = \<lparr>lk_slots = 0, lk_locals = [], lk_remotes = []\<rparr>"

definition lk_get :: "tx_lookup \<Rightarrow> h256 \<Rightarrow> signed_transaction option" where
  "lk_get l hash = (case btm_get (lk_locals l) hash of Some tx \<Rightarrow> Some tx | None \<Rightarrow> btm_get (lk_remotes l) hash)"

definition lk_contains :: "tx_lookup \<Rightarrow> h256 \<Rightarrow> bool" where
  "lk_contains l hash \<longleftrightarrow> btm_contains (lk_locals l) hash \<or> btm_contains (lk_remotes l) hash"

definition lk_get_local :: "tx_lookup \<Rightarrow> h256 \<Rightarrow> signed_transaction option" where
  "lk_get_local l hash = btm_get (lk_locals l) hash"

definition lk_get_remote :: "tx_lookup \<Rightarrow> h256 \<Rightarrow> signed_transaction option" where
  "lk_get_remote l hash = btm_get (lk_remotes l) hash"

definition lk_count :: "tx_lookup \<Rightarrow> nat" where
  "lk_count l = length (lk_locals l) + length (lk_remotes l)"

definition lk_add :: "pool_crypto \<Rightarrow> signed_transaction \<Rightarrow> bool \<Rightarrow> tx_lookup \<Rightarrow> tx_lookup" where
  "lk_add C tx local l =
     (let l = l\<lparr>lk_slots := lk_slots l + num_slots C tx\<rparr> in
      if local then l\<lparr>lk_locals := btm_insert (tx_hash_of C tx) tx (lk_locals l)\<rparr>
      else l\<lparr>lk_remotes := btm_insert (tx_hash_of C tx) tx (lk_remotes l)\<rparr>)"

definition lk_remove :: "pool_crypto \<Rightarrow> h256 \<Rightarrow> tx_lookup \<Rightarrow> tx_lookup" where
  "lk_remove C hash l =
     (let freed = (case btm_get (lk_locals l) hash of
                     Some tx \<Rightarrow> num_slots C tx
                   | None \<Rightarrow> (case btm_get (lk_remotes l) hash of Some tx \<Rightarrow> num_slots C tx | None \<Rightarrow> 0))
      in l\<lparr>lk_locals := btm_remove hash (lk_locals l), lk_remotes := btm_remove hash (lk_remotes l), lk_slots := lk_slots l - freed\<rparr>)"

definition lk_remote_to_locals :: "pool_crypto \<Rightarrow> account_set \<Rightarrow> tx_lookup \<Rightarrow> signed_transaction list \<times> tx_lookup" where
  "lk_remote_to_locals C accounts l =
     (let (filtered, rest) = btm_drain (\<lambda>(_, tx). as_contains accounts (tx_sender C tx)) (lk_remotes l) in
      (map snd filtered,
       l\<lparr>lk_remotes := rest, lk_locals := fold (\<lambda>(hash, tx). btm_insert hash tx) filtered (lk_locals l)\<rparr>))"

section \<open>Pending nonces\<close>

text \<open>The view of the state that the pool has: nonce and balance of an address.\<close>

record state_view =
  sv_nonce :: "address \<Rightarrow> u64"
  sv_balance :: "address \<Rightarrow> u64"

record tx_noncer =
  tn_fallback :: state_view
  tn_nonces :: "address \<Rightarrow> u64 option"

definition tn_new :: "state_view \<Rightarrow> tx_noncer" where
  "tn_new st = \<lparr>tn_fallback = st, tn_nonces = (\<lambda>_. None)\<rparr>"

definition tn_get :: "address \<Rightarrow> tx_noncer \<Rightarrow> u64 \<times> tx_noncer" where
  "tn_get a n =
     (let v = (case tn_nonces n a of Some v \<Rightarrow> v | None \<Rightarrow> sv_nonce (tn_fallback n) a) in
      (v, n\<lparr>tn_nonces := (tn_nonces n)(a \<mapsto> v)\<rparr>))"

definition tn_set :: "address \<Rightarrow> u64 \<Rightarrow> tx_noncer \<Rightarrow> tx_noncer" where
  "tn_set a nonce n = n\<lparr>tn_nonces := (tn_nonces n)(a \<mapsto> nonce)\<rparr>"

definition tn_set_if_lower :: "address \<Rightarrow> u64 \<Rightarrow> tx_noncer \<Rightarrow> tx_noncer" where
  "tn_set_if_lower a nonce n =
     (let (v, n') = tn_get a n in if v \<le> nonce then n' else n'\<lparr>tn_nonces := (tn_nonces n')(a \<mapsto> nonce)\<rparr>)"

definition tn_set_all :: "(address \<times> u64) list \<Rightarrow> tx_noncer \<Rightarrow> tx_noncer" where
  "tn_set_all all_nonces n = n\<lparr>tn_nonces := map_of (rev all_nonces)\<rparr>"

section \<open>The priority queue\<close>

text \<open>A \<open>BinaryHeap\<close>: \<open>pop\<close> returns an element of the highest priority, here the first one pushed.\<close>

type_synonym 'v priority_queue = "('v \<times> int) list"

definition pq_new :: "'v priority_queue" where
  "pq_new = []"

definition pq_push :: "'v \<Rightarrow> int \<Rightarrow> 'v priority_queue \<Rightarrow> 'v priority_queue" where
  "pq_push v priority q = q @ [(v, priority)]"

fun pq_max :: "('v \<times> int) \<Rightarrow> 'v priority_queue \<Rightarrow> ('v \<times> int) \<times> 'v priority_queue" where
  "pq_max e [] = (e, [])"
| "pq_max e (x # q) = (if snd x > snd e then (let (m, r) = pq_max x q in (m, e # r)) else (let (m, r) = pq_max e q in (m, x # r)))"

definition pq_pop :: "'v priority_queue \<Rightarrow> ('v \<times> int) option \<times> 'v priority_queue" where
  "pq_pop q = (case q of [] \<Rightarrow> (None, []) | e # r \<Rightarrow> (let (m, rest) = pq_max e r in (Some m, rest)))"

section \<open>Orders\<close>

lemma priced_lex:
  "priced_cmp = lex_cmp (\<lambda>a b. reverse (cmp (signed_fees a) (signed_fees b))) (\<lambda>a b. reverse (cmp (signed_nonce a) (signed_nonce b)))"
  by (intro ext) (simp add: priced_cmp_def lex_cmp_def split: ordering.split)

interpretation priced_ord: rust_ord priced_cmp
  unfolding priced_lex by (intro rust_ord_intros)

interpretation nonce_tx_ord: rust_ord nonce_tx_cmp
  unfolding nonce_tx_cmp_def by (intro rust_ord_intros)

section \<open>The priority queue as an interface\<close>

locale max_queue =
  fixes empty :: 'q and push :: "'v \<Rightarrow> int \<Rightarrow> 'q \<Rightarrow> 'q" and pop :: "'q \<Rightarrow> ('v \<times> int) option \<times> 'q" and items :: "'q \<Rightarrow> ('v \<times> int) multiset"
  assumes items_empty: "items empty = {#}"
    and items_push: "items (push v n q) = add_mset (v, n) (items q)"
    and pop_None: "pop q = (None, q') \<Longrightarrow> items q = {#}"
    and pop_Some: "pop q = (Some m, q') \<Longrightarrow> items q = add_mset m (items q') \<and> (\<forall>x \<in># items q'. snd x \<le> snd m)"
begin

lemma pops_decrease: "pop q = (Some m, q') \<Longrightarrow> pop q' = (Some m', q'') \<Longrightarrow> snd m' \<le> snd m"
  using pop_Some [of q m q'] pop_Some [of q' m' q''] by simp

lemma pop_nonempty: "items q \<noteq> {#} \<Longrightarrow> \<exists>m q'. pop q = (Some m, q')"
  using pop_None [of q] by (cases "pop q") (metis option.exhaust)

end

lemma pq_max_spec:
  "pq_max e q = (m, r) \<Longrightarrow> add_mset e (mset q) = add_mset m (mset r) \<and> (\<forall>x \<in> set r. snd x \<le> snd m) \<and> snd e \<le> snd m"
proof (induction e q arbitrary: m r rule: pq_max.induct)
  case (2 e x q)
  show ?case
  proof (cases "snd x > snd e")
    case True
    then obtain r' where "pq_max x q = (m, r')" "r = e # r'"
      using "2.prems" by (auto simp: Let_def split: prod.splits)
    with "2.IH"(1) [OF True] True show ?thesis
      by fastforce
  next
    case False
    then obtain r' where "pq_max e q = (m, r')" "r = x # r'"
      using "2.prems" by (auto simp: Let_def split: prod.splits)
    with "2.IH"(2) [OF False] False show ?thesis
      by fastforce
  qed
qed simp

interpretation prque: max_queue pq_new pq_push pq_pop mset
proof unfold_locales
  show "pq_pop q = (Some m, q') \<Longrightarrow> mset q = add_mset m (mset q') \<and> (\<forall>x \<in># mset q'. snd x \<le> snd m)" for q q' :: "'v priority_queue" and m
    by (cases q) (auto simp: pq_pop_def Let_def split: prod.splits dest!: pq_max_spec)
qed (auto simp: pq_new_def pq_push_def pq_pop_def Let_def split: list.splits prod.splits)

section \<open>Replacing a transaction\<close>

lemma i128_div_less:
  assumes "0 \<le> a" "0 < b"
  shows "i128_div a b = Some q \<Longrightarrow> q < n \<longleftrightarrow> a < n * b"
proof -
  assume "i128_div a b = Some q"
  then have q: "q = a div b"
    using assms by (auto simp: i128_div_def sgn_if)
  show "q < n \<longleftrightarrow> a < n * b"
    using assms(2) pos_imp_zdiv_neg_iff [of b "a - n * b"] div_mult_self1 [of b a "- n"] by (simp add: q)
qed

text \<open>C38: when a list replaces a transaction.  A transaction with the nonce of one already in the list takes its
  place exactly when its fee is lower, or when its fee is higher by at least the configured percentage of
  the new fee; otherwise the list is unchanged and nothing is returned.  A replacement with fee zero
  panics.\<close>

theorem replacement_rule:
  assumes "sl_get (tl_txs l) (signed_nonce tx) = Some old" "price_bump < 2 ^ 127"
  shows "tl_add tx price_bump l =
     (if signed_fees tx = 0 then Inl PoolPanicked
      else if signed_fees tx < signed_fees old
           \<or> uint price_bump * uint (signed_fees tx) \<le> (uint (signed_fees tx) - uint (signed_fees old)) * 100
      then Inr ((True, Some old), l\<lparr>tl_txs := sl_put tx (tl_txs l)\<rparr>)
      else Inr ((False, None), l))"
proof (cases "signed_fees tx = 0")
  case True
  with assms(1) show ?thesis
    by (simp add: tl_add_def i128_div_def)
next
  case False
  let ?new = "uint (signed_fees tx)" and ?old = "uint (signed_fees old)"
  have pos: "0 < ?new"
    using False by (simp add: uint_nonnegative order.strict_iff_order) (metis uint_0_iff)
  have bump: "sint price_bump = uint price_bump"
    unfolding sint_uint using assms(2)
    by (intro signed_take_bit_int_eq_self order_trans [OF _ uint_nonnegative]) (simp_all add: word_less_def)
  obtain q where q: "i128_div ((?new - ?old) * 100) ?new = Some q"
    using pos by (auto simp: i128_div_def)
  have le: "is_le (cmp (signed_fees old) (signed_fees tx)) \<longleftrightarrow> \<not> signed_fees tx < signed_fees old"
    by (auto simp: is_le_def cmp_def)
  have "q < sint price_bump \<longleftrightarrow> (?new - ?old) * 100 < uint price_bump * ?new" if "\<not> signed_fees tx < signed_fees old"
    using i128_div_less [OF _ pos q] that by (simp add: bump word_less_def)
  then show ?thesis
    using assms(1) False q le by (auto simp: tl_add_def Let_def)
qed

definition demo_pool_tx :: "u64 \<Rightarrow> u64 \<Rightarrow> signed_transaction" where
  "demo_pool_tx nonce fee =
     \<lparr>stx = (demo_tx (RawData []))\<lparr>tx_nonce := nonce, tx_fee := fee\<rparr>, sig_r = h256_zero, sig_s = h256_zero, sig_v = 1\<rparr>"

lemma demo_pool_tx_simps [simp]: "signed_nonce (demo_pool_tx n f) = n" "signed_fees (demo_pool_tx n f) = f"
  by (simp_all add: demo_pool_tx_def signed_nonce_def signed_fees_def)

text \<open>A cheaper transaction replaces, one that is five percent dearer does not.\<close>

theorem replacement_rule_witness:
  "\<exists>l. sl_get (tl_txs l) 7 = Some (demo_pool_tx 7 100)
     \<and> tl_add (demo_pool_tx 7 1) 10 l = Inr ((True, Some (demo_pool_tx 7 100)), l\<lparr>tl_txs := sl_put (demo_pool_tx 7 1) (tl_txs l)\<rparr>)
     \<and> tl_add (demo_pool_tx 7 105) 10 l = Inr ((False, None), l)
     \<and> tl_add (demo_pool_tx 7 0) 10 l = Inl PoolPanicked"
proof -
  let ?l = "\<lparr>tl_strict = False, tl_txs = [(7, demo_pool_tx 7 100)]\<rparr>"
  have get: "sl_get (tl_txs ?l) (signed_nonce (demo_pool_tx 7 f)) = Some (demo_pool_tx 7 100)" for f
    by (simp add: sl_get_def btm_get_def)
  show ?thesis
    using replacement_rule [OF get, of 10 1] replacement_rule [OF get, of 10 105] replacement_rule [OF get, of 10 0] get [of 0]
    by (intro exI [of _ ?l]) simp
qed

section \<open>Underpriced transactions\<close>

lemma priced_last:
  assumes "bts_wf priced_cmp l" "l \<noteq> []" "t \<in> set l"
  shows "signed_fees (last l) \<le> signed_fees t"
proof -
  have "priced_cmp t (last l) \<noteq> Greater"
    using assms
  proof (induction l)
    case (Cons x xs)
    show ?case
    proof (cases "xs = []")
      case True
      with Cons.prems show ?thesis
        by (simp add: priced_cmp_def cmp_def)
    next
      case False
      then have "last xs \<in> set xs"
        by simp
      then have "priced_cmp x (last xs) = Less" "bts_wf priced_cmp xs"
        using Cons.prems(1) by (auto simp: priced_ord.wf_Cons)
      then show ?thesis
        using Cons.IH Cons.prems(3) False by auto
    qed
  qed simp
  then show ?thesis
    by (auto simp: priced_cmp_def cmp_def split: ordering.splits if_splits)
qed

text \<open>\<open>underpriced\<close> has the comparison the wrong way round.  The last element of the set is the one with
  the lowest fee in the pool; a transaction counts as underpriced exactly when it pays more than that, or
  the same with an equal or higher nonce, and one that pays less than every pooled transaction does not.\<close>

theorem underpriced_inverted:
  assumes "bts_wf priced_cmp (pr_txs l)" "pr_txs l \<noteq> []" "least = last (pr_txs l)"
  shows "(\<forall>t. t \<in> set (pr_txs l) \<longrightarrow> signed_fees least \<le> signed_fees t)
    \<and> (pr_underpriced l tx \<longleftrightarrow> signed_fees least < signed_fees tx
         \<or> signed_fees least = signed_fees tx \<and> signed_nonce least \<le> signed_nonce tx)"
proof -
  have "pr_underpriced l tx \<longleftrightarrow> signed_fees least < signed_fees tx
         \<or> signed_fees least = signed_fees tx \<and> signed_nonce least \<le> signed_nonce tx"
    using assms(2,3) by (auto simp: pr_underpriced_def is_ge_def priced_cmp_def cmp_def split: ordering.splits if_splits)
  then show ?thesis
    using priced_last [OF assms(1,2)] assms(3) by simp
qed

theorem underpriced_inverted_witness:
  "pr_underpriced \<lparr>pr_txs = [demo_pool_tx 1 90, demo_pool_tx 1 50], pr_total_fee = 140\<rparr> (demo_pool_tx 1 1000)
   \<and> \<not> pr_underpriced \<lparr>pr_txs = [demo_pool_tx 1 90, demo_pool_tx 1 50], pr_total_fee = 140\<rparr> (demo_pool_tx 1 1)"
proof -
  let ?l = "\<lparr>pr_txs = [demo_pool_tx 1 90, demo_pool_tx 1 50], pr_total_fee = 140\<rparr>"
  have "bts_wf priced_cmp (pr_txs ?l)"
    by (simp add: bts_wf_def priced_cmp_def cmp_def)
  from underpriced_inverted [OF this _ refl, of "demo_pool_tx 1 1000"] underpriced_inverted [OF this _ refl, of "demo_pool_tx 1 1"]
  show ?thesis by simp
qed

section \<open>The slots of the lookup\<close>

definition slots_of :: "pool_crypto \<Rightarrow> (h256, signed_transaction) btmap \<Rightarrow> u64" where
  "slots_of C m = (\<Sum>e \<in># mset m. num_slots C (snd e))"

definition lk_wf :: "pool_crypto \<Rightarrow> tx_lookup \<Rightarrow> bool" where
  "lk_wf C l \<longleftrightarrow> btm_wf (lk_locals l) \<and> btm_wf (lk_remotes l)
     \<and> (\<forall>e. e \<in> set (lk_locals l) \<union> set (lk_remotes l) \<longrightarrow> fst e = tx_hash_of C (snd e))
     \<and> (\<forall>h. \<not> (btm_contains (lk_locals l) h \<and> btm_contains (lk_remotes l) h))
     \<and> lk_slots l = slots_of C (lk_locals l) + slots_of C (lk_remotes l)"

lemma mset_btm_insert: "\<not> btm_contains m k \<Longrightarrow> mset (btm_insert k v m) = add_mset (k, v) (mset m)"
  by (induction m) (auto simp: btm_contains_def btm_get_def cmp_def split: if_splits)

lemma mset_btm_remove: "btm_wf m \<Longrightarrow> btm_get m k = Some v \<Longrightarrow> mset m = add_mset (k, v) (mset (btm_remove k m))"
proof (induction m)
  case (Cons e m)
  have "btm_remove k m = m" if "fst e = k"
    using Cons.prems(1) that by (auto simp: btm_wf_Cons btm_remove_def filter_id_conv)
  then show ?case
    using Cons by (cases e) (auto simp: btm_wf_Cons btm_remove_def btm_get_def split: if_splits)
qed (simp add: btm_get_def)

lemma btm_remove_absent: "btm_get m k = None \<Longrightarrow> btm_remove k m = m"
  by (auto simp: btm_remove_def btm_get_def map_of_eq_None_iff filter_id_conv)

lemma contains_insert [simp]: "btm_contains (btm_insert k v m) h \<longleftrightarrow> h = k \<or> btm_contains m h"
  by (simp add: btm_contains_def)

lemma contains_remove [simp]: "btm_contains (btm_remove k m) h \<longleftrightarrow> h \<noteq> k \<and> btm_contains m h"
  by (simp add: btm_contains_def)

lemma lk_wf_add:
  assumes "lk_wf C l" "\<not> lk_contains l (tx_hash_of C tx)"
  shows "lk_wf C (lk_add C tx local l)"
proof -
  have "\<not> btm_contains (lk_locals l) (tx_hash_of C tx)" "\<not> btm_contains (lk_remotes l) (tx_hash_of C tx)"
    using assms(2) by (auto simp: lk_contains_def)
  then show ?thesis
    using assms(1) set_btm_insert [of "tx_hash_of C tx" tx "lk_locals l"] set_btm_insert [of "tx_hash_of C tx" tx "lk_remotes l"]
    by (auto simp: lk_wf_def lk_add_def slots_of_def mset_btm_insert btm_wf_insert Let_def)
qed

lemma lk_wf_remove:
  assumes "lk_wf C l" shows "lk_wf C (lk_remove C h l)"
proof -
  have wf: "btm_wf (lk_locals l)" "btm_wf (lk_remotes l)" and one: "\<not> (btm_contains (lk_locals l) h \<and> btm_contains (lk_remotes l) h)"
    using assms by (auto simp: lk_wf_def)
  have sub: "set (btm_remove h m) \<subseteq> set m" "btm_wf m \<Longrightarrow> btm_wf (btm_remove h m)" for m :: "(h256, signed_transaction) btmap"
    by (auto simp: btm_remove_def btm_wf_filter)
  have "lk_slots (lk_remove C h l) = slots_of C (btm_remove h (lk_locals l)) + slots_of C (btm_remove h (lk_remotes l))"
  proof (cases "btm_get (lk_locals l) h")
    case (Some tx)
    then have none: "btm_get (lk_remotes l) h = None"
      using one by (auto simp: btm_contains_def)
    show ?thesis
      using Some btm_remove_absent [OF none] mset_btm_remove [OF wf(1) Some] assms
      by (simp add: lk_wf_def lk_remove_def slots_of_def)
  next
    case None
    show ?thesis
      using None btm_remove_absent [OF None] btm_remove_absent [of "lk_remotes l" h] mset_btm_remove [OF wf(2), of h] assms
      by (cases "btm_get (lk_remotes l) h") (simp_all add: lk_wf_def lk_remove_def slots_of_def)
  qed
  then show ?thesis
    using assms sub by (fastforce simp: lk_wf_def lk_remove_def Let_def)
qed

lemma lk_contains_remove [simp]: "lk_contains (lk_remove C h l) h' \<longleftrightarrow> h' \<noteq> h \<and> lk_contains l h'"
  by (auto simp: lk_contains_def lk_remove_def Let_def)

lemma lk_contains_add: "lk_contains (lk_add C tx local l) h \<longleftrightarrow> h = tx_hash_of C tx \<or> lk_contains l h"
  by (auto simp: lk_contains_def lk_add_def Let_def)

lemma mset_drain: "btm_drain f m = (out, rest) \<Longrightarrow> mset m = mset out + mset rest"
  by (auto simp: btm_drain_def)

lemma move_entries:
  assumes "btm_wf m" "btm_wf out" "\<forall>e \<in> set out. \<not> btm_contains m (fst e)"
  shows "btm_wf (fold (\<lambda>(h, t). btm_insert h t) out m) \<and> mset (fold (\<lambda>(h, t). btm_insert h t) out m) = mset out + mset m"
  using assms
proof (induction out arbitrary: m)
  case (Cons e out)
  have "\<forall>x \<in> set out. \<not> btm_contains (btm_insert (fst e) (snd e) m) (fst x)"
    using Cons.prems(2,3) by (auto simp: btm_wf_Cons)
  with Cons.IH [of "btm_insert (fst e) (snd e) m"] Cons.prems show ?case
    by (simp add: btm_wf_insert btm_wf_Cons mset_btm_insert case_prod_unfold)
qed simp

lemma contains_iff: "btm_contains m h \<longleftrightarrow> h \<in> fst ` set m"
  by (simp add: btm_contains_def btm_get_def map_of_eq_None_iff)

lemma lk_remote_to_locals_ok:
  assumes "lk_wf C l" "lk_remote_to_locals C accounts l = (txs, l')"
  shows "lk_wf C l' \<and> (\<forall>h. lk_contains l' h \<longleftrightarrow> lk_contains l h)"
proof -
  let ?p = "\<lambda>(_, tx). as_contains accounts (tx_sender C tx)"
  let ?out = "filter ?p (lk_remotes l)" and ?rest = "filter (\<lambda>e. \<not> ?p e) (lk_remotes l)"
  let ?m = "fold (\<lambda>(h, t). btm_insert h t) ?out (lk_locals l)"
  have l': "l' = l\<lparr>lk_remotes := ?rest, lk_locals := ?m\<rparr>"
    using assms(2) by (simp add: lk_remote_to_locals_def btm_drain_def)
  have wf: "btm_wf (lk_locals l)" "btm_wf (lk_remotes l)" "distinct (map fst (lk_remotes l))"
    and one: "\<And>h. \<not> (btm_contains (lk_locals l) h \<and> btm_contains (lk_remotes l) h)"
    using assms(1) by (auto simp: lk_wf_def btm_wf_distinct)
  have fresh: "\<forall>e \<in> set ?out. \<not> btm_contains (lk_locals l) (fst e)"
    using one by (force simp: contains_iff)
  have m: "btm_wf ?m" "mset ?m = mset ?out + mset (lk_locals l)"
    using move_entries [OF wf(1) btm_wf_filter [OF wf(2), of ?p] fresh] by blast+
  from arg_cong [OF m(2), of set_mset] have set_m: "set ?m = set ?out \<union> set (lk_locals l)"
    by simp
  have split: "mset (lk_remotes l) = mset ?out + mset ?rest"
    by simp
  have "fst ` set ?out \<inter> fst ` set ?rest = {}"
    using wf(3) by (auto simp: distinct_map inj_on_def)
  then have disj: "\<not> (btm_contains ?m h \<and> btm_contains ?rest h)" for h
    using one [of h] by (auto simp: contains_iff set_m)
  have "slots_of C ?m + slots_of C ?rest = slots_of C (lk_locals l) + slots_of C (lk_remotes l)"
    by (simp only: slots_of_def m(2) split image_mset_union sum_mset.union ac_simps)
  then have "lk_wf C l'"
    using assms(1) m(1) disj unfolding l' by (auto simp: lk_wf_def btm_wf_filter set_m)
  then show ?thesis
    by (auto simp: l' lk_contains_def contains_iff set_m)
qed

end
