(* ===== verification/Txpool.thy ===== *)
theory Txpool
  imports Tx_List
begin

text \<open>
  The transaction pool of \<open>txpool/src/lib.rs\<close>.

  The operations are actions on the record \<open>tx_pool\<close>.  The chain behind the pool (\<open>dyn Blockchain\<close>,
  \<open>dyn StateDB\<close>) is a parameter: the blocks it finds and the view of a state it gives.  A \<open>HashMap\<close> is kept
  in key order, and \<open>pe_order\<close> is the order in which the running program happens to iterate over it; the
  theorems hold for every such order.  \<open>Instant::now\<close> reads the clock of the record and lets it advance by
  \<open>pe_tick\<close>.  \<open>price_ratio\<close>, a float that \<open>sanitize\<close> always sets to its default and nothing reads, is left
  out, and so are log lines.  The locks around the containers are not modelled, so the branches for a
  poisoned lock do not occur.  A \<open>Duration\<close> is a number of nanoseconds.
\<close>

section \<open>The pool and what it runs on\<close>

record pool_config =
  cf_no_locals :: bool
  cf_price_bump :: "128 word"
  cf_account_slots :: u64
  cf_global_slots :: u64
  cf_account_queue :: u64
  cf_global_queue :: u64
  cf_life_time :: nat

definition DEFAULT_TX_POOL_CONFIG :: pool_config where
  "DEFAULT_TX_POOL_CONFIG =
     \<lparr>cf_no_locals = False, cf_price_bump = 10, cf_account_slots = 16, cf_global_slots = 4096,
      cf_account_queue = 64, cf_global_queue = 1024, cf_life_time = 3 * 3600 * 1000000000\<rparr>"

definition sanitize :: "pool_config \<Rightarrow> pool_config" where
  "sanitize conf =
     (let d = DEFAULT_TX_POOL_CONFIG in
      conf\<lparr>cf_price_bump := (if cf_price_bump conf < 1 then cf_price_bump d else cf_price_bump conf),
           cf_account_slots := (if cf_account_slots conf < 1 then cf_account_slots d else cf_account_slots conf),
           cf_global_slots := (if cf_global_slots conf < 1 then cf_global_slots d else cf_global_slots conf),
           cf_account_queue := (if cf_account_queue conf < 1 then cf_account_queue d else cf_account_queue conf),
           cf_global_queue := (if cf_global_queue conf < 1 then cf_global_queue d else cf_global_queue conf),
           cf_life_time := (if cf_life_time conf < 1000000000 then cf_life_time d else cf_life_time conf)\<rparr>)"

record pool_env =
  pe_crypto :: pool_crypto
  pe_sha :: "bytes \<Rightarrow> h256"
  pe_block :: "h256 \<Rightarrow> u32 \<Rightarrow> pool_error + block option"
  pe_state_at :: "h256 \<Rightarrow> pool_error + state_view"
  pe_current_state :: "pool_error + state_view"
  pe_order :: "address list \<Rightarrow> address list"
  pe_tick :: "nat \<Rightarrow> nat"
  pe_open :: bool

record tx_pool =
  tp_config :: pool_config
  tp_locals :: account_set
  tp_state :: state_view
  tp_noncer :: tx_noncer
  tp_events :: "(address, tx_sorted_list) btmap"
  tp_pending :: "(address, tx_list) btmap"
  tp_queue :: "(address, tx_list) btmap"
  tp_beats :: "(address, nat) btmap"
  tp_all :: tx_lookup
  tp_priced :: tx_priced_list
  tp_changes :: "32 word"
  tp_clock :: nat
  tp_sent :: "signed_transaction list list"

type_synonym 'a pool_action = "(tx_pool, pool_error, 'a) action"

abbreviation hash_in :: "pool_env \<Rightarrow> signed_transaction \<Rightarrow> h256" where
  "hash_in E \<equiv> tx_hash_of (pe_crypto E)"

abbreviation sender_in :: "pool_env \<Rightarrow> signed_transaction \<Rightarrow> address" where
  "sender_in E \<equiv> tx_sender (pe_crypto E)"

definition entries :: "pool_env \<Rightarrow> (address, 'v) btmap \<Rightarrow> (address \<times> 'v) list" where
  "entries E m = List.map_filter (\<lambda>a. map_option (Pair a) (btm_get m a)) (pe_order E (map fst m))"

definition pool_new :: "pool_env \<Rightarrow> pool_config option \<Rightarrow> address list option \<Rightarrow> nat \<Rightarrow> pool_error + tx_pool" where
  "pool_new E conf local_accounts clock =
     rbind (pe_current_state E) (\<lambda>st. Inr
       \<lparr>tp_config = (case conf of None \<Rightarrow> DEFAULT_TX_POOL_CONFIG | Some c \<Rightarrow> sanitize c),
        tp_locals = (case local_accounts of None \<Rightarrow> as_new | Some l \<Rightarrow> as_from l),
        tp_state = st, tp_noncer = tn_new st, tp_events = [], tp_pending = [], tp_queue = [], tp_beats = [],
        tp_all = lk_new, tp_priced = pr_new, tp_changes = 0, tp_clock = clock, tp_sent = []\<rparr>)"

definition validate_tx :: "pool_env \<Rightarrow> tx_pool \<Rightarrow> signed_transaction \<Rightarrow> pool_error + unit" where
  "validate_tx E p tx =
     (let from_addr = sender_in E tx in
      if sv_nonce (tp_state p) from_addr > signed_nonce tx then Inl NonceTooLow
      else if sv_balance (tp_state p) from_addr < signed_fees tx + signed_price tx
      then Inl (PoolInsufficientFunds (signed_fees tx) (signed_price tx))
      else Inr ())"

section \<open>Small steps\<close>

definition instant_now :: "pool_env \<Rightarrow> nat pool_action" where
  "instant_now E p = (Inr (tp_clock p), p\<lparr>tp_clock := pe_tick E (tp_clock p)\<rparr>)"

definition all_remove :: "pool_env \<Rightarrow> signed_transaction \<Rightarrow> tx_pool \<Rightarrow> tx_pool" where
  "all_remove E tx p = p\<lparr>tp_all := lk_remove (pe_crypto E) (hash_in E tx) (tp_all p)\<rparr>"

definition all_add :: "pool_env \<Rightarrow> signed_transaction \<Rightarrow> bool \<Rightarrow> tx_pool \<Rightarrow> tx_pool" where
  "all_add E tx is_local p = p\<lparr>tp_all := lk_add (pe_crypto E) tx is_local (tp_all p)\<rparr>"

definition priced_remove :: "signed_transaction \<Rightarrow> tx_pool \<Rightarrow> tx_pool" where
  "priced_remove tx p = p\<lparr>tp_priced := snd (pr_remove tx (tp_priced p))\<rparr>"

definition priced_put :: "signed_transaction \<Rightarrow> bool \<Rightarrow> tx_pool \<Rightarrow> tx_pool" where
  "priced_put tx is_local p = p\<lparr>tp_priced := pr_put tx is_local (tp_priced p)\<rparr>"

definition forget :: "pool_env \<Rightarrow> signed_transaction option \<Rightarrow> tx_pool \<Rightarrow> tx_pool" where
  "forget E old p = (case old of None \<Rightarrow> p | Some t \<Rightarrow> priced_remove t (all_remove E t p))"

definition set_pending :: "address \<Rightarrow> tx_list \<Rightarrow> tx_pool \<Rightarrow> tx_pool" where
  "set_pending a l p = p\<lparr>tp_pending := btm_insert a l (tp_pending p)\<rparr>"

definition set_queue :: "address \<Rightarrow> tx_list \<Rightarrow> tx_pool \<Rightarrow> tx_pool" where
  "set_queue a l p = p\<lparr>tp_queue := btm_insert a l (tp_queue p)\<rparr>"

definition queue_event :: "pool_env \<Rightarrow> signed_transaction \<Rightarrow> tx_pool \<Rightarrow> tx_pool" where
  "queue_event E tx p =
     (let events = (case btm_get (tp_events p) (sender_in E tx) of None \<Rightarrow> sl_new | Some l \<Rightarrow> l) in
      p\<lparr>tp_events := btm_insert (sender_in E tx) (sl_put tx events) (tp_events p)\<rparr>)"

definition list_or_new :: "bool \<Rightarrow> (address, tx_list) btmap \<Rightarrow> address \<Rightarrow> tx_list" where
  "list_or_new strict m a = (case btm_get m a of None \<Rightarrow> tl_new strict | Some l \<Rightarrow> l)"

definition touch_beat :: "pool_env \<Rightarrow> address \<Rightarrow> unit pool_action" where
  "touch_beat E a p =
     (if btm_contains (tp_beats p) a then (Inr (), p)
      else bind (instant_now E) (\<lambda>t. modify (\<lambda>p. p\<lparr>tp_beats := btm_insert a t (tp_beats p)\<rparr>)) p)"

section \<open>Adding and removing\<close>

definition enqueue_tx :: "pool_env \<Rightarrow> h256 \<Rightarrow> signed_transaction \<Rightarrow> bool \<Rightarrow> bool \<Rightarrow> bool pool_action" where
  "enqueue_tx E hash tx local add_all p =
     (let from_addr = sender_in E tx in
      case tl_add tx (cf_price_bump (tp_config p)) (list_or_new False (tp_queue p) from_addr) of
        Inl e \<Rightarrow> (Inl e, p)
      | Inr ((inserted, old), l) \<Rightarrow>
          (let p = set_queue from_addr l p in
           if \<not> inserted then (Inl ReplaceUnderpriced, p)
           else (let p = forget E old p;
                     p = (if add_all then priced_put tx local (all_add E tx local p) else p)
                 in bind (touch_beat E from_addr) (\<lambda>_. ret (old \<noteq> None)) p)))"

definition enqueue_all :: "pool_env \<Rightarrow> signed_transaction list \<Rightarrow> unit pool_action" where
  "enqueue_all E txs = for_each (\<lambda>tx. bind (enqueue_tx E (hash_in E tx) tx False False) (\<lambda>_. ret ())) txs"

text \<open>The two halves of \<open>remove_tx\<close>; the first says whether the method returned there.\<close>

definition remove_pending :: "pool_env \<Rightarrow> address \<Rightarrow> signed_transaction \<Rightarrow> bool pool_action" where
  "remove_pending E sender tx p =
     (case btm_get (tp_pending p) sender of
        None \<Rightarrow> (Inr False, p)
      | Some list \<Rightarrow>
          (let ((removed, invalids), l) = tl_remove tx list in
           if removed then
             (let p = (if tl_is_empty l then p\<lparr>tp_pending := btm_remove sender (tp_pending p)\<rparr> else set_pending sender l p) in
              bind (enqueue_all E invalids) (\<lambda>_.
              bind (modify (\<lambda>p. p\<lparr>tp_noncer := tn_set_if_lower sender (signed_nonce tx) (tp_noncer p)\<rparr>)) (\<lambda>_.
              ret True)) p)
           else (Inr False, set_pending sender l p)))"

definition remove_future :: "address \<Rightarrow> signed_transaction \<Rightarrow> tx_pool \<Rightarrow> tx_pool" where
  "remove_future sender tx p =
     (case btm_get (tp_queue p) sender of
        None \<Rightarrow> p
      | Some future \<Rightarrow>
          (let ((removed, _), l) = tl_remove tx future; p = set_queue sender l p in
           if removed \<and> tp_pending p = [] then p\<lparr>tp_queue := btm_remove sender (tp_queue p)\<rparr> else p))"

definition remove_tx :: "pool_env \<Rightarrow> h256 \<Rightarrow> bool \<Rightarrow> unit pool_action" where
  "remove_tx E hash outofbound p =
     (case lk_get (tp_all p) hash of
        None \<Rightarrow> (Inr (), p)
      | Some tx \<Rightarrow>
          (let p = p\<lparr>tp_all := lk_remove (pe_crypto E) hash (tp_all p)\<rparr>;
               sender = sender_in E tx;
               p = (if outofbound then priced_remove tx p else p)
           in bind (remove_pending E sender tx)
                (\<lambda>returned. if returned then ret () else modify (remove_future sender tx)) p))"

text \<open>The part of \<open>add\<close> that runs when the pool is full.\<close>

definition make_room :: "pool_env \<Rightarrow> signed_transaction \<Rightarrow> bool \<Rightarrow> unit pool_action" where
  "make_room E tx is_local p =
     (let limit = cf_global_slots (tp_config p) + cf_global_queue (tp_config p);
          num = num_slots (pe_crypto E) tx
      in if lk_slots (tp_all p) + num > limit then
           (if \<not> is_local \<and> pr_underpriced (tp_priced p) tx then (Inl Underpriced, p)
            else if \<not> tp_changes p <s ucast (cf_global_slots (tp_config p) div 4) then (Inl TxPoolOverflow, p)
            else (let (dropped, priced) = pr_discard (lk_slots (tp_all p) - limit + num) (tp_priced p) in
                  for_each (\<lambda>t. remove_tx E (hash_in E t) False) dropped
                    (p\<lparr>tp_priced := priced, tp_changes := word_of_nat (length dropped)\<rparr>)))
         else (Inr (), p))"

definition adopt_local :: "pool_env \<Rightarrow> address \<Rightarrow> bool \<Rightarrow> tx_pool \<Rightarrow> tx_pool" where
  "adopt_local E from_addr local p =
     (if local \<and> \<not> as_contains (tp_locals p) from_addr then
        (let locals = as_add from_addr (tp_locals p);
             (migrated, all) = lk_remote_to_locals (pe_crypto E) locals (tp_all p)
         in fold priced_remove migrated (p\<lparr>tp_locals := locals, tp_all := all\<rparr>))
      else p)"

definition add_new :: "pool_env \<Rightarrow> signed_transaction \<Rightarrow> bool \<Rightarrow> bool \<Rightarrow> bool pool_action" where
  "add_new E tx local is_local =
     bind (enqueue_tx E (hash_in E tx) tx is_local True) (\<lambda>replaced.
     bind (modify (adopt_local E (sender_in E tx) local)) (\<lambda>_. ret replaced))"

definition add_place :: "pool_env \<Rightarrow> signed_transaction \<Rightarrow> bool \<Rightarrow> bool \<Rightarrow> bool pool_action" where
  "add_place E tx local is_local p =
     (let from_addr = sender_in E tx in
      case btm_get (tp_pending p) from_addr of
        Some list \<Rightarrow>
          if tl_overlaps tx list then
            (case tl_add tx (cf_price_bump (tp_config p)) list of
               Inl e \<Rightarrow> (Inl e, p)
             | Inr ((inserted, old), l) \<Rightarrow>
                 (let p = set_pending from_addr l p in
                  if \<not> inserted then (Inl ReplaceUnderpriced, p)
                  else (Inr (old \<noteq> None),
                        queue_event E tx (priced_put tx is_local (all_add E tx is_local (forget E old p))))))
          else add_new E tx local is_local p
      | None \<Rightarrow> add_new E tx local is_local p)"

definition add :: "pool_env \<Rightarrow> signed_transaction \<Rightarrow> bool \<Rightarrow> bool pool_action" where
  "add E tx local p =
     (if lk_contains (tp_all p) (hash_in E tx) then (Inl TransactionAlreadyKnown, p)
      else (let is_local = local \<or> as_contains (tp_locals p) (sender_in E tx) in
            bind (lift_res (validate_tx E p tx)) (\<lambda>_.
            bind (make_room E tx is_local) (\<lambda>_.
            add_place E tx local is_local)) p))"

definition promote_tx :: "pool_env \<Rightarrow> address \<Rightarrow> h256 \<Rightarrow> signed_transaction \<Rightarrow> bool pool_action" where
  "promote_tx E addr hash tx p =
     (case tl_add tx (cf_price_bump (tp_config p)) (list_or_new True (tp_pending p) addr) of
        Inl e \<Rightarrow> (Inl e, p)
      | Inr ((inserted, old), l) \<Rightarrow>
          (let p = set_pending addr l p in
           if \<not> inserted then (Inr False, priced_remove tx (p\<lparr>tp_all := lk_remove (pe_crypto E) hash (tp_all p)\<rparr>))
           else (let p = forget E old p;
                     p = p\<lparr>tp_noncer := tn_set addr (signed_nonce tx + 1) (tp_noncer p)\<rparr>
                 in bind (instant_now E) (\<lambda>t.
                    bind (modify (\<lambda>p. p\<lparr>tp_beats := btm_insert addr t (tp_beats p)\<rparr>)) (\<lambda>_.
                    ret True)) p)))"

section \<open>Adding a batch\<close>

text \<open>A panic or a loop without end is not a \<open>Result\<close>: no \<open>match\<close> catches it.\<close>

definition aborts :: "pool_error \<Rightarrow> bool" where
  "aborts e \<longleftrightarrow> e = PoolPanicked \<or> e = PoolHangs"

text \<open>\<open>Vec::insert\<close> panics beyond the end.\<close>

definition vec_insert :: "nat \<Rightarrow> 'a \<Rightarrow> 'a list \<Rightarrow> 'a list option" where
  "vec_insert i x xs = (if i > length xs then None else Some (take i xs @ x # drop i xs))"

definition add_locked_step ::
  "pool_env \<Rightarrow> bool \<Rightarrow> nat \<times> signed_transaction \<Rightarrow> account_set \<times> pool_error list \<Rightarrow> (account_set \<times> pool_error list) pool_action" where
  "add_locked_step E local itx acc p =
     (case add E (snd itx) local p of
        (Inr replaced, p) \<Rightarrow> (Inr (if replaced then fst acc else as_add (sender_in E (snd itx)) (fst acc), snd acc), p)
      | (Inl e, p) \<Rightarrow>
          if aborts e then (Inl e, p)
          else (case vec_insert (fst itx) e (snd acc) of
                  None \<Rightarrow> (Inl PoolPanicked, p)
                | Some errors \<Rightarrow> (Inr (fst acc, errors), p)))"

definition add_txs_locked :: "pool_env \<Rightarrow> signed_transaction list \<Rightarrow> bool \<Rightarrow> (account_set \<times> pool_error list) pool_action" where
  "add_txs_locked E txs local = for_acc (add_locked_step E local) (enumerate 0 txs) (as_new, [])"

section \<open>A new head\<close>

text \<open>\<open>extend\<close> with the transactions of a block: the set is ordered by nonce alone.\<close>

definition extend_txs :: "signed_transaction list \<Rightarrow> block \<Rightarrow> signed_transaction list" where
  "extend_txs acc b = fold (bts_insert nonce_tx_cmp) (bk_transactions b) acc"

text \<open>\<open>BTreeSet::intersection\<close>: when the ranges only touch, or one set is sixteen times larger, the answer is
  found without walking both, and in the last case the elements are those of the other set.\<close>

definition bts_mem :: "('a \<Rightarrow> 'a \<Rightarrow> ordering) \<Rightarrow> 'a list \<Rightarrow> 'a \<Rightarrow> bool" where
  "bts_mem c xs x \<longleftrightarrow> list_ex (\<lambda>y. c x y = Equal) xs"

definition bts_intersection :: "('a \<Rightarrow> 'a \<Rightarrow> ordering) \<Rightarrow> 'a list \<Rightarrow> 'a list \<Rightarrow> 'a list" where
  "bts_intersection c xs ys =
     (if xs = [] \<or> ys = [] then []
      else if c (hd xs) (last ys) = Greater \<or> c (last xs) (hd ys) = Less then []
      else if c (hd xs) (last ys) = Equal then [hd xs]
      else if c (last xs) (hd ys) = Equal then [last xs]
      else if length xs \<le> length ys div 16 then filter (bts_mem c ys) xs
      else if length ys \<le> length xs div 16 then filter (bts_mem c xs) ys
      else filter (bts_mem c ys) xs)"

text \<open>The walks back to a common ancestor.  \<open>Inr None\<close> is the early \<open>return Ok(())\<close>.\<close>

partial_function (option) walk_down ::
  "pool_env \<Rightarrow> u32 \<Rightarrow> block \<Rightarrow> signed_transaction list \<Rightarrow> (pool_error + (block \<times> signed_transaction list) option) option" where
  "walk_down E bound b acc =
     (if block_level b > bound then
        (case pe_block E (block_parent_hash b) (block_level b - 1) of
           Inl e \<Rightarrow> Some (Inl e)
         | Inr None \<Rightarrow> Some (Inr None)
         | Inr (Some b') \<Rightarrow> walk_down E bound b' (extend_txs acc b))
      else Some (Inr (Some (b, acc))))"

partial_function (option) walk_both ::
  "pool_env \<Rightarrow> block \<Rightarrow> block \<Rightarrow> signed_transaction list \<Rightarrow> signed_transaction list
     \<Rightarrow> (pool_error + (signed_transaction list \<times> signed_transaction list) option) option" where
  "walk_both E rem_b add_b discarded included =
     (if block_hash (pe_sha E) rem_b \<noteq> block_hash (pe_sha E) add_b then
        (case pe_block E (block_parent_hash rem_b) (block_level rem_b - 1) of
           Inl e \<Rightarrow> Some (Inl e)
         | Inr None \<Rightarrow> Some (Inr None)
         | Inr (Some rem') \<Rightarrow>
             (case pe_block E (block_parent_hash add_b) (block_level add_b - 1) of
                Inl e \<Rightarrow> Some (Inl e)
              | Inr None \<Rightarrow> Some (Inr None)
              | Inr (Some add') \<Rightarrow> walk_both E rem' add' (extend_txs discarded rem_b) (extend_txs included add_b)))
      else Some (Inr (Some (discarded, included))))"

definition or_hang :: "(pool_error + 'a) option \<Rightarrow> pool_error + 'a" where
  "or_hang r = (case r of None \<Rightarrow> Inl PoolHangs | Some x \<Rightarrow> x)"

definition reinjected :: "pool_env \<Rightarrow> block \<Rightarrow> block \<Rightarrow> pool_error + signed_transaction list option" where
  "reinjected E rem_b add_b =
     rbind (or_hang (walk_down E (block_level add_b) rem_b [])) (\<lambda>r. case r of None \<Rightarrow> Inr None | Some (rem_b, discarded) \<Rightarrow>
     rbind (or_hang (walk_down E (block_level rem_b) add_b [])) (\<lambda>r. case r of None \<Rightarrow> Inr None | Some (add_b, included) \<Rightarrow>
     rbind (or_hang (walk_both E rem_b add_b discarded included)) (\<lambda>r. case r of None \<Rightarrow> Inr None | Some (discarded, included) \<Rightarrow>
     Inr (Some (bts_intersection nonce_tx_cmp discarded included)))))"

definition i32_abs :: "32 word \<Rightarrow> 32 word" where
  "i32_abs x = (if x <s 0 then - x else x)"

definition reinject_of :: "pool_env \<Rightarrow> block_header option \<Rightarrow> block_header \<Rightarrow> pool_error + signed_transaction list option" where
  "reinject_of E old_head new_head =
     (case old_head of
        None \<Rightarrow> Inr (Some [])
      | Some old \<Rightarrow>
          if header_hash (pe_sha E) old = parent_hash new_head then Inr (Some [])
          else if 64 <s i32_abs (level old - level new_head) then Inr (Some [])
          else rbind (pe_block E (header_hash (pe_sha E) old) (level old)) (\<lambda>rem_b.
               rbind (pe_block E (header_hash (pe_sha E) new_head) (level new_head)) (\<lambda>add_b.
               case add_b of
                 None \<Rightarrow> Inl MissingBlock
               | Some add_b \<Rightarrow>
                   (case rem_b of
                      Some rem_b \<Rightarrow> reinjected E rem_b add_b
                    | None \<Rightarrow> if level new_head > level old then Inr None else Inr (Some [])))))"

definition reset :: "pool_env \<Rightarrow> block_header option \<Rightarrow> block_header \<Rightarrow> unit pool_action" where
  "reset E old_head new_head =
     bind (lift_res (reinject_of E old_head new_head)) (\<lambda>r.
     case r of
       None \<Rightarrow> ret ()
     | Some reinject \<Rightarrow>
         bind (lift_res (pe_state_at E (state_root new_head))) (\<lambda>st.
         bind (modify (\<lambda>p. p\<lparr>tp_state := st, tp_noncer := tn_new st\<rparr>)) (\<lambda>_.
         bind (add_txs_locked E reinject False) (\<lambda>_. ret ()))))"

section \<open>Truncation\<close>

definition drop_capped :: "pool_env \<Rightarrow> address \<Rightarrow> signed_transaction \<Rightarrow> tx_pool \<Rightarrow> tx_pool" where
  "drop_capped E addr tx p =
     (let p = priced_remove tx (all_remove E tx p) in p\<lparr>tp_noncer := tn_set_if_lower addr (signed_nonce tx) (tp_noncer p)\<rparr>)"

text \<open>One transaction less for an offender; \<open>None\<close> when the account has no pending list.\<close>

definition cap_offender :: "pool_env \<Rightarrow> address \<Rightarrow> tx_pool \<Rightarrow> tx_pool option" where
  "cap_offender E addr p =
     (case btm_get (tp_pending p) addr of
        None \<Rightarrow> None
      | Some list \<Rightarrow>
          (let (caps, l) = tl_cap (word_of_nat (tl_len list - 1)) list in
           Some (fold (drop_capped E addr) caps (set_pending addr l p))))"

definition pending_len :: "tx_pool \<Rightarrow> address \<Rightarrow> nat" where
  "pending_len p addr = (case btm_get (tp_pending p) addr of None \<Rightarrow> 0 | Some l \<Rightarrow> tl_len l)"

definition fair_round :: "pool_env \<Rightarrow> address list \<Rightarrow> tx_pool \<times> u64 \<Rightarrow> tx_pool + tx_pool \<times> u64" where
  "fair_round E offenders s =
     rfold (\<lambda>addr (p, n). case cap_offender E addr p of None \<Rightarrow> Inl p | Some p' \<Rightarrow> Inr (p', n - 1)) offenders s"

definition reduce_round :: "pool_env \<Rightarrow> address list \<Rightarrow> tx_pool \<times> u64 \<Rightarrow> tx_pool \<times> u64" where
  "reduce_round E offenders s =
     fold (\<lambda>addr (p, n). case cap_offender E addr p of None \<Rightarrow> (p, n) | Some p' \<Rightarrow> (p', n - 1)) offenders s"

text \<open>The loop that equalizes the offenders; \<open>Inl\<close> is the early \<open>return\<close>.  Each round takes one transaction
  from \<open>prev\<close>, so as many rounds as its list is long are enough.\<close>

fun equalize :: "pool_env \<Rightarrow> address list \<Rightarrow> address \<Rightarrow> nat \<Rightarrow> nat \<Rightarrow> tx_pool \<times> u64 \<Rightarrow> tx_pool + tx_pool \<times> u64" where
  "equalize E offenders prev threshold 0 s = Inr s"
| "equalize E offenders prev threshold (Suc fuel) s =
     (if snd s > cf_global_slots (tp_config (fst s)) \<and> pending_len (fst s) prev > threshold then
        rbind (fair_round E offenders s) (equalize E offenders prev threshold fuel)
      else Inr s)"

text \<open>The loop over the spammers, the largest first.\<close>

fun offend :: "pool_env \<Rightarrow> nat \<Rightarrow> address priority_queue \<Rightarrow> address list \<Rightarrow> tx_pool \<times> u64 \<Rightarrow> tx_pool + address list \<times> tx_pool \<times> u64" where
  "offend E 0 spammers offenders s = Inr (offenders, s)"
| "offend E (Suc fuel) spammers offenders s =
     (if snd s > cf_global_slots (tp_config (fst s)) then
        (case pq_pop spammers of
           (None, _) \<Rightarrow> Inr (offenders, s)
         | (Some (offender, _), spammers) \<Rightarrow>
             (if offenders = [] then offend E fuel spammers [offender] s
              else rbind (equalize E (offenders @ [offender]) (last offenders) (pending_len (fst s) offender)
                            (pending_len (fst s) (last offenders)) s)
                     (offend E fuel spammers (offenders @ [offender]))))
      else Inr (offenders, s))"

fun reduce :: "pool_env \<Rightarrow> address list \<Rightarrow> nat \<Rightarrow> tx_pool \<times> u64 \<Rightarrow> tx_pool \<times> u64" where
  "reduce E offenders 0 s = s"
| "reduce E offenders (Suc fuel) s =
     (if snd s > cf_global_slots (tp_config (fst s))
         \<and> word_of_nat (pending_len (fst s) (last offenders)) > cf_account_slots (tp_config (fst s)) then
        reduce E offenders fuel (reduce_round E offenders s)
      else s)"

definition spammers_of :: "pool_env \<Rightarrow> tx_pool \<Rightarrow> address priority_queue" where
  "spammers_of E p =
     fold (\<lambda>(addr, list) q.
             if \<not> as_contains (tp_locals p) addr \<and> word_of_nat (tl_len list) > cf_account_slots (tp_config p)
             then pq_push addr (int (tl_len list)) q else q) (entries E (tp_pending p)) pq_new"

definition truncate_pending :: "pool_env \<Rightarrow> tx_pool \<Rightarrow> tx_pool" where
  "truncate_pending E p =
     (let pending = word_of_nat (fold (\<lambda>(_, list) n. n + tl_len list) (entries E (tp_pending p)) 0) in
      if pending \<le> cf_global_slots (tp_config p) then p
      else (let spammers = spammers_of E p in
            case offend E (length spammers) spammers [] (p, pending) of
              Inl p \<Rightarrow> p
            | Inr (offenders, s) \<Rightarrow>
                if snd s > cf_global_slots (tp_config (fst s)) \<and> offenders \<noteq> []
                then fst (reduce E offenders (pending_len (fst s) (last offenders)) s)
                else fst s))"

text \<open>\<open>AddressByHeartbeat\<close> is ordered by the heartbeat alone.\<close>

definition heartbeat_cmp :: "address \<times> nat \<Rightarrow> address \<times> nat \<Rightarrow> ordering" where
  "heartbeat_cmp a b = cmp (snd a) (snd b)"

definition heartbeats :: "pool_env \<Rightarrow> tx_pool \<Rightarrow> pool_error + (address \<times> nat) list" where
  "heartbeats E p =
     rfold (\<lambda>(addr, _) acc.
              if as_contains (tp_locals p) addr then Inr acc
              else rbind (ok_or (btm_get (tp_beats p) addr) PoolPanicked) (\<lambda>t. Inr (bts_insert heartbeat_cmp (addr, t) acc)))
       (entries E (tp_queue p)) []"

text \<open>The inner loop counts down from \<open>txs.len()\<close>, one beyond the last index.\<close>

fun drop_tail :: "pool_env \<Rightarrow> signed_transaction list \<Rightarrow> nat \<Rightarrow> u64 \<Rightarrow> u64 pool_action" where
  "drop_tail E txs 0 todo = ret todo"
| "drop_tail E txs (Suc i) todo =
     (if todo > 0 then
        (if i < length txs then bind (remove_tx E (hash_in E (txs ! i)) True) (\<lambda>_. drop_tail E txs i (todo - 1))
         else fail PoolPanicked)
      else ret todo)"

fun drop_queued :: "pool_env \<Rightarrow> address list \<Rightarrow> u64 \<Rightarrow> unit pool_action" where
  "drop_queued E [] todo p = (Inr (), p)"
| "drop_queued E (addr # addrs) todo p =
     (if todo > 0 then
        (case btm_get (tp_queue p) addr of
           None \<Rightarrow> (Inr (), p)
         | Some list \<Rightarrow>
             if word_of_nat (tl_len list) \<le> todo then
               bind (for_each (\<lambda>tx. remove_tx E (hash_in E tx) True) (tl_flatten list))
                 (\<lambda>_. drop_queued E addrs (todo - word_of_nat (tl_len list))) p
             else bind (drop_tail E (tl_flatten list) (Suc (length (tl_flatten list))) todo) (drop_queued E addrs) p)
      else (Inr (), p))"

definition truncate_queue :: "pool_env \<Rightarrow> unit pool_action" where
  "truncate_queue E p =
     (let queued = word_of_nat (fold (\<lambda>(_, list) _. tl_len list) (entries E (tp_queue p)) 0) in
      if queued \<le> cf_global_queue (tp_config p) then (Inr (), p)
      else bind (lift_res (heartbeats E p))
             (\<lambda>addresses. drop_queued E (rev (map fst addresses)) (queued - cf_global_queue (tp_config p))) p)"

section \<open>Demotion and promotion\<close>

definition demote_account :: "pool_env \<Rightarrow> address \<Rightarrow> signed_transaction list \<Rightarrow> tx_pool \<Rightarrow> signed_transaction list \<times> tx_pool" where
  "demote_account E addr enqueue p =
     (case btm_get (tp_pending p) addr of
        None \<Rightarrow> (enqueue, p)
      | Some list \<Rightarrow>
          (let nonce = sv_nonce (tp_state p) addr;
               (olds, list) = tl_forward nonce list;
               p = fold (all_remove E) olds p;
               (filtered, list) = tl_filter (sv_balance (tp_state p) addr) list;
               (p, enqueue) =
                 (case filtered of None \<Rightarrow> (p, enqueue) | Some (drops, invalids) \<Rightarrow> (fold (all_remove E) drops p, enqueue @ invalids));
               (gapped, list) = (if \<not> tl_is_empty list \<and> sl_get (tl_txs list) nonce = None then tl_cap 0 list else ([], list))
           in (enqueue @ gapped, set_pending addr list p)))"

definition demote_unexecutable :: "pool_env \<Rightarrow> unit pool_action" where
  "demote_unexecutable E p =
     (let (enqueue, p) = fold (\<lambda>(addr, _) (enqueue, p). demote_account E addr enqueue p) (entries E (tp_pending p)) ([], p) in
      bind (enqueue_all E enqueue)
        (\<lambda>_. modify (\<lambda>p. p\<lparr>tp_pending := filter (\<lambda>(_, list). \<not> tl_is_empty list) (tp_pending p)\<rparr>)) p)"

definition promote_ready ::
  "pool_env \<Rightarrow> address \<Rightarrow> signed_transaction \<Rightarrow> signed_transaction list \<Rightarrow> (signed_transaction list) pool_action" where
  "promote_ready E addr tx promoted =
     bind (promote_tx E addr (hash_in E tx) tx) (\<lambda>inserted. ret (if inserted then promoted @ [tx] else promoted))"

definition promote_account :: "pool_env \<Rightarrow> address \<Rightarrow> signed_transaction list \<Rightarrow> (signed_transaction list) pool_action" where
  "promote_account E addr promoted p =
     (case btm_get (tp_queue p) addr of
        None \<Rightarrow> (Inr promoted, p)
      | Some list \<Rightarrow>
          (let (olds, list) = tl_forward (sv_nonce (tp_state p) addr) list;
               p = fold (all_remove E) olds p;
               (filtered, list) = tl_filter (sv_balance (tp_state p) addr) list;
               drops = (case filtered of None \<Rightarrow> [] | Some (drops, _) \<Rightarrow> drops);
               p = fold (all_remove E) drops p;
               (start, noncer) = tn_get addr (tp_noncer p);
               (readies, list) = tl_ready start list
           in for_acc (promote_ready E addr) readies promoted (set_queue addr list (p\<lparr>tp_noncer := noncer\<rparr>))))"

definition cap_account :: "pool_env \<Rightarrow> address \<Rightarrow> tx_pool \<Rightarrow> tx_pool" where
  "cap_account E addr p =
     (case btm_get (tp_queue p) addr of
        None \<Rightarrow> p
      | Some list \<Rightarrow>
          (let (caps, list) = (if as_contains (tp_locals p) addr then ([], list) else tl_cap (cf_account_queue (tp_config p)) list);
               p = set_queue addr list (fold (all_remove E) caps p)
           in if tl_is_empty list
              then p\<lparr>tp_queue := btm_remove addr (tp_queue p), tp_beats := btm_remove addr (tp_beats p)\<rparr> else p))"

definition promote_executable :: "pool_env \<Rightarrow> address list \<Rightarrow> (signed_transaction list) pool_action" where
  "promote_executable E accounts =
     bind (for_acc (promote_account E) accounts []) (\<lambda>promoted.
     bind (modify (fold (cap_account E) accounts)) (\<lambda>_. ret promoted))"

section \<open>Repacking\<close>

record reset_request =
  rr_old_head :: "block_header option"
  rr_new_head :: block_header

definition send :: "pool_env \<Rightarrow> signed_transaction list \<Rightarrow> unit pool_action" where
  "send E txs p = (if pe_open E then (Inr (), p\<lparr>tp_sent := tp_sent p @ [txs]\<rparr>) else (Inl SendFailed, p))"

type_synonym events = "(address, tx_sorted_list) btmap"

definition forward_events :: "pool_env \<Rightarrow> events \<Rightarrow> events pool_action" where
  "forward_events E events =
     bind (for_acc (\<lambda>(addr, list) acc p.
                      (let (nonce, noncer) = tn_get addr (tp_noncer p) in
                       (Inr (btm_insert addr (snd (sl_forward nonce list)) acc), p\<lparr>tp_noncer := noncer\<rparr>)))
             (entries E events) events)
       (\<lambda>events. ret (filter (\<lambda>(_, txs). txs \<noteq> []) events))"

definition highest_step :: "address \<times> tx_list \<Rightarrow> (address \<times> u64) list \<times> tx_pool \<Rightarrow> (address \<times> u64) list \<times> tx_pool" where
  "highest_step e s =
     (let nonces = (case tl_last_element (snd e) of None \<Rightarrow> fst s | Some t \<Rightarrow> fst s @ [(fst e, signed_nonce t + 1)]) in
      (nonces, (snd s)\<lparr>tp_noncer := tn_set_all nonces (tp_noncer (snd s))\<rparr>))"

definition after_reset :: "pool_env \<Rightarrow> unit pool_action" where
  "after_reset E =
     bind (demote_unexecutable E) (\<lambda>_. modify (\<lambda>p. snd (fold highest_step (entries E (tp_pending p)) ([], p))))"

definition note_promoted :: "pool_env \<Rightarrow> signed_transaction \<Rightarrow> events \<Rightarrow> events" where
  "note_promoted E tx events =
     (let l = (case btm_get events (sender_in E tx) of None \<Rightarrow> sl_new | Some l \<Rightarrow> l) in btm_insert (sender_in E tx) (sl_put tx l) events)"

definition prepare_repack :: "pool_env \<Rightarrow> account_set \<Rightarrow> reset_request option \<Rightarrow> (events \<times> address list) pool_action" where
  "prepare_repack E dirty req =
     bind (gets tp_events) (\<lambda>events.
     case req of
       None \<Rightarrow> ret (events, dirty)
     | Some r \<Rightarrow>
         bind (reset E (rr_old_head r) (rr_new_head r)) (\<lambda>_.
         bind (forward_events E events) (\<lambda>events.
         bind (gets (\<lambda>p. map fst (entries E (tp_queue p)))) (\<lambda>addrs.
         ret (events, addrs)))))"

definition repack :: "pool_env \<Rightarrow> account_set \<Rightarrow> reset_request option \<Rightarrow> unit pool_action" where
  "repack E dirty req =
     bind (prepare_repack E dirty req) (\<lambda>(events, promote_addrs).
     bind (promote_executable E promote_addrs) (\<lambda>promoted.
     bind (if req \<noteq> None then after_reset E else ret ()) (\<lambda>_.
     bind (modify (truncate_pending E)) (\<lambda>_.
     bind (truncate_queue E) (\<lambda>_.
     bind (modify (\<lambda>p. p\<lparr>tp_changes := 0\<rparr>)) (\<lambda>_.
     (let events = fold (note_promoted E) promoted events in
      if events = [] then ret () else send E (concat (map (sl_flatten \<circ> snd) (entries E events))))))))))"

definition add_txs :: "pool_env \<Rightarrow> signed_transaction list \<Rightarrow> bool \<Rightarrow> unit pool_action" where
  "add_txs E txs local p =
     (let known = filter (\<lambda>tx. lk_contains (tp_all p) (hash_in E tx)) txs;
          news = filter (\<lambda>tx. \<not> lk_contains (tp_all p) (hash_in E tx)) txs;
          errors = map (\<lambda>_. TransactionAlreadyKnown) known
      in if news = [] then (Inl (CompositeErrors errors), p)
         else bind (add_txs_locked E news local) (\<lambda>(dirty, new_errors).
              bind (repack E dirty None) (\<lambda>_.
              bind (modify (\<lambda>p. p\<lparr>tp_events := []\<rparr>)) (\<lambda>_.
              if errors @ new_errors \<noteq> [] then fail (CompositeErrors (errors @ new_errors)) else ret ()))) p)"

section \<open>The public interface\<close>

definition add_local :: "pool_env \<Rightarrow> signed_transaction \<Rightarrow> unit pool_action" where
  "add_local E tx = add_txs E [tx] True"

definition add_locals :: "pool_env \<Rightarrow> signed_transaction list \<Rightarrow> unit pool_action" where
  "add_locals E txs = add_txs E txs True"

definition add_remote :: "pool_env \<Rightarrow> signed_transaction \<Rightarrow> unit pool_action" where
  "add_remote E tx = add_txs E [tx] False"

definition add_remotes :: "pool_env \<Rightarrow> signed_transaction list \<Rightarrow> unit pool_action" where
  "add_remotes E txs = add_txs E txs False"

definition pool_get :: "tx_pool \<Rightarrow> h256 \<Rightarrow> signed_transaction option" where
  "pool_get p hash = lk_get (tp_all p) hash"

definition pool_has :: "tx_pool \<Rightarrow> h256 \<Rightarrow> bool" where
  "pool_has p hash = lk_contains (tp_all p) hash"

definition tx_status :: "pool_env \<Rightarrow> tx_pool \<Rightarrow> h256 \<Rightarrow> transaction_status" where
  "tx_status E p hash =
     (case pool_get p hash of
        None \<Rightarrow> NotFound
      | Some tx \<Rightarrow>
          (case btm_get (tp_pending p) (sender_in E tx) of
             Some list \<Rightarrow> if sl_has (tl_txs list) (signed_nonce tx) then Pending else NotFound
           | None \<Rightarrow>
               (case btm_get (tp_queue p) (sender_in E tx) of
                  Some list \<Rightarrow> if sl_has (tl_txs list) (signed_nonce tx) then Pending else NotFound
                | None \<Rightarrow> NotFound)))"

definition status :: "pool_env \<Rightarrow> tx_pool \<Rightarrow> h256 list \<Rightarrow> transaction_status list" where
  "status E p hashes = map (tx_status E p) hashes"

definition pool_nonce :: "address \<Rightarrow> u64 pool_action" where
  "pool_nonce address p =
     (let nonce = sv_nonce (tp_state p) address;
          (sn, noncer) = tn_get address (tp_noncer p);
          nonce = (if sn > nonce then sn else nonce);
          noncer = (if sn < nonce then tn_set address nonce noncer else noncer)
      in (Inr nonce, p\<lparr>tp_noncer := noncer\<rparr>))"

definition stats :: "tx_pool \<Rightarrow> nat \<times> nat" where
  "stats p = (sum_list (map (tl_len \<circ> snd) (tp_pending p)), sum_list (map (tl_len \<circ> snd) (tp_queue p)))"

definition pool_pending :: "tx_pool \<Rightarrow> (address, signed_transaction list) btmap" where
  "pool_pending p = map (apsnd tl_flatten) (tp_pending p)"

definition content :: "tx_pool \<Rightarrow> (address, signed_transaction list) btmap \<times> (address, signed_transaction list) btmap" where
  "content p = (map (apsnd tl_flatten) (tp_pending p), map (apsnd tl_flatten) (tp_queue p))"

definition content_from :: "tx_pool \<Rightarrow> address \<Rightarrow> signed_transaction list \<times> signed_transaction list" where
  "content_from p address =
     ((case btm_get (tp_pending p) address of None \<Rightarrow> [] | Some l \<Rightarrow> tl_flatten l),
      (case btm_get (tp_queue p) address of None \<Rightarrow> [] | Some l \<Rightarrow> tl_flatten l))"

definition pool_locals :: "tx_pool \<Rightarrow> address list" where
  "pool_locals p = tp_locals p"

end
