(* ===== verification/Txpool_Props.thy ===== *)
theory Txpool_Props
  imports Txpool
begin

text \<open>
  The type invariant of the transaction pool and what follows from it.  \<open>pool_ok\<close> says that every list of
  the pool holds transactions of its own account under their own nonces, that the lookup files every
  transaction under its hash and counts its slots, and that every queued account has a heartbeat.  It is
  proved for each operation, whatever the operation returns.
\<close>

section \<open>Lists of an account\<close>

definition list_ok :: "pool_env \<Rightarrow> bool \<Rightarrow> address \<Rightarrow> tx_list \<Rightarrow> bool" where
  "list_ok E strict a l \<longleftrightarrow> tl_strict l = strict \<and> btm_wf (tl_txs l)
     \<and> (\<forall>n t. (n, t) \<in> set (tl_txs l) \<longrightarrow> signed_nonce t = n \<and> sender_in E t = a)"

lemma list_ok_new: "list_ok E strict a (tl_new strict)"
  by (simp add: list_ok_def tl_new_def sl_new_def)

lemma list_ok_filter: "list_ok E strict a l \<Longrightarrow> list_ok E strict a (l\<lparr>tl_txs := filter f (tl_txs l)\<rparr>)"
  by (auto simp: list_ok_def btm_wf_filter)

lemma list_ok_sender: "list_ok E strict a l \<Longrightarrow> t \<in> set (map snd (tl_txs l)) \<Longrightarrow> sender_in E t = a"
  by (auto simp: list_ok_def)

lemma btm_wf_drop: "btm_wf m \<Longrightarrow> btm_wf (drop n m)"
  by (simp add: btm_wf_def drop_map [symmetric] sorted_wrt_drop)

lemma list_ok_drop: "list_ok E strict a l \<Longrightarrow> list_ok E strict a (l\<lparr>tl_txs := drop n (tl_txs l)\<rparr>)"
  by (auto simp: list_ok_def btm_wf_drop dest: in_set_dropD)

lemma list_ok_put:
  "list_ok E strict a l \<Longrightarrow> sender_in E tx = a \<Longrightarrow> list_ok E strict a (l\<lparr>tl_txs := sl_put tx (tl_txs l)\<rparr>)"
  using set_btm_insert [of "signed_nonce tx" tx "tl_txs l"] by (auto simp: list_ok_def sl_put_def btm_wf_insert)

lemma list_ok_add:
  assumes "tl_add tx bump l = Inr (r, l')" "list_ok E strict a l" "sender_in E tx = a"
  shows "list_ok E strict a l'"
  using assms list_ok_put [OF assms(2,3)] by (auto simp: tl_add_def Let_def split: option.splits if_splits)

lemma list_ok_remove:
  assumes "tl_remove tx l = (r, l')" "list_ok E strict a l"
  shows "list_ok E strict a l'"
  using assms
  by (auto simp: tl_remove_def sl_remove_def sl_filter_def btm_drain_def btm_remove_def Let_def split: if_splits intro: list_ok_filter)

lemma list_ok_forward: "tl_forward n l = (out, l') \<Longrightarrow> list_ok E strict a l \<Longrightarrow> list_ok E strict a l'"
  by (auto simp: tl_forward_def sl_forward_def sl_filter_def btm_drain_def list_ok_filter)

lemma list_ok_ready:
  "tl_ready n l = (out, l') \<Longrightarrow> list_ok E strict a l \<Longrightarrow> list_ok E strict a l' \<and> (\<forall>t. t \<in> set out \<longrightarrow> sender_in E t = a)"
  using list_ok_sender [of E strict a l] by (fastforce simp: tl_ready_def sl_ready_def sl_filter_def btm_drain_def list_ok_filter)

lemma sl_cap_loop_drop: "sl_cap_loop n l = (map snd (take (length l - n) l), drop (length l - n) l)"
  by (induction n l rule: sl_cap_loop.induct) (auto simp: Suc_diff_le not_less_eq_eq)

lemma sl_cap_drop: "sl_cap n l = (map snd (take (length l - n) l), drop (length l - n) l)"
  by (simp add: sl_cap_def sl_cap_loop_drop)

lemma list_ok_cap: "tl_cap n l = (out, l') \<Longrightarrow> list_ok E strict a l \<Longrightarrow> list_ok E strict a l'"
  by (auto simp: tl_cap_def sl_cap_drop list_ok_drop)

lemma list_ok_price:
  assumes "tl_filter limit l = (r, l')" "list_ok E strict a l"
  shows "list_ok E strict a l'"
  using assms by (auto simp: tl_filter_def sl_filter_def btm_drain_def Let_def split: if_splits intro: list_ok_filter)

lemmas list_ok_rules = list_ok_add list_ok_remove list_ok_forward list_ok_cap list_ok_price

section \<open>The invariant\<close>

definition book_ok :: "pool_env \<Rightarrow> bool \<Rightarrow> (address, tx_list) btmap \<Rightarrow> bool" where
  "book_ok E strict m \<longleftrightarrow> btm_wf m \<and> (\<forall>a l. btm_get m a = Some l \<longrightarrow> list_ok E strict a l)"

text \<open>\<open>H\<close> is a set of hashes known not to be in the pool.\<close>

definition pool_ok :: "pool_env \<Rightarrow> h256 set \<Rightarrow> tx_pool \<Rightarrow> bool" where
  "pool_ok E H p \<longleftrightarrow> book_ok E True (tp_pending p) \<and> book_ok E False (tp_queue p)
     \<and> lk_wf (pe_crypto E) (tp_all p) \<and> (\<forall>h \<in> H. \<not> lk_contains (tp_all p) h)
     \<and> (\<forall>a. btm_contains (tp_queue p) a \<longrightarrow> btm_contains (tp_beats p) a)"

lemma pool_ok_update [simp]:
  "pool_ok E H (p\<lparr>tp_noncer := n\<rparr>) = pool_ok E H p"
  "pool_ok E H (p\<lparr>tp_clock := c\<rparr>) = pool_ok E H p"
  "pool_ok E H (p\<lparr>tp_changes := k\<rparr>) = pool_ok E H p"
  "pool_ok E H (p\<lparr>tp_state := st\<rparr>) = pool_ok E H p"
  "pool_ok E H (p\<lparr>tp_sent := txss\<rparr>) = pool_ok E H p"
  "pool_ok E H (p\<lparr>tp_events := ev\<rparr>) = pool_ok E H p"
  "pool_ok E H (p\<lparr>tp_priced := pr\<rparr>) = pool_ok E H p"
  "pool_ok E H (p\<lparr>tp_locals := ls\<rparr>) = pool_ok E H p"
  by (simp_all add: pool_ok_def)

lemma pool_ok_priced [simp]: "pool_ok E H (priced_remove t p) = pool_ok E H p" "pool_ok E H (priced_put t b p) = pool_ok E H p"
  by (simp_all add: priced_remove_def priced_put_def)

lemma pool_ok_event [simp]: "pool_ok E H (queue_event E' t p) = pool_ok E H p"
  by (simp add: queue_event_def Let_def)

lemma book_ok_insert: "book_ok E strict m \<Longrightarrow> list_ok E strict a l \<Longrightarrow> book_ok E strict (btm_insert a l m)"
  by (simp add: book_ok_def btm_wf_insert)

lemma book_ok_remove: "book_ok E strict m \<Longrightarrow> book_ok E strict (btm_remove a m)"
  by (auto simp: book_ok_def btm_remove_def btm_wf_filter btm_get_filter split: option.splits if_splits)

lemma book_ok_filter: "book_ok E strict m \<Longrightarrow> book_ok E strict (filter f m)"
  by (auto simp: book_ok_def btm_wf_filter btm_get_filter split: option.splits if_splits)

lemma book_ok_get: "book_ok E strict m \<Longrightarrow> btm_get m a = Some l \<Longrightarrow> list_ok E strict a l"
  by (simp add: book_ok_def)

lemma book_ok_list_or_new: "book_ok E strict m \<Longrightarrow> list_ok E strict a (list_or_new strict m a)"
  by (simp add: list_or_new_def list_ok_new book_ok_get split: option.split)

lemma pool_ok_set_pending: "pool_ok E H p \<Longrightarrow> list_ok E True a l \<Longrightarrow> pool_ok E H (set_pending a l p)"
  by (simp add: pool_ok_def set_pending_def book_ok_insert)

lemma pool_ok_set_queue:
  "pool_ok E H p \<Longrightarrow> list_ok E False a l \<Longrightarrow> btm_contains (tp_beats p) a \<Longrightarrow> pool_ok E H (set_queue a l p)"
  by (simp add: pool_ok_def set_queue_def book_ok_insert)

lemma pool_ok_beats:
  "pool_ok E H p \<Longrightarrow> pool_ok E H (p\<lparr>tp_noncer := n, tp_clock := c, tp_beats := btm_insert a t (tp_beats p)\<rparr>)"
  by (simp add: pool_ok_def)

lemma pool_ok_lk_remove: "pool_ok E H p \<Longrightarrow> pool_ok E H (p\<lparr>tp_all := lk_remove (pe_crypto E) h (tp_all p)\<rparr>)"
  by (simp add: pool_ok_def lk_wf_remove)

lemma pool_ok_all_remove: "pool_ok E H p \<Longrightarrow> pool_ok E H (all_remove E t p)"
  by (simp add: all_remove_def pool_ok_lk_remove)

lemma pool_ok_forget: "pool_ok E H p \<Longrightarrow> pool_ok E H (forget E old p)"
  by (simp add: forget_def pool_ok_all_remove split: option.split)

lemma pool_ok_all_add: "pool_ok E {hash_in E t} p \<Longrightarrow> pool_ok E {} (all_add E t b p)"
  by (simp add: pool_ok_def all_add_def lk_wf_add)

lemma pool_ok_mono: "pool_ok E H p \<Longrightarrow> H' \<subseteq> H \<Longrightarrow> pool_ok E H' p"
  by (auto simp: pool_ok_def)

lemma pool_ok_books: "pool_ok E H p \<Longrightarrow> book_ok E True (tp_pending p)" "pool_ok E H p \<Longrightarrow> book_ok E False (tp_queue p)"
  by (simp_all add: pool_ok_def)

lemma pool_ok_fold: "(\<And>x p. x \<in> set xs \<Longrightarrow> pool_ok E H p \<Longrightarrow> pool_ok E H (f x p)) \<Longrightarrow> pool_ok E H p \<Longrightarrow> pool_ok E H (fold f xs p)"
  by (induction xs arbitrary: p) simp_all

lemma pool_ok_queue_subset:
  "pool_ok E H p \<Longrightarrow> btm_contains (tp_queue p) a \<Longrightarrow> btm_contains (tp_beats p) a"
  by (simp add: pool_ok_def)

section \<open>Every operation keeps it\<close>

abbreviation keeps_ok :: "pool_env \<Rightarrow> h256 set \<Rightarrow> 'a pool_action \<Rightarrow> bool" where
  "keeps_ok E H m \<equiv> keeps (pool_ok E H) m"

lemma touch_beat_queue:
  assumes "pool_ok E H p" "list_ok E False a l"
  shows "pool_ok E H (snd (touch_beat E a (set_queue a l p)))"
  using assms by (auto simp: touch_beat_def instant_now_def bind_def pool_ok_def set_queue_def book_ok_insert)

text \<open>The beat is written last, but nothing between the update of the queue and it reads the queue.\<close>

lemma set_queue_commute:
  "forget E old (set_queue a l p) = set_queue a l (forget E old p)"
  "priced_put t b (all_add E t b (set_queue a l p)) = set_queue a l (priced_put t b (all_add E t b p))"
  by (simp_all add: forget_def set_queue_def priced_remove_def all_remove_def priced_put_def all_add_def split: option.split)

lemma bind_ret_snd: "snd (bind m (\<lambda>_. ret x) p) = snd (m p)"
  by (simp add: bind_def split: prod.split sum.split)

lemma set_queue_present:
  "pool_ok E H p \<Longrightarrow> btm_get (tp_queue p) a = Some l0 \<Longrightarrow> list_ok E False a l \<Longrightarrow> pool_ok E H (set_queue a l p)"
  using pool_ok_queue_subset [of E H p a] by (intro pool_ok_set_queue) (simp_all add: btm_contains_def)

lemma tl_add_new: "tl_add tx bump (tl_new strict) = Inr ((True, None), (tl_new strict)\<lparr>tl_txs := sl_put tx sl_new\<rparr>)"
  by (simp add: tl_add_def tl_new_def sl_new_def sl_get_def)

lemma enqueue_tx_ok:
  assumes "pool_ok E H p" "add_all \<Longrightarrow> H = {hash_in E tx}"
  shows "pool_ok E (if add_all then {} else H) (snd (enqueue_tx E hash tx local add_all p))"
proof -
  let ?a = "sender_in E tx"
  note list = book_ok_list_or_new [OF pool_ok_books(2) [OF assms(1)], of ?a]
  let ?H = "if add_all then {} else H"
  have sub: "pool_ok E ?H p"
    using assms(1) by (rule pool_ok_mono) auto
  show ?thesis
  proof (cases "tl_add tx (cf_price_bump (tp_config p)) (list_or_new False (tp_queue p) ?a)")
    case (Inl e)
    with sub show ?thesis
      by (simp add: enqueue_tx_def)
  next
    case (Inr r)
    obtain inserted old l where r: "r = ((inserted, old), l)"
      by (metis surj_pair)
    have l: "list_ok E False ?a l"
      using list_ok_add [OF Inr [unfolded r] list] by simp
    show ?thesis
    proof (cases inserted)
      case True
      let ?p = "forget E old p"
      let ?q = "if add_all then priced_put tx local (all_add E tx local ?p) else ?p"
      have "pool_ok E ?H ?q"
        using assms pool_ok_forget [OF assms(1), of old] pool_ok_all_add [of E tx ?p local] by (cases add_all) simp_all
      then have "pool_ok E ?H (snd (touch_beat E ?a (set_queue ?a l ?q)))"
        using l by (rule touch_beat_queue)
      then show ?thesis
        using Inr r True by (simp add: enqueue_tx_def set_queue_commute bind_ret_snd Let_def split: if_splits)
    next
      case False
      then obtain l0 where "btm_get (tp_queue p) ?a = Some l0"
        using Inr r by (cases "btm_get (tp_queue p) ?a") (auto simp: list_or_new_def tl_add_new)
      with set_queue_present [OF sub _ l] show ?thesis
        using Inr r False by (simp add: enqueue_tx_def)
    qed
  qed
qed

lemma enqueue_all_ok: "keeps_ok E H (enqueue_all E txs)"
proof -
  have "keeps_ok E H (enqueue_tx E h tx False False)" for h tx
    using enqueue_tx_ok [of E H _ False tx h False] by (intro keepsI) simp
  then show ?thesis
    unfolding enqueue_all_def by (intro keeps_intros) simp_all
qed

lemma pool_ok_drop_pending: "pool_ok E H p \<Longrightarrow> pool_ok E H (p\<lparr>tp_pending := btm_remove a (tp_pending p)\<rparr>)"
  by (simp add: pool_ok_def book_ok_remove)

lemma pool_ok_drop_queue: "pool_ok E H p \<Longrightarrow> pool_ok E H (p\<lparr>tp_queue := btm_remove a (tp_queue p)\<rparr>)"
  by (simp add: pool_ok_def book_ok_remove)

lemma remove_pending_ok: "keeps_ok E H (remove_pending E a tx)"
proof (rule keepsI)
  fix p assume p: "pool_ok E H p"
  show "pool_ok E H (snd (remove_pending E a tx p))"
  proof (cases "btm_get (tp_pending p) a")
    case (Some list)
    obtain removed invalids l where r: "tl_remove tx list = ((removed, invalids), l)"
      by (metis surj_pair)
    have l: "list_ok E True a l"
      using list_ok_remove [OF r book_ok_get [OF pool_ok_books(1) [OF p] Some]] .
    let ?m = "bind (enqueue_all E invalids) (\<lambda>_.
              bind (modify (\<lambda>p. p\<lparr>tp_noncer := tn_set_if_lower a (signed_nonce tx) (tp_noncer p)\<rparr>)) (\<lambda>_. ret True))"
    have "keeps_ok E H ?m"
      by (intro keeps_intros enqueue_all_ok) simp_all
    then have "pool_ok E H q \<Longrightarrow> pool_ok E H (snd (?m q))" for q
      by (rule keepsD)
    then show ?thesis
      using Some r pool_ok_set_pending [OF p l] pool_ok_drop_pending [OF p, of a] by (simp add: remove_pending_def)
  qed (use p in \<open>simp add: remove_pending_def\<close>)
qed

lemma remove_future_ok: "pool_ok E H p \<Longrightarrow> pool_ok E H (remove_future a tx p)"
proof (cases "btm_get (tp_queue p) a")
  case (Some list)
  assume p: "pool_ok E H p"
  obtain removed invalids l where r: "tl_remove tx list = ((removed, invalids), l)"
    by (metis surj_pair)
  have "pool_ok E H (set_queue a l p)"
    using set_queue_present [OF p Some list_ok_remove [OF r book_ok_get [OF pool_ok_books(2) [OF p] Some]]] .
  then show ?thesis
    using Some r pool_ok_drop_queue [of E H "set_queue a l p" a] by (simp add: remove_future_def Let_def)
qed (simp add: remove_future_def)

lemma remove_tx_ok: "keeps_ok E H (remove_tx E h outofbound)"
proof (rule keepsI)
  fix p assume p: "pool_ok E H p"
  let ?m = "\<lambda>tx. bind (remove_pending E (sender_in E tx) tx)
              (\<lambda>returned. if returned then ret () else modify (remove_future (sender_in E tx) tx))"
  have "keeps_ok E H (?m tx)" for tx
    by (intro keeps_intros remove_pending_ok) (auto intro!: keeps_intros remove_future_ok)
  then have "pool_ok E H q \<Longrightarrow> pool_ok E H (snd (?m tx q))" for tx q
    by (rule keepsD)
  then show "pool_ok E H (snd (remove_tx E h outofbound p))"
    using p pool_ok_lk_remove [OF p, of h] by (simp add: remove_tx_def Let_def split: option.split)
qed

lemma make_room_ok: "keeps_ok E H (make_room E tx is_local)"
proof (rule keepsI)
  fix p assume p: "pool_ok E H p"
  have "keeps_ok E H (for_each (\<lambda>t. remove_tx E (hash_in E t) False) dropped)" for dropped
    by (intro keeps_intros remove_tx_ok)
  then have "pool_ok E H q \<Longrightarrow> pool_ok E H (snd (for_each (\<lambda>t. remove_tx E (hash_in E t) False) dropped q))" for dropped q
    by (rule keepsD)
  with p show "pool_ok E H (snd (make_room E tx is_local p))"
    by (simp add: make_room_def Let_def split: prod.split)
qed

lemma adopt_local_ok: "pool_ok E {} p \<Longrightarrow> pool_ok E {} (adopt_local E a local p)"
proof -
  assume p: "pool_ok E {} p"
  obtain migrated all where r: "lk_remote_to_locals (pe_crypto E) (as_add a (tp_locals p)) (tp_all p) = (migrated, all)"
    by (metis surj_pair)
  have "pool_ok E {} (p\<lparr>tp_locals := as_add a (tp_locals p), tp_all := all\<rparr>)"
    using p lk_remote_to_locals_ok [OF _ r] by (simp add: pool_ok_def)
  then show ?thesis
    using p r by (auto simp: adopt_local_def intro!: pool_ok_fold)
qed

lemma add_new_ok:
  assumes "pool_ok E {hash_in E tx} p"
  shows "pool_ok E {} (snd (add_new E tx local is_local p))"
proof -
  have enq: "pool_ok E {} (snd (enqueue_tx E (hash_in E tx) tx is_local True p))"
    using enqueue_tx_ok [OF assms, of True tx "hash_in E tx" is_local] by simp
  have "keeps_ok E {} (bind (modify (adopt_local E (sender_in E tx) local)) (\<lambda>_. ret replaced))" for replaced
    by (intro keeps_intros adopt_local_ok) simp_all
  then show ?thesis
    using enq unfolding add_new_def bind_def [of "enqueue_tx E (hash_in E tx) tx is_local True"]
    by (auto simp: keeps_def split: prod.splits sum.splits)
qed

lemma add_place_ok:
  assumes p: "pool_ok E {hash_in E tx} p"
  shows "pool_ok E {} (snd (add_place E tx local is_local p))"
proof (cases "\<exists>list. btm_get (tp_pending p) (sender_in E tx) = Some list \<and> tl_overlaps tx list")
  case True
  then obtain list where list: "btm_get (tp_pending p) (sender_in E tx) = Some list" "tl_overlaps tx list"
    by blast
  have empty: "pool_ok E {} p"
    using p by (rule pool_ok_mono) simp
  show ?thesis
  proof (cases "tl_add tx (cf_price_bump (tp_config p)) list")
    case (Inr r)
    obtain inserted old l where r: "r = ((inserted, old), l)"
      by (metis surj_pair)
    have l: "list_ok E True (sender_in E tx) l"
      using list_ok_add [OF Inr [unfolded r] book_ok_get [OF pool_ok_books(1) [OF p] list(1)]] by simp
    have "pool_ok E {} (all_add E tx is_local (forget E old (set_pending (sender_in E tx) l p)))"
      by (intro pool_ok_all_add pool_ok_forget pool_ok_set_pending p l)
    then show ?thesis
      using Inr r list pool_ok_set_pending [OF empty l] by (simp add: add_place_def Let_def)
  qed (use list empty in \<open>simp add: add_place_def\<close>)
next
  case False
  then have "add_place E tx local is_local p = add_new E tx local is_local p"
    by (auto simp: add_place_def Let_def split: option.split)
  with add_new_ok [OF p] show ?thesis
    by simp
qed

lemma add_ok: "keeps_ok E {} (add E tx local)"
proof (rule keepsI)
  fix p assume p: "pool_ok E {} p"
  show "pool_ok E {} (snd (add E tx local p))"
  proof (cases "lk_contains (tp_all p) (hash_in E tx) \<or> validate_tx E p tx \<noteq> Inr ()")
    case True
    then show ?thesis
      using p by (cases "validate_tx E p tx") (auto simp: add_def Let_def bind_def)
  next
    case False
    then have fresh: "pool_ok E {hash_in E tx} p"
      using p by (simp add: pool_ok_def)
    have ok: "pool_ok E {hash_in E tx} (snd (make_room E tx b p))" for b
      using keepsD [OF make_room_ok fresh] .
    have "pool_ok E {} (snd (make_room E tx b p))" for b
      using ok by (rule pool_ok_mono) simp
    with False ok add_place_ok show ?thesis
      by (auto simp: add_def Let_def bind_def split: prod.splits sum.splits)
        (metis snd_conv)+
  qed
qed

lemma add_txs_locked_ok: "keeps_ok E {} (add_txs_locked E txs local)"
proof -
  have "keeps_ok E {} (add_locked_step E local itx acc)" for itx acc
    using keepsD [OF add_ok [of E "snd itx" local]]
    by (intro keepsI) (fastforce simp: add_locked_step_def split: prod.splits sum.splits option.splits)
  then show ?thesis
    unfolding add_txs_locked_def by (intro keeps_intros)
qed

lemma reset_ok: "keeps_ok E {} (reset E old_head new_head)"
  unfolding reset_def
  by (intro keeps_intros keeps_basic; simp split: option.split; intro impI allI keeps_intros keeps_basic add_txs_locked_ok; simp)

lemma promote_tx_ok:
  assumes "sender_in E tx = a"
  shows "keeps_ok E H (promote_tx E a h tx)"
proof (rule keepsI)
  fix p assume p: "pool_ok E H p"
  show "pool_ok E H (snd (promote_tx E a h tx p))"
  proof (cases "tl_add tx (cf_price_bump (tp_config p)) (list_or_new True (tp_pending p) a)")
    case (Inr r)
    obtain inserted old l where r: "r = ((inserted, old), l)"
      by (metis surj_pair)
    have "list_ok E True a l"
      using list_ok_add [OF Inr [unfolded r] book_ok_list_or_new [OF pool_ok_books(1) [OF p]] assms] .
    note ok = pool_ok_set_pending [OF p this]
    then show ?thesis
      using Inr r pool_ok_lk_remove [OF ok] pool_ok_forget [OF ok]
      by (simp add: promote_tx_def Let_def bind_def instant_now_def pool_ok_beats)
  qed (use p in \<open>simp add: promote_tx_def\<close>)
qed

lemma cap_offender_ok: "cap_offender E a p = Some p' \<Longrightarrow> pool_ok E H p \<Longrightarrow> pool_ok E H p'"
proof -
  assume cap: "cap_offender E a p = Some p'" and p: "pool_ok E H p"
  obtain list where list: "btm_get (tp_pending p) a = Some list"
    using cap by (auto simp: cap_offender_def split: option.splits)
  obtain caps l where l: "tl_cap (word_of_nat (tl_len list - 1)) list = (caps, l)"
    by (metis surj_pair)
  have "pool_ok E H (set_pending a l p)"
    using pool_ok_set_pending [OF p list_ok_cap [OF l book_ok_get [OF pool_ok_books(1) [OF p] list]]] .
  moreover have "p' = fold (drop_capped E a) caps (set_pending a l p)"
    using cap list l by (simp add: cap_offender_def)
  ultimately show ?thesis
    by (auto simp: drop_capped_def Let_def intro!: pool_ok_fold pool_ok_all_remove)
qed

lemma fair_round_ok:
  "pool_ok E H (fst s) \<Longrightarrow> (case fair_round E offenders s of Inl p \<Rightarrow> pool_ok E H p | Inr s' \<Rightarrow> pool_ok E H (fst s'))"
  unfolding fair_round_def
proof (induction offenders arbitrary: s)
  case (Cons a offenders)
  obtain p n where s: "s = (p, n)"
    by fastforce
  show ?case
  proof (cases "cap_offender E a p")
    case (Some p')
    with Cons s cap_offender_ok [OF Some] show ?thesis
      by simp
  qed (use Cons.prems s in simp)
qed simp

lemma equalize_ok:
  "pool_ok E H (fst s) \<Longrightarrow>
   (case equalize E offenders prev threshold fuel s of Inl p \<Rightarrow> pool_ok E H p | Inr s' \<Rightarrow> pool_ok E H (fst s'))"
proof (induction fuel arbitrary: s)
  case (Suc fuel)
  show ?case
    using fair_round_ok [OF Suc.prems, of offenders] Suc.IH Suc.prems by (cases "fair_round E offenders s") auto
qed simp

definition offend_res_ok :: "pool_env \<Rightarrow> h256 set \<Rightarrow> tx_pool + address list \<times> tx_pool \<times> u64 \<Rightarrow> bool" where
  "offend_res_ok E H r \<longleftrightarrow> (case r of Inl p \<Rightarrow> pool_ok E H p | Inr s \<Rightarrow> pool_ok E H (fst (snd s)))"

lemma offend_ok: "pool_ok E H (fst s) \<Longrightarrow> offend_res_ok E H (offend E fuel spammers offenders s)"
proof (induction fuel arbitrary: spammers offenders s)
  case (Suc fuel)
  have stop: "offend_res_ok E H (Inr (offenders, s))"
    using Suc.prems by (simp add: offend_res_ok_def)
  obtain m q where q: "pq_pop spammers = (m, q)"
    by fastforce
  show ?case
  proof (cases "m = None \<or> offenders = []")
    case True
    then show ?thesis
      using q stop Suc.IH [OF Suc.prems] by (cases m) auto
  next
    case False
    then obtain a n where m: "m = Some (a, n)"
      by auto
    let ?eq = "equalize E (offenders @ [a]) (last offenders) (pending_len (fst s) a) (pending_len (fst s) (last offenders)) s"
    have "offend_res_ok E H (rbind ?eq (offend E fuel q (offenders @ [a])))"
      using equalize_ok [OF Suc.prems, of "offenders @ [a]" "last offenders" "pending_len (fst s) a" "pending_len (fst s) (last offenders)"]
      by (cases ?eq) (simp_all add: offend_res_ok_def Suc.IH [unfolded offend_res_ok_def])
    then show ?thesis
      using q m False stop by simp
  qed
qed (simp add: offend_res_ok_def)

lemma reduce_round_ok: "pool_ok E H (fst s) \<Longrightarrow> pool_ok E H (fst (reduce_round E offenders s))"
  unfolding reduce_round_def
  by (induction offenders arbitrary: s) (auto simp: case_prod_unfold dest: cap_offender_ok split: option.split)

lemma reduce_ok: "pool_ok E H (fst s) \<Longrightarrow> pool_ok E H (fst (reduce E offenders fuel s))"
  by (induction fuel arbitrary: s) (simp_all add: reduce_round_ok)

lemma truncate_pending_ok: "pool_ok E H p \<Longrightarrow> pool_ok E H (truncate_pending E p)"
  using offend_ok [of E H "(p, word_of_nat (fold (\<lambda>(_, list) n. n + tl_len list) (entries E (tp_pending p)) 0))"
      "length (spammers_of E p)" "spammers_of E p" "[]"]
  by (auto simp: truncate_pending_def offend_res_ok_def Let_def reduce_ok split: sum.splits prod.splits)

lemma drop_tail_ok: "keeps_ok E H (drop_tail E txs i todo)"
  by (induction i arbitrary: todo) (auto intro!: keeps_bind remove_tx_ok)

lemma drop_queued_ok: "keeps_ok E H (drop_queued E addrs todo)"
proof (induction addrs arbitrary: todo)
  case (Cons a addrs)
  have "keeps_ok E H (bind (for_each (\<lambda>tx. remove_tx E (hash_in E tx) True) txs) (\<lambda>_. drop_queued E addrs t))"
    "keeps_ok E H (bind (drop_tail E txs i t) (drop_queued E addrs))" for txs t i
    by (intro keeps_intros remove_tx_ok drop_tail_ok Cons)+
  note ok = this [THEN keepsD]
  show ?case
    by (rule keepsI) (simp add: ok split: option.split)
qed (simp add: keeps_def)

lemma truncate_queue_ok: "keeps_ok E H (truncate_queue E)"
proof (rule keepsI)
  fix p assume p: "pool_ok E H p"
  have "keeps_ok E H (bind (lift_res r) (\<lambda>addresses. drop_queued E (rev (map fst addresses)) t))"
    for r :: "pool_error + (address \<times> nat) list" and t
    by (rule keeps_bind) (simp_all add: drop_queued_ok)
  from keepsD [OF this p] show "pool_ok E H (snd (truncate_queue E p))"
    by (simp add: truncate_queue_def Let_def p)
qed

lemma all_remove_fold_ok: "pool_ok E H p \<Longrightarrow> pool_ok E H (fold (all_remove E) txs p)"
  by (intro pool_ok_fold pool_ok_all_remove)

lemma fold_all_remove_fields:
  "tp_pending (fold (all_remove E) txs p) = tp_pending p" "tp_queue (fold (all_remove E) txs p) = tp_queue p"
  "tp_beats (fold (all_remove E) txs p) = tp_beats p" "tp_locals (fold (all_remove E) txs p) = tp_locals p"
  "tp_config (fold (all_remove E) txs p) = tp_config p" "tp_state (fold (all_remove E) txs p) = tp_state p"
  by (induction txs arbitrary: p) (simp_all add: all_remove_def)

lemma demote_account_ok:
  assumes p: "pool_ok E H p" shows "pool_ok E H (snd (demote_account E a enqueue p))"
proof (cases "btm_get (tp_pending p) a")
  case (Some list)
  obtain olds l1 where l1: "tl_forward (sv_nonce (tp_state p) a) list = (olds, l1)"
    by (metis surj_pair)
  let ?p = "fold (all_remove E) olds p"
  obtain filtered l2 where l2: "tl_filter (sv_balance (tp_state p) a) l1 = (filtered, l2)"
    by (metis surj_pair)
  obtain gapped l3 where l3:
    "(if \<not> tl_is_empty l2 \<and> sl_get (tl_txs l2) (sv_nonce (tp_state p) a) = None then tl_cap 0 l2 else ([], l2)) = (gapped, l3)"
    by (metis surj_pair)
  have "list_ok E True a l2"
    using list_ok_price [OF l2 list_ok_forward [OF l1 book_ok_get [OF pool_ok_books(1) [OF p] Some]]] .
  then have "list_ok E True a l3"
    using l3 list_ok_cap [of 0 l2] by (auto split: if_splits)
  moreover have "pool_ok E H (case filtered of None \<Rightarrow> ?p | Some (drops, _) \<Rightarrow> fold (all_remove E) drops ?p)"
    using all_remove_fold_ok [OF p] by (simp add: all_remove_fold_ok split: option.split prod.split)
  ultimately show ?thesis
    using Some l1 l2 l3 pool_ok_set_pending
    by (cases filtered) (auto simp: demote_account_def Let_def fold_all_remove_fields split: prod.splits)
qed (simp add: demote_account_def p)

lemma pool_ok_filter_pending: "pool_ok E H p \<Longrightarrow> pool_ok E H (p\<lparr>tp_pending := filter f (tp_pending p)\<rparr>)"
  by (simp add: pool_ok_def book_ok_filter)

lemma demote_unexecutable_ok: "keeps_ok E H (demote_unexecutable E)"
proof (rule keepsI)
  fix p assume p: "pool_ok E H p"
  have fold: "pool_ok E H (snd s) \<Longrightarrow>
      pool_ok E H (snd (fold (\<lambda>(a, _) (enqueue, p). demote_account E a enqueue p) es s))" for es :: "(address \<times> tx_list) list" and s
    by (induction es arbitrary: s) (auto simp: case_prod_unfold demote_account_ok)
  have "pool_ok E H q \<Longrightarrow> pool_ok E H (snd (bind (enqueue_all E txs)
      (\<lambda>_. modify (\<lambda>p. p\<lparr>tp_pending := filter (\<lambda>(_, list). \<not> tl_is_empty list) (tp_pending p)\<rparr>)) q))" for txs q
    by (erule keepsD [rotated]) (intro keeps_intros enqueue_all_ok pool_ok_filter_pending)
  moreover obtain enqueue q where q:
    "fold (\<lambda>(a, _) (enqueue, p). demote_account E a enqueue p) (entries E (tp_pending p)) ([], p) = (enqueue, q)"
    by fastforce
  moreover have "pool_ok E H q"
    using fold [of "([], p)" "entries E (tp_pending p)"] p q by simp
  ultimately show "pool_ok E H (snd (demote_unexecutable E p))"
    by (simp add: demote_unexecutable_def)
qed

lemma promote_account_ok: "keeps_ok E H (promote_account E a promoted)"
proof (rule keepsI)
  fix p assume p: "pool_ok E H p"
  show "pool_ok E H (snd (promote_account E a promoted p))"
  proof (cases "btm_get (tp_queue p) a")
    case (Some list)
    obtain olds l1 where l1: "tl_forward (sv_nonce (tp_state p) a) list = (olds, l1)"
      by (metis surj_pair)
    obtain filtered l2 where l2: "tl_filter (sv_balance (tp_state p) a) l1 = (filtered, l2)"
      by (metis surj_pair)
    define p' where "p' = fold (all_remove E) (case filtered of None \<Rightarrow> [] | Some (drops, _) \<Rightarrow> drops) (fold (all_remove E) olds p)"
    obtain start noncer where tn: "tn_get a (tp_noncer p') = (start, noncer)"
      by (metis surj_pair)
    obtain readies l3 where l3: "tl_ready start l2 = (readies, l3)"
      by (metis surj_pair)
    have "list_ok E False a l2"
      using list_ok_price [OF l2 list_ok_forward [OF l1 book_ok_get [OF pool_ok_books(2) [OF p] Some]]] .
    then have l3_ok: "list_ok E False a l3" and senders: "\<And>t. t \<in> set readies \<Longrightarrow> sender_in E t = a"
      using list_ok_ready [OF l3] by auto
    have "pool_ok E H (set_queue a l3 (p'\<lparr>tp_noncer := noncer\<rparr>))"
      using all_remove_fold_ok [OF p] Some l3_ok
      by (intro set_queue_present [where ?l0.0 = list]) (simp_all add: p'_def all_remove_fold_ok fold_all_remove_fields)
    moreover have "keeps_ok E H (for_acc (promote_ready E a) readies promoted)"
      unfolding promote_ready_def using senders by (intro keeps_intros keeps_basic promote_tx_ok)
    ultimately have "pool_ok E H (snd (for_acc (promote_ready E a) readies promoted (set_queue a l3 (p'\<lparr>tp_noncer := noncer\<rparr>))))"
      by (rule keepsD [rotated])
    then show ?thesis
      using Some l1 l2 l3 tn by (simp add: promote_account_def fold_all_remove_fields Let_def p'_def)
  qed (simp add: promote_account_def p)
qed

lemma cap_account_ok: "pool_ok E H p \<Longrightarrow> pool_ok E H (cap_account E a p)"
proof (cases "btm_get (tp_queue p) a")
  case (Some list)
  assume p: "pool_ok E H p"
  obtain caps l where l: "(if as_contains (tp_locals p) a then ([], list) else tl_cap (cf_account_queue (tp_config p)) list) = (caps, l)"
    by (metis surj_pair)
  have "list_ok E False a l"
    using l list_ok_cap book_ok_get [OF pool_ok_books(2) [OF p] Some] by (auto split: if_splits)
  then have "pool_ok E H (set_queue a l (fold (all_remove E) caps p))"
    using all_remove_fold_ok [OF p, of caps] Some by (intro set_queue_present) (simp_all add: fold_all_remove_fields)
  moreover from this
  have "pool_ok E H ((set_queue a l (fold (all_remove E) caps p))
      \<lparr>tp_queue := btm_remove a (tp_queue (set_queue a l (fold (all_remove E) caps p))),
       tp_beats := btm_remove a (tp_beats (set_queue a l (fold (all_remove E) caps p)))\<rparr>)"
    by (simp add: pool_ok_def book_ok_remove)
  ultimately show ?thesis
    using Some l by (simp add: cap_account_def Let_def)
qed (simp add: cap_account_def)

lemma promote_executable_ok: "keeps_ok E H (promote_executable E accounts)"
  unfolding promote_executable_def
  by (intro keeps_intros keeps_basic promote_account_ok pool_ok_fold cap_account_ok)

lemma forward_events_ok: "keeps_ok E H (forward_events E events)"
  unfolding forward_events_def
  by (intro keeps_intros keeps_basic) (auto simp: keeps_def split: prod.split)

lemma after_reset_ok: "keeps_ok E H (after_reset E)"
proof -
  have "pool_ok E H (snd s) \<Longrightarrow> pool_ok E H (snd (fold highest_step es s))" for es s
    by (induction es arbitrary: s) (simp_all add: highest_step_def Let_def)
  then show ?thesis
    unfolding after_reset_def by (intro keeps_intros demote_unexecutable_ok) simp
qed

lemma prepare_repack_ok: "keeps_ok E {} (prepare_repack E dirty req)"
  unfolding prepare_repack_def
  by (cases req) (auto intro!: keeps_intros reset_ok forward_events_ok)

lemma send_ok: "keeps_ok E H (send E txs)"
  by (simp add: keeps_def send_def)

lemma repack_ok: "keeps_ok E {} (repack E dirty req)"
  unfolding repack_def case_prod_unfold Let_def
  by (intro keeps_intros prepare_repack_ok promote_executable_ok truncate_pending_ok truncate_queue_ok)
    (auto intro!: after_reset_ok send_ok)

lemma add_txs_ok: "keeps_ok E {} (add_txs E txs local)"
proof (rule keepsI)
  fix p assume p: "pool_ok E {} p"
  have "pool_ok E {} (snd (bind (add_txs_locked E news local) (\<lambda>(dirty, new_errors).
      bind (repack E dirty None) (\<lambda>_. bind (modify (\<lambda>p. p\<lparr>tp_events := []\<rparr>)) (\<lambda>_.
      if errors @ new_errors \<noteq> [] then fail (CompositeErrors (errors @ new_errors)) else ret ()))) p))" for news errors
    using p unfolding case_prod_unfold
    by (rule keepsD [rotated]) (intro keeps_intros add_txs_locked_ok repack_ok; simp add: keeps_def)
  with p show "pool_ok E {} (snd (add_txs E txs local p))"
    by (simp only: add_txs_def Let_def snd_conv split: if_split) blast
qed

lemma pool_nonce_ok: "keeps_ok E H (pool_nonce a)"
  by (simp add: keeps_def pool_nonce_def Let_def split: prod.split)

lemma pool_new_ok: "pool_new E conf local_accounts clock = Inr p \<Longrightarrow> pool_ok E {} p"
  by (auto simp: pool_new_def rbind_Inr pool_ok_def book_ok_def lk_wf_def lk_new_def slots_of_def btm_contains_def)

section \<open>The loops of the truncation have enough rounds\<close>

lemma drop_capped_pending: "tp_pending (fold (drop_capped E a) caps p) = tp_pending p"
  by (induction caps arbitrary: p) (simp_all add: drop_capped_def priced_remove_def all_remove_def Let_def)

lemma cap_offender_len:
  assumes "cap_offender E a p = Some p'"
  shows "pending_len p' b \<le> (if b = a then pending_len p a - 1 else pending_len p b)"
proof -
  obtain list where list: "btm_get (tp_pending p) a = Some list"
    using assms by (auto simp: cap_offender_def split: option.splits)
  let ?n = "unat (word_of_nat (tl_len list - 1) :: u64)"
  have "?n \<le> tl_len list - 1"
    by (simp add: unat_of_nat)
  moreover have "p' = fold (drop_capped E a) (map snd (take (tl_len list - ?n) (tl_txs list)))
      (set_pending a (list\<lparr>tl_txs := drop (tl_len list - ?n) (tl_txs list)\<rparr>) p)"
    using assms list by (simp add: cap_offender_def tl_cap_def sl_cap_drop tl_len_def)
  ultimately show ?thesis
    using list by (auto simp: pending_len_def drop_capped_pending set_pending_def tl_len_def)
qed

lemma fair_round_len:
  "fair_round E offenders s = Inr s' \<Longrightarrow>
     pending_len (fst s') b \<le> (if b \<in> set offenders then pending_len (fst s) b - 1 else pending_len (fst s) b)"
  unfolding fair_round_def
proof (induction offenders arbitrary: s)
  case (Cons a offenders)
  obtain p' where p': "cap_offender E a (fst s) = Some p'"
    using Cons.prems by (auto simp: case_prod_unfold split: option.splits)
  then have "pending_len (fst s') b \<le> (if b \<in> set offenders then pending_len p' b - 1 else pending_len p' b)"
    using Cons.IH [of "(p', snd s - 1)"] Cons.prems by (simp add: case_prod_unfold split: if_splits)
  with cap_offender_len [OF p', of b] show ?case
    by (auto split: if_splits)
qed simp

lemma equalize_rounds:
  assumes "prev \<in> set offenders" "pending_len (fst s) prev \<le> fuel" "equalize E offenders prev threshold fuel s = Inr s'"
  shows "\<not> (snd s' > cf_global_slots (tp_config (fst s')) \<and> pending_len (fst s') prev > threshold)"
  using assms(2,3)
proof (induction fuel arbitrary: s)
  case (Suc fuel)
  show ?case
  proof (cases "snd s > cf_global_slots (tp_config (fst s)) \<and> pending_len (fst s) prev > threshold")
    case True
    then obtain t where t: "fair_round E offenders s = Inr t" "equalize E offenders prev threshold fuel t = Inr s'"
      using Suc.prems(2) by (auto simp: rbind_Inr)
    then have "pending_len (fst t) prev \<le> fuel"
      using fair_round_len [OF t(1), of prev] assms(1) Suc.prems(1) by simp
    with Suc.IH t(2) show ?thesis
      by blast
  qed (use Suc.prems in auto)
qed simp

lemma reduce_round_len:
  "pending_len (fst (reduce_round E offenders s)) b
     \<le> (if b \<in> set offenders then pending_len (fst s) b - 1 else pending_len (fst s) b)"
  unfolding reduce_round_def
proof (induction offenders arbitrary: s)
  case (Cons a offenders)
  show ?case
  proof (cases "cap_offender E a (fst s)")
    case None
    then have "pending_len (fst s) a = 0"
      by (simp add: cap_offender_def pending_len_def Let_def split: option.splits prod.splits)
    with Cons.IH [of s] None show ?thesis
      by (auto simp: case_prod_unfold split: if_splits)
  next
    case (Some p')
    with Cons.IH [of "(p', snd s - 1)"] cap_offender_len [OF Some, of b] show ?thesis
      by (auto simp: case_prod_unfold split: if_splits)
  qed
qed simp

lemma reduce_rounds:
  assumes "offenders \<noteq> []" "pending_len (fst s) (last offenders) \<le> fuel" "s' = reduce E offenders fuel s"
  shows "\<not> (snd s' > cf_global_slots (tp_config (fst s'))
            \<and> word_of_nat (pending_len (fst s') (last offenders)) > cf_account_slots (tp_config (fst s')))"
  using assms(2,3)
proof (induction fuel arbitrary: s)
  case (Suc fuel)
  have "pending_len (fst (reduce_round E offenders s)) (last offenders) \<le> fuel"
    using reduce_round_len [of E offenders s "last offenders"] assms(1) Suc.prems(1) by simp
  with Suc show ?case
    by (auto split: if_splits)
qed simp

section \<open>The pool over time\<close>

text \<open>The states a pool goes through.  The chain behind it, and with it the environment, may be another at every
  call; the crypto is not.  A call that fails leaves a state too.\<close>

inductive pool_run :: "pool_crypto \<Rightarrow> tx_pool \<Rightarrow> bool" for C where
  start: "pe_crypto E = C \<Longrightarrow> pool_new E conf local_accounts clock = Inr p \<Longrightarrow> pool_run C p"
| add_step: "pool_run C p \<Longrightarrow> pe_crypto E = C \<Longrightarrow> pool_run C (snd (add_txs E txs local p))"
| repack_step: "pool_run C p \<Longrightarrow> pe_crypto E = C \<Longrightarrow> pool_run C (snd (repack E dirty req p))"
| nonce_step: "pool_run C p \<Longrightarrow> pool_run C (snd (pool_nonce a p))"

lemma pool_ok_env: "pe_crypto E = pe_crypto E' \<Longrightarrow> pool_ok E H p \<longleftrightarrow> pool_ok E' H p"
  by (simp add: pool_ok_def book_ok_def list_ok_def)

lemma pool_run_ok: "pool_run C p \<Longrightarrow> pe_crypto E = C \<Longrightarrow> pool_ok E {} p"
proof (induction rule: pool_run.induct)
  case (start E' conf local_accounts clock p)
  with pool_new_ok pool_ok_env [of E E'] show ?case
    by blast
next
  case (add_step p E' txs local)
  with keepsD [OF add_txs_ok] pool_ok_env [of E E'] show ?case
    by blast
next
  case (repack_step p E' dirty req)
  with keepsD [OF repack_ok] pool_ok_env [of E E'] show ?case
    by blast
next
  case (nonce_step p a)
  with keepsD [OF pool_nonce_ok] show ?case
    by blast
qed

lemma entries_get: "(a, v) \<in> set (entries E m) \<Longrightarrow> btm_get m a = Some v"
  by (auto simp: entries_def map_filter_def)

lemma heartbeats_defined: "pool_ok E H p \<Longrightarrow> \<exists>addresses. heartbeats E p = Inr addresses"
proof -
  assume p: "pool_ok E H p"
  let ?f = "\<lambda>(addr, _) acc. if as_contains (tp_locals p) addr then Inr acc
      else rbind (ok_or (btm_get (tp_beats p) addr) PoolPanicked) (\<lambda>t. Inr (bts_insert heartbeat_cmp (addr, t) acc))"
  have "\<forall>e \<in> set es. btm_contains (tp_beats p) (fst e) \<Longrightarrow> \<exists>r. rfold ?f es acc = Inr r" for es :: "(address \<times> tx_list) list" and acc
    by (induction es arbitrary: acc) (auto simp: btm_contains_def)
  moreover have "\<forall>e \<in> set (entries E (tp_queue p)). btm_contains (tp_beats p) (fst e)"
    using pool_ok_queue_subset [OF p] entries_get [of _ _ E "tp_queue p"] by (fastforce simp: btm_contains_def)
  ultimately show ?thesis
    unfolding heartbeats_def by blast
qed

text \<open>C37: the type invariant of the pool.  In every state a pool reaches, by adding transactions, by repacking, with
  or without a new head, and by asking for nonces, successful or not: each pending and each queued list is
  sorted by nonce, holds only transactions of the account it is filed under, each under its own nonce, and
  is strict exactly when it is pending; the lookup files every transaction under its hash, in one of its
  two maps, and \<open>slots\<close> is the number of slots of what it holds; every queued account has a heartbeat, so
  that the \<open>unwrap\<close> in \<open>truncate_queue\<close> does not panic.\<close>

theorem pool_types:
  assumes "pool_run C p" "pe_crypto E = C"
  shows "(\<forall>a l. btm_get (tp_pending p) a = Some l \<longrightarrow> list_ok E True a l)
    \<and> (\<forall>a l. btm_get (tp_queue p) a = Some l \<longrightarrow> list_ok E False a l)
    \<and> lk_wf C (tp_all p)
    \<and> (\<exists>addresses. heartbeats E p = Inr addresses)"
  using pool_run_ok [OF assms] heartbeats_defined assms(2) by (auto simp: pool_ok_def book_ok_def)

section \<open>A concrete pool\<close>

definition demo_pool_env :: pool_env where
  "demo_pool_env =
     \<lparr>pe_crypto = \<lparr>pc_k256 = demo_k256, pc_keccak = (\<lambda>_. h256_zero), pc_prost = demo_prost\<rparr>, pe_sha = (\<lambda>_. h256_zero),
      pe_block = (\<lambda>_ _. Inr None), pe_state_at = (\<lambda>_. Inr \<lparr>sv_nonce = (\<lambda>_. 0), sv_balance = (\<lambda>_. 1000)\<rparr>),
      pe_current_state = Inr \<lparr>sv_nonce = (\<lambda>_. 0), sv_balance = (\<lambda>_. 1000)\<rparr>, pe_order = (\<lambda>as. as),
      pe_tick = Suc, pe_open = True\<rparr>"

definition demo_pool :: tx_pool where
  "demo_pool =
     \<lparr>tp_config = DEFAULT_TX_POOL_CONFIG, tp_locals = as_new, tp_state = \<lparr>sv_nonce = (\<lambda>_. 0), sv_balance = (\<lambda>_. 1000)\<rparr>,
      tp_noncer = tn_new \<lparr>sv_nonce = (\<lambda>_. 0), sv_balance = (\<lambda>_. 1000)\<rparr>, tp_events = [], tp_pending = [], tp_queue = [],
      tp_beats = [], tp_all = lk_new, tp_priced = pr_new, tp_changes = 0, tp_clock = 0, tp_sent = []\<rparr>"

lemma demo_pool_new: "pool_new demo_pool_env None None 0 = Inr demo_pool"
  by (simp add: pool_new_def demo_pool_env_def demo_pool_def)

theorem pool_types_witness:
  "\<exists>p. pool_run (pe_crypto demo_pool_env) p \<and> p = snd (add_txs demo_pool_env [demo_pool_tx 3 50, demo_pool_tx 4 60] False demo_pool)
     \<and> lk_wf (pe_crypto demo_pool_env) (tp_all p) \<and> (\<exists>addresses. heartbeats demo_pool_env p = Inr addresses)"
proof -
  have "pool_run (pe_crypto demo_pool_env) (snd (add_txs demo_pool_env [demo_pool_tx 3 50, demo_pool_tx 4 60] False demo_pool))"
    by (intro pool_run.add_step pool_run.start [OF _ demo_pool_new]) simp_all
  from pool_types [OF this refl] this show ?thesis
    by blast
qed

section \<open>A batch with a failure\<close>

text \<open>The outcomes of the single \<open>add\<close>s of a batch, one after the other.\<close>

fun outcomes :: "pool_env \<Rightarrow> bool \<Rightarrow> signed_transaction list \<Rightarrow> tx_pool \<Rightarrow> (pool_error + bool) list" where
  "outcomes E local [] p = []"
| "outcomes E local (tx # txs) p = fst (add E tx local p) # outcomes E local txs (snd (add E tx local p))"

fun failures_first :: "('e + 'a) list \<Rightarrow> bool" where
  "failures_first [] = True"
| "failures_first (Inl e # rs) = failures_first rs"
| "failures_first (Inr x # rs) = list_all (\<lambda>r. \<not> isl r) rs"

lemma batch_after_success:
  assumes "\<forall>e. Inl e \<in> set (outcomes E local txs p) \<longrightarrow> \<not> aborts e" "length (snd acc) < i"
  shows "if list_all (\<lambda>r. \<not> isl r) (outcomes E local txs p)
         then \<not> isl (fst (for_acc (add_locked_step E local) (enumerate i txs) acc p))
         else fst (for_acc (add_locked_step E local) (enumerate i txs) acc p) = Inl PoolPanicked"
  using assms
proof (induction txs arbitrary: i acc p)
  case (Cons tx txs)
  obtain r q where add: "add E tx local p = (r, q)"
    by fastforce
  show ?case
  proof (cases r)
    case (Inl e)
    then have "\<not> aborts e"
      using Cons.prems(1) add by simp
    then show ?thesis
      using Inl add Cons.prems(2) by (simp add: bind_def add_locked_step_def vec_insert_def)
  next
    case (Inr b)
    then have "add_locked_step E local (i, tx) acc p = (Inr (if b then fst acc else as_add (sender_in E tx) (fst acc), snd acc), q)"
      using add by (simp add: add_locked_step_def)
    then show ?thesis
      using Cons.IH [where p = q and i = "Suc i" and acc = "(if b then fst acc else as_add (sender_in E tx) (fst acc), snd acc)"] Cons.prems Inr add by (simp split: if_splits)
  qed
qed simp

lemma batch_from_start:
  assumes "\<forall>e. Inl e \<in> set (outcomes E local txs p) \<longrightarrow> \<not> aborts e" "length (snd acc) = i"
  shows "if failures_first (outcomes E local txs p)
         then \<not> isl (fst (for_acc (add_locked_step E local) (enumerate i txs) acc p))
         else fst (for_acc (add_locked_step E local) (enumerate i txs) acc p) = Inl PoolPanicked"
  using assms
proof (induction txs arbitrary: i acc p)
  case (Cons tx txs)
  obtain r q where add: "add E tx local p = (r, q)"
    by fastforce
  show ?case
  proof (cases r)
    case (Inl e)
    then have "\<not> aborts e"
      using Cons.prems(1) add by simp
    then have "add_locked_step E local (i, tx) acc p = (Inr (fst acc, snd acc @ [e]), q)"
      using Inl add Cons.prems(2) by (simp add: add_locked_step_def vec_insert_def)
    then show ?thesis
      using Cons.IH [where p = q and i = "Suc i" and acc = "(fst acc, snd acc @ [e])"] Cons.prems Inl add by simp
  next
    case (Inr b)
    then have "add_locked_step E local (i, tx) acc p = (Inr (if b then fst acc else as_add (sender_in E tx) (fst acc), snd acc), q)"
      using add by (simp add: add_locked_step_def)
    then show ?thesis
      using batch_after_success [of E local txs q "(if b then fst acc else as_add (sender_in E tx) (fst acc), snd acc)" "Suc i"]
        Cons.prems Inr add by (simp split: if_splits)
  qed
qed simp

text \<open>a batch of transactions panics as soon as one is refused after another was accepted.  The error of the
  \<open>i\<close>th transaction is inserted at index \<open>i\<close> of the errors, which is beyond the end when an earlier one did not
  fail.  So a batch comes through exactly when its failures all come before its successes.\<close>

theorem batch_panics_unless_failures_first:
  assumes "\<forall>e. Inl e \<in> set (outcomes E local txs p) \<longrightarrow> \<not> aborts e"
  shows "if failures_first (outcomes E local txs p) then \<not> isl (fst (add_txs_locked E txs local p))
         else fst (add_txs_locked E txs local p) = Inl PoolPanicked"
  unfolding add_txs_locked_def using batch_from_start [OF assms, of "(as_new, [])" 0] by simp

theorem batch_panics_unless_failures_first_witness:
  "outcomes demo_pool_env False [demo_pool_tx 3 50, demo_pool_tx 3 50] demo_pool = [Inr False, Inl TransactionAlreadyKnown]
   \<and> fst (add_txs_locked demo_pool_env [demo_pool_tx 3 50, demo_pool_tx 3 50] False demo_pool) = Inl PoolPanicked"
proof -
  let ?txs = "[demo_pool_tx 3 50, demo_pool_tx 3 50]"
  have slots: "num_slots (pe_crypto demo_pool_env) (demo_pool_tx 3 50) = 1"
    by (simp add: num_slots_def demo_pool_env_def demo_prost_def demo_pool_tx_def signed_size_def signed_encoded_len_def
        message_encoded_len_def TX_SLOT_SIZE_def)
  have fields: "tp_pending demo_pool = []" "tp_queue demo_pool = []" "tp_all demo_pool = lk_new" "tp_locals demo_pool = []"
    "tp_beats demo_pool = []" "tp_config demo_pool = DEFAULT_TX_POOL_CONFIG" "tp_state demo_pool = \<lparr>sv_nonce = (\<lambda>_. 0), sv_balance = (\<lambda>_. 1000)\<rparr>"
    by (simp_all add: demo_pool_def as_new_def)
  have valid: "validate_tx demo_pool_env demo_pool (demo_pool_tx 3 50) = Inr ()"
    by (simp add: validate_tx_def fields) (simp add: demo_pool_tx_def signed_fees_def signed_price_def demo_tx_def)
  have room: "make_room demo_pool_env (demo_pool_tx 3 50) b demo_pool = (Inr (), demo_pool)" for b
    by (simp add: make_room_def fields slots lk_new_def DEFAULT_TX_POOL_CONFIG_def)
  have "\<exists>q. add demo_pool_env (demo_pool_tx 3 50) False demo_pool = (Inr False, q)
      \<and> lk_contains (tp_all q) (hash_in demo_pool_env (demo_pool_tx 3 50))"
    by (simp add: add_def fields valid room lk_contains_def lk_new_def as_contains_def add_place_def add_new_def enqueue_tx_def
        list_or_new_def tl_add_new forget_def touch_beat_def instant_now_def adopt_local_def set_queue_def priced_put_def
        all_add_def lk_add_def btm_contains_def btm_get_def bind_def Let_def)
  then have "outcomes demo_pool_env False ?txs demo_pool = [Inr False, Inl TransactionAlreadyKnown]"
    by (auto simp: add_def [of demo_pool_env "demo_pool_tx 3 50" False])
  then show ?thesis
    using batch_panics_unless_failures_first [of demo_pool_env False ?txs demo_pool] by (simp add: aborts_def)
qed

end
