(* ===== verification/Block_Storage.thy ===== *)
theory Block_Storage
  imports Consensus
begin

text \<open>
  Stored blocks: the in-memory backend of \<open>storage/src/memstore.rs\<close>, the four columns of
  \<open>blockchain/src/block_storage.rs\<close> and the current head of \<open>blockchain/src/chain_state.rs\<close>.

  A \<open>Schema\<close> is the record of its column and codecs.  Keys and index entries have the codecs of \<open>Codec\<close>;
  headers, transaction lists and the chain state value are encoded by \<open>prost\<close>, a parameter.  Locks are
  not modelled.
\<close>

datatype storage_error =
    ColumnMissing
  | StorageCodec codec_error
  | StoragePanicked
  | StorageHangs

section \<open>The in-memory store\<close>

type_synonym column = "(bytes, bytes) btmap"
type_synonym mem_store = "(bytes, column) btmap"

record ('k, 'v) schema =
  sch_column :: bytes
  sch_key :: "'k \<Rightarrow> codec_error + bytes"
  sch_enc :: "'v \<Rightarrow> codec_error + bytes"
  sch_dec :: "bytes \<Rightarrow> codec_error + 'v"

definition codec_res :: "codec_error + 'a \<Rightarrow> storage_error + 'a" where
  "codec_res r = map_err (\<lambda>e. if e = CodecPanicked then StoragePanicked else StorageCodec e) r"

definition mst_new :: "bytes list \<Rightarrow> mem_store" where
  "mst_new columns = btm_from_list (map (\<lambda>name. (name, [])) columns)"

definition mst_column :: "mem_store \<Rightarrow> bytes \<Rightarrow> storage_error + column" where
  "mst_column store name = ok_or (btm_get store name) ColumnMissing"

definition mst_get :: "('k, 'v) schema \<Rightarrow> mem_store \<Rightarrow> 'k \<Rightarrow> storage_error + 'v option" where
  "mst_get S store key =
     rbind (codec_res (sch_key S key)) (\<lambda>k.
     rbind (mst_column store (sch_column S)) (\<lambda>col.
     case btm_get col k of
       None \<Rightarrow> Inr None
     | Some raw \<Rightarrow> rbind (codec_res (sch_dec S raw)) (\<lambda>v. Inr (Some v))))"

definition mst_put :: "('k, 'v) schema \<Rightarrow> 'k \<Rightarrow> 'v \<Rightarrow> (mem_store, storage_error, unit) action" where
  "mst_put S key val store =
     (case rbind (codec_res (sch_key S key)) (\<lambda>k.
           rbind (codec_res (sch_enc S val)) (\<lambda>v.
           rbind (mst_column store (sch_column S)) (\<lambda>col.
           Inr (btm_insert (sch_column S) (btm_insert k v col) store)))) of
        Inl e \<Rightarrow> (Inl e, store)
      | Inr store' \<Rightarrow> (Inr (), store'))"

definition mst_delete :: "('k, 'v) schema \<Rightarrow> 'k \<Rightarrow> (mem_store, storage_error, unit) action" where
  "mst_delete S key store =
     (case rbind (codec_res (sch_key S key)) (\<lambda>k.
           rbind (mst_column store (sch_column S)) (\<lambda>col.
           Inr (btm_insert (sch_column S) (btm_remove k col) store))) of
        Inl e \<Rightarrow> (Inl e, store)
      | Inr store' \<Rightarrow> (Inr (), store'))"

definition mst_contains :: "('k, 'v) schema \<Rightarrow> mem_store \<Rightarrow> 'k \<Rightarrow> storage_error + bool" where
  "mst_contains S store key =
     rbind (codec_res (sch_key S key)) (\<lambda>k.
     rbind (mst_column store (sch_column S)) (\<lambda>col. Inr (btm_contains col k)))"

text \<open>The iterator copies the entries and hands them out by position.\<close>

fun mst_next :: "(bytes \<times> bytes) list \<Rightarrow> nat \<Rightarrow> (bytes \<times> bytes) option \<times> nat" where
  "mst_next entries cursor =
     (if cursor > length entries then (None, cursor)
      else (if cursor < length entries then Some (entries ! cursor) else None, cursor + 1))"

definition mst_iter :: "(bytes \<Rightarrow> codec_error + 'k) \<Rightarrow> ('k, 'v) schema \<Rightarrow> mem_store
    \<Rightarrow> storage_error + ((storage_error + 'k) \<times> (storage_error + 'v)) list" where
  "mst_iter kdec S store =
     rbind (mst_column store (sch_column S)) (\<lambda>col.
     Inr (map (\<lambda>(k, v). (codec_res (kdec k), codec_res (sch_dec S v))) col))"

text \<open>\<open>prefix_iter\<close> is \<open>todo!()\<close>.\<close>

definition mst_prefix_iter :: "('k, 'v) schema \<Rightarrow> mem_store \<Rightarrow> 'k \<Rightarrow> storage_error + ((storage_error + 'k) \<times> (storage_error + 'v)) list" where
  "mst_prefix_iter S store start = Inl StoragePanicked"

section \<open>Columns of the block storage\<close>

record block_codecs =
  bc_header_enc :: "block_header \<Rightarrow> codec_error + bytes"
  bc_header_dec :: "bytes \<Rightarrow> codec_error + block_header"
  bc_txs_enc :: "signed_transaction list \<Rightarrow> codec_error + bytes"
  bc_txs_dec :: "bytes \<Rightarrow> codec_error + signed_transaction list"
  bc_head_enc :: "block_header \<Rightarrow> codec_error + bytes"
  bc_head_dec :: "bytes \<Rightarrow> codec_error + block_header"

definition header_schema :: "block_codecs \<Rightarrow> (block_primary_key, block_header) schema" where
  "header_schema D = \<lparr>sch_column = ascii ''block_storage'', sch_key = bpk_encode, sch_enc = bc_header_enc D, sch_dec = bc_header_dec D\<rparr>"

definition txs_schema :: "block_codecs \<Rightarrow> (block_primary_key, signed_transaction list) schema" where
  "txs_schema D = \<lparr>sch_column = ascii ''block_transactions_storage'', sch_key = bpk_encode, sch_enc = bc_txs_enc D, sch_dec = bc_txs_dec D\<rparr>"

definition level_schema :: "(u32, block_primary_key) schema" where
  "level_schema = \<lparr>sch_column = ascii ''block_level_storage'', sch_key = uint_encode, sch_enc = bpk_encode, sch_dec = bpk_decode\<rparr>"

definition hash_schema :: "(h256, block_primary_key) schema" where
  "hash_schema = \<lparr>sch_column = ascii ''block_hash_storage'', sch_key = array_encode, sch_enc = bpk_encode, sch_dec = bpk_decode\<rparr>"

text \<open>\<open>ChainStateValue\<close> has one constructor, so its value is the header.\<close>

definition chain_state_schema :: "block_codecs \<Rightarrow> (bytes, block_header) schema" where
  "chain_state_schema D = \<lparr>sch_column = ascii ''chain_state'', sch_key = vec_encode, sch_enc = bc_head_enc D, sch_dec = bc_head_dec D\<rparr>"

definition column_family_names :: "bytes list" where
  "column_family_names =
     [ascii ''block_storage'', ascii ''block_transactions_storage'', ascii ''block_level_storage'',
      ascii ''block_hash_storage'', ascii ''chain_state'']"

primrec key_level :: "block_primary_key \<Rightarrow> u32" where
  "key_level (BlockPrimaryKey lvl _) = lvl"

primrec key_hash :: "block_primary_key \<Rightarrow> h256" where
  "key_hash (BlockPrimaryKey _ h) = h"

definition look :: "('s \<Rightarrow> 'e + 'a) \<Rightarrow> ('s, 'e, 'a) action" where
  "look f s = (f s, s)"

definition headers_put :: "block_codecs \<Rightarrow> (bytes \<Rightarrow> h256) \<Rightarrow> block_header \<Rightarrow> (mem_store, storage_error, block_primary_key) action" where
  "headers_put D sha blockheader =
     (let key = BlockPrimaryKey (level blockheader) (header_hash sha blockheader) in
      bind (look (\<lambda>s. mst_contains (header_schema D) s key)) (\<lambda>present.
      if present then ret key
      else bind (mst_put (header_schema D) key blockheader) (\<lambda>_. ret key)))"

definition levels_put :: "u32 \<Rightarrow> block_primary_key \<Rightarrow> (mem_store, storage_error, unit) action" where
  "levels_put lvl key =
     bind (look (\<lambda>s. mst_contains level_schema s lvl)) (\<lambda>present. if \<not> present then mst_put level_schema lvl key else ret ())"

section \<open>Block storage\<close>

definition bs_put :: "block_codecs \<Rightarrow> (bytes \<Rightarrow> h256) \<Rightarrow> block \<Rightarrow> (mem_store, storage_error, unit) action" where
  "bs_put D sha b =
     bind (headers_put D sha (bk_header b)) (\<lambda>key.
     bind (mst_put (txs_schema D) key (bk_transactions b)) (\<lambda>_.
     bind (mst_put hash_schema (key_hash key) key) (\<lambda>_.
     levels_put (key_level key) key)))"

definition bs_delete :: "h256 \<Rightarrow> u32 \<Rightarrow> (mem_store, storage_error, unit) action" where
  "bs_delete hash lvl = mst_delete level_schema (key_level (BlockPrimaryKey lvl hash))"

definition bs_get_blocks :: "block_codecs \<Rightarrow> mem_store \<Rightarrow> h256 \<Rightarrow> u32 \<Rightarrow> storage_error + (storage_error + block) list" where
  "bs_get_blocks D store hash lvl =
     rbind (mst_prefix_iter (header_schema D) store (BlockPrimaryKey lvl hash)) (\<lambda>headers.
     rbind (mst_prefix_iter (txs_schema D) store (BlockPrimaryKey lvl hash)) (\<lambda>txs.
     Inr (map (\<lambda>((_, header), (_, transactions)).
                 rbind header (\<lambda>header. rbind transactions (\<lambda>transactions. Inr \<lparr>bk_header = header, bk_transactions = transactions\<rparr>)))
            (zip headers txs))))"

definition bs_get_header :: "block_codecs \<Rightarrow> (bytes \<Rightarrow> h256) \<Rightarrow> mem_store \<Rightarrow> h256 \<Rightarrow> u32 \<Rightarrow> storage_error + indexed_header option" where
  "bs_get_header D sha store hash lvl =
     rbind (mst_get (header_schema D) store (BlockPrimaryKey lvl hash)) (\<lambda>r. Inr (map_option (indexed_from_raw sha) r))"

definition bs_get_header_by_hash :: "block_codecs \<Rightarrow> (bytes \<Rightarrow> h256) \<Rightarrow> mem_store \<Rightarrow> h256 \<Rightarrow> storage_error + indexed_header option" where
  "bs_get_header_by_hash D sha store hash =
     rbind (mst_get hash_schema store hash) (\<lambda>r. case r of
       Some key \<Rightarrow> bs_get_header D sha store (key_hash key) (key_level key) | None \<Rightarrow> Inr None)"

definition bs_get_header_by_level :: "block_codecs \<Rightarrow> (bytes \<Rightarrow> h256) \<Rightarrow> mem_store \<Rightarrow> u32 \<Rightarrow> storage_error + indexed_header option" where
  "bs_get_header_by_level D sha store lvl =
     rbind (mst_get level_schema store lvl) (\<lambda>r. case r of
       Some key \<Rightarrow> bs_get_header D sha store (key_hash key) (key_level key) | None \<Rightarrow> Inr None)"

definition bs_get_block :: "block_codecs \<Rightarrow> mem_store \<Rightarrow> h256 \<Rightarrow> u32 \<Rightarrow> storage_error + block option" where
  "bs_get_block D store hash lvl =
     rbind (mst_get (header_schema D) store (BlockPrimaryKey lvl hash)) (\<lambda>header.
     rbind (mst_get (txs_schema D) store (BlockPrimaryKey lvl hash)) (\<lambda>transactions.
     case (header, transactions) of
       (Some header, Some transactions) \<Rightarrow> Inr (Some \<lparr>bk_header = header, bk_transactions = transactions\<rparr>)
     | _ \<Rightarrow> Inr None))"

definition bs_get_block_by_hash :: "block_codecs \<Rightarrow> mem_store \<Rightarrow> h256 \<Rightarrow> storage_error + block option" where
  "bs_get_block_by_hash D store hash =
     rbind (mst_get hash_schema store hash) (\<lambda>r. case r of
       Some key \<Rightarrow> bs_get_block D store (key_hash key) (key_level key) | None \<Rightarrow> Inr None)"

definition bs_get_block_by_level :: "block_codecs \<Rightarrow> mem_store \<Rightarrow> u32 \<Rightarrow> storage_error + block option" where
  "bs_get_block_by_level D store lvl =
     rbind (mst_get level_schema store lvl) (\<lambda>r. case r of
       Some key \<Rightarrow> bs_get_block D store (key_hash key) (key_level key) | None \<Rightarrow> Inr None)"

text \<open>The block storage as the consensus code reads it.\<close>

definition reader_error :: "storage_error \<Rightarrow> consensus_error" where
  "reader_error e = (if e = StoragePanicked then ConsPanicked else ReaderError)"

definition storage_reader :: "block_codecs \<Rightarrow> (bytes \<Rightarrow> h256) \<Rightarrow> mem_store \<Rightarrow> head_reader" where
  "storage_reader D sha store =
     \<lparr>get_header = (\<lambda>hash lvl. map_err reader_error (bs_get_header D sha store hash lvl)),
      get_header_by_hash = (\<lambda>hash. map_err reader_error (bs_get_header_by_hash D sha store hash)),
      get_header_by_level = (\<lambda>lvl. map_err reader_error (bs_get_header_by_level D sha store lvl))\<rparr>"

section \<open>The current head\<close>

definition CURR_HEAD :: bytes where
  "CURR_HEAD = ascii ''ch''"

definition set_current_header :: "block_codecs \<Rightarrow> block_header \<Rightarrow> (mem_store, storage_error, unit) action" where
  "set_current_header D header = mst_put (chain_state_schema D) CURR_HEAD header"

definition get_current_header :: "block_codecs \<Rightarrow> mem_store \<Rightarrow> storage_error + block_header option" where
  "get_current_header D store = mst_get (chain_state_schema D) store CURR_HEAD"

definition current_header :: "block_codecs \<Rightarrow> (bytes \<Rightarrow> h256) \<Rightarrow> mem_store \<Rightarrow> storage_error + indexed_header option" where
  "current_header D sha store = rbind (get_current_header D store) (\<lambda>r. Inr (map_option (indexed_from_raw sha) r))"

section \<open>Removing a stale chain\<close>

text \<open>The loop of \<open>put_chain\<close> that removes the stale blocks from the level index.  A failed lookup ends it.\<close>

partial_function (option) remove_stale ::
  "block_codecs \<Rightarrow> (bytes \<Rightarrow> h256) \<Rightarrow> h256 \<Rightarrow> h256 \<Rightarrow> mem_store \<Rightarrow> ((storage_error + unit) \<times> mem_store) option" where
  "remove_stale D sha tail_hash head store =
     (case bs_get_header_by_hash D sha store head of
        Inl e \<Rightarrow> Some (if e = StoragePanicked then Inl e else Inr (), store)
      | Inr None \<Rightarrow> Some (Inr (), store)
      | Inr (Some b) \<Rightarrow>
          (case bs_delete head (level (ih_raw b)) store of
             (Inl e, store) \<Rightarrow> Some (Inl e, store)
           | (Inr _, store) \<Rightarrow>
               if parent_hash (ih_raw b) \<noteq> tail_hash then Some (Inr (), store)
               else remove_stale D sha tail_hash (parent_hash (ih_raw b)) store))"

section \<open>A column as a map\<close>

lemma codec_res_Inr [simp]: "codec_res (Inr x) = Inr x"
  by (simp add: codec_res_def)

text \<open>A schema whose keys and values are coded faithfully makes a column of a partial map.\<close>

definition has_column :: "('k, 'v) schema \<Rightarrow> mem_store \<Rightarrow> bool" where
  "has_column S store \<longleftrightarrow> btm_contains store (sch_column S)"

locale kv_schema = key: byte_codec "sch_key S" kdec kwf + val: byte_codec "sch_enc S" "sch_dec S" vwf
  for S :: "('k, 'v) schema" and kdec kwf vwf
begin

lemma present_col: "has_column S store \<Longrightarrow> \<exists>col. mst_column store (sch_column S) = Inr col \<and> btm_get store (sch_column S) = Some col"
  by (auto simp: has_column_def btm_contains_def mst_column_def)

lemma put_get:
  assumes "has_column S store" "kwf k" "vwf v"
  shows "\<exists>store'. mst_put S k v store = (Inr (), store') \<and> mst_get S store' k = Inr (Some v)
    \<and> (\<forall>k'. kwf k' \<longrightarrow> k' \<noteq> k \<longrightarrow> mst_get S store' k' = mst_get S store k')
    \<and> (\<forall>c. c \<noteq> sch_column S \<longrightarrow> btm_get store' c = btm_get store c) \<and> (\<forall>c. btm_contains store' c = btm_contains store c)"
proof -
  obtain col where col: "mst_column store (sch_column S) = Inr col" "btm_get store (sch_column S) = Some col"
    using present_col [OF assms(1)] by blast
  obtain b where b: "sch_key S k = Inr b"
    using key.enc_ok [OF assms(2)] by blast
  obtain w where w: "sch_enc S v = Inr w" "sch_dec S w = Inr v"
    using val.enc_ok [OF assms(3)] val.dec_enc [OF assms(3)] by fastforce
  let ?s = "btm_insert (sch_column S) (btm_insert b w col) store"
  have "mst_get S ?s k' = mst_get S store k'" if k': "kwf k'" "k' \<noteq> k" for k'
  proof -
    obtain b' where b': "sch_key S k' = Inr b'"
      using key.enc_ok [OF k'(1)] by blast
    then have "b' \<noteq> b"
      using key.enc_inject [OF k'(1) assms(2)] b k'(2) by auto
    then show ?thesis
      using b' col by (simp add: mst_get_def mst_column_def)
  qed
  then show ?thesis
    using b w col by (intro exI [of _ ?s]) (simp add: mst_put_def mst_get_def mst_column_def btm_contains_def)
qed

lemma delete_get:
  assumes "has_column S store" "kwf k"
  shows "\<exists>store'. mst_delete S k store = (Inr (), store') \<and> mst_get S store' k = Inr None
    \<and> (\<forall>k'. kwf k' \<longrightarrow> k' \<noteq> k \<longrightarrow> mst_get S store' k' = mst_get S store k')
    \<and> (\<forall>c. c \<noteq> sch_column S \<longrightarrow> btm_get store' c = btm_get store c) \<and> (\<forall>c. btm_contains store' c = btm_contains store c)"
proof -
  obtain col where col: "mst_column store (sch_column S) = Inr col" "btm_get store (sch_column S) = Some col"
    using present_col [OF assms(1)] by blast
  obtain b where b: "sch_key S k = Inr b"
    using key.enc_ok [OF assms(2)] by blast
  let ?s = "btm_insert (sch_column S) (btm_remove b col) store"
  have "mst_get S ?s k' = mst_get S store k'" if k': "kwf k'" "k' \<noteq> k" for k'
  proof -
    obtain b' where b': "sch_key S k' = Inr b'"
      using key.enc_ok [OF k'(1)] by blast
    then have "b' \<noteq> b"
      using key.enc_inject [OF k'(1) assms(2)] b k'(2) by auto
    then show ?thesis
      using b' col by (simp add: mst_get_def mst_column_def)
  qed
  then show ?thesis
    using b col by (intro exI [of _ ?s]) (simp add: mst_delete_def mst_get_def mst_column_def btm_contains_def)
qed

lemma contains_get:
  assumes "has_column S store" "kwf k"
  shows "\<exists>found. mst_contains S store k = Inr found \<and> (\<not> found \<longleftrightarrow> mst_get S store k = Inr None)"
proof -
  obtain col where col: "mst_column store (sch_column S) = Inr col"
    using present_col [OF assms(1)] by blast
  obtain b where b: "sch_key S k = Inr b"
    using key.enc_ok [OF assms(2)] by blast
  show ?thesis
    using b col by (auto simp: mst_contains_def mst_get_def btm_contains_def rbind_def split: option.splits sum.splits)
qed

end

text \<open>Other columns are not touched.\<close>

lemma mst_get_frame: "btm_get store' (sch_column T) = btm_get store (sch_column T) \<Longrightarrow> mst_get T store' k = mst_get T store k"
  by (simp add: mst_get_def mst_column_def)

interpretation by_level: kv_schema level_schema uint_decode "\<lambda>_. True" bpk_wf
  by unfold_locales (simp_all add: level_schema_def u32_codec.enc_ok u32_codec.dec_enc bpk_codec.enc_ok bpk_codec.dec_enc)

interpretation by_hash: kv_schema hash_schema "array_decode 32" "\<lambda>h. length h = 32" bpk_wf
  by unfold_locales (simp_all add: hash_schema_def hash_codec.enc_ok hash_codec.dec_enc bpk_codec.enc_ok bpk_codec.dec_enc)

text \<open>What the code relies on \<open>prost\<close> for: decoding the encoding of a header, of a list of transactions from \<open>T\<close>
  and of a chain state value gives the value back.  Not every list of transactions is coded faithfully: a
  signature with recovery id zero makes the length prefix wrong.\<close>

definition block_codec_laws :: "block_codecs \<Rightarrow> signed_transaction list set \<Rightarrow> bool" where
  "block_codec_laws D T \<longleftrightarrow>
     (\<forall>h. header_wf h \<longrightarrow> (\<exists>b. bc_header_enc D h = Inr b \<and> bc_header_dec D b = Inr h))
     \<and> (\<forall>t \<in> T. \<exists>b. bc_txs_enc D t = Inr b \<and> bc_txs_dec D b = Inr t)
     \<and> (\<forall>h. header_wf h \<longrightarrow> (\<exists>b. bc_head_enc D h = Inr b \<and> bc_head_dec D b = Inr h))"

lemma codec_on: "(\<And>x. P x \<Longrightarrow> \<exists>b. enc x = Inr b \<and> dec b = Inr x) \<Longrightarrow> byte_codec enc dec P"
  by unfold_locales (blast, metis rbind_simps(2))

lemma header_schema_ok: "block_codec_laws D T \<Longrightarrow> kv_schema (header_schema D) bpk_decode bpk_wf header_wf"
  by (auto simp: kv_schema_def header_schema_def bpk_codec.byte_codec_axioms block_codec_laws_def intro!: codec_on)

lemma txs_schema_ok: "block_codec_laws D T \<Longrightarrow> kv_schema (txs_schema D) bpk_decode bpk_wf (\<lambda>t. t \<in> T)"
  by (auto simp: kv_schema_def txs_schema_def bpk_codec.byte_codec_axioms block_codec_laws_def intro!: codec_on)

lemma chain_state_schema_ok: "block_codec_laws D T \<Longrightarrow> kv_schema (chain_state_schema D) vec_decode (\<lambda>_. True) header_wf"
  by (auto simp: kv_schema_def chain_state_schema_def vec_codec.byte_codec_axioms block_codec_laws_def intro!: codec_on)

section \<open>Putting and getting blocks\<close>

lemmas schema_defs = header_schema_def txs_schema_def level_schema_def hash_schema_def chain_state_schema_def

lemma columns_distinct: "distinct column_family_names"
  by (simp add: column_family_names_def ascii_def)

lemma column_names [simp]:
  "sch_column (header_schema D) = ascii ''block_storage''" "sch_column (txs_schema D) = ascii ''block_transactions_storage''"
  "sch_column level_schema = ascii ''block_level_storage''" "sch_column hash_schema = ascii ''block_hash_storage''"
  "sch_column (chain_state_schema D) = ascii ''chain_state''"
  by (simp_all add: schema_defs)

definition bs_columns :: "mem_store \<Rightarrow> bool" where
  "bs_columns store \<longleftrightarrow> list_all (btm_contains store) column_family_names"

lemma bs_columns_has:
  "bs_columns store \<Longrightarrow> has_column (header_schema D) store" "bs_columns store \<Longrightarrow> has_column (txs_schema D) store"
  "bs_columns store \<Longrightarrow> has_column level_schema store" "bs_columns store \<Longrightarrow> has_column hash_schema store"
  "bs_columns store \<Longrightarrow> has_column (chain_state_schema D) store"
  by (simp_all add: bs_columns_def column_family_names_def has_column_def)

lemma bs_columns_new: "bs_columns (mst_new column_family_names)"
  by (simp add: bs_columns_def mst_new_def btm_contains_def btm_from_list_get list_all_iff column_family_names_def ascii_def)

text \<open>\<open>store'\<close> differs from \<open>store\<close> in one column at most.\<close>

definition only_column :: "bytes \<Rightarrow> mem_store \<Rightarrow> mem_store \<Rightarrow> bool" where
  "only_column c store store' \<longleftrightarrow>
     (\<forall>c'. c' \<noteq> c \<longrightarrow> btm_get store' c' = btm_get store c') \<and> (\<forall>c'. btm_contains store' c' = btm_contains store c')"

lemma only_column_refl: "only_column c store store"
  by (simp add: only_column_def)

lemma only_column_columns: "only_column c store store' \<Longrightarrow> bs_columns store \<Longrightarrow> bs_columns store'"
  by (simp add: only_column_def bs_columns_def list_all_iff)

lemma only_column_get: "only_column c store store' \<Longrightarrow> sch_column T \<noteq> c \<Longrightarrow> mst_get T store' k = mst_get T store k"
  by (rule mst_get_frame) (simp add: only_column_def)

lemma headers_put_ok:
  assumes "block_codec_laws D T" "bs_columns store" "length (header_hash sha h) = 32" "header_wf h"
    and key: "key = BlockPrimaryKey (level h) (header_hash sha h)"
    and old: "mst_get (header_schema D) store key \<in> {Inr None, Inr (Some h)}"
  shows "\<exists>store'. headers_put D sha h store = (Inr key, store') \<and> mst_get (header_schema D) store' key = Inr (Some h)
    \<and> (\<forall>k. bpk_wf k \<longrightarrow> k \<noteq> key \<longrightarrow> mst_get (header_schema D) store' k = mst_get (header_schema D) store k)
    \<and> only_column (sch_column (header_schema D)) store store'"
proof -
  note S = header_schema_ok [OF assms(1)]
  have wf: "bpk_wf key"
    using assms(3) by (simp add: key)
  obtain found where found: "mst_contains (header_schema D) store key = Inr found" "\<not> found \<longleftrightarrow> mst_get (header_schema D) store key = Inr None"
    using kv_schema.contains_get [OF S bs_columns_has(1) [OF assms(2)] wf] by blast
  show ?thesis
  proof (cases found)
    case True
    then show ?thesis
      using found old key by (auto simp: headers_put_def look_def bind_def only_column_refl Let_def)
  next
    case False
    obtain s' where "mst_put (header_schema D) key h store = (Inr (), s')" "mst_get (header_schema D) s' key = Inr (Some h)"
      "\<forall>k. bpk_wf k \<longrightarrow> k \<noteq> key \<longrightarrow> mst_get (header_schema D) s' k = mst_get (header_schema D) store k"
      "only_column (sch_column (header_schema D)) store s'"
      using kv_schema.put_get [OF S bs_columns_has(1) [OF assms(2)] wf assms(4)] unfolding only_column_def by blast
    then show ?thesis
      using False found key by (simp add: headers_put_def look_def bind_def Let_def)
  qed
qed

text \<open>The level index keeps the first block put at a level.\<close>

lemma levels_put_ok:
  assumes "bs_columns store" "bpk_wf key"
  shows "\<exists>store'. levels_put lvl key store = (Inr (), store')
    \<and> mst_get level_schema store' lvl = (if mst_get level_schema store lvl = Inr None then Inr (Some key) else mst_get level_schema store lvl)
    \<and> (\<forall>l. l \<noteq> lvl \<longrightarrow> mst_get level_schema store' l = mst_get level_schema store l)
    \<and> only_column (sch_column level_schema) store store'"
proof -
  obtain found where found: "mst_contains level_schema store lvl = Inr found" "\<not> found \<longleftrightarrow> mst_get level_schema store lvl = Inr None"
    using by_level.contains_get [OF bs_columns_has(3) [OF assms(1)]] by blast
  show ?thesis
  proof (cases found)
    case True
    then show ?thesis
      using found by (auto simp: levels_put_def look_def bind_def only_column_refl)
  next
    case False
    obtain s' where "mst_put level_schema lvl key store = (Inr (), s')" "mst_get level_schema s' lvl = Inr (Some key)"
      "\<forall>l. l \<noteq> lvl \<longrightarrow> mst_get level_schema s' l = mst_get level_schema store l" "only_column (sch_column level_schema) store s'"
      using by_level.put_get [OF bs_columns_has(3) [OF assms(1)] _ assms(2), of lvl] unfolding only_column_def by blast
    then show ?thesis
      using False found by (simp add: levels_put_def look_def bind_def)
  qed
qed

lemma columns_differ:
  "ascii ''block_storage'' \<noteq> ascii ''block_transactions_storage''" "ascii ''block_storage'' \<noteq> ascii ''block_level_storage''"
  "ascii ''block_storage'' \<noteq> ascii ''block_hash_storage''" "ascii ''block_transactions_storage'' \<noteq> ascii ''block_level_storage''"
  "ascii ''block_transactions_storage'' \<noteq> ascii ''block_hash_storage''" "ascii ''block_level_storage'' \<noteq> ascii ''block_hash_storage''"
  using columns_distinct by (simp_all add: column_family_names_def)

lemma bs_put_ok:
  assumes "block_codec_laws D T" "bs_columns store" "length (block_hash sha b) = 32" "header_wf (bk_header b)" "bk_transactions b \<in> T"
    and key: "key = BlockPrimaryKey (block_level b) (block_hash sha b)"
    and old: "mst_get (header_schema D) store key \<in> {Inr None, Inr (Some (bk_header b))}"
  shows "\<exists>store'. bs_put D sha b store = (Inr (), store')
    \<and> (\<forall>k. bpk_wf k \<longrightarrow> mst_get (header_schema D) store' k = (if k = key then Inr (Some (bk_header b)) else mst_get (header_schema D) store k))
    \<and> (\<forall>k. bpk_wf k \<longrightarrow> mst_get (txs_schema D) store' k = (if k = key then Inr (Some (bk_transactions b)) else mst_get (txs_schema D) store k))
    \<and> (\<forall>h. length h = 32 \<longrightarrow> mst_get hash_schema store' h = (if h = block_hash sha b then Inr (Some key) else mst_get hash_schema store h))
    \<and> (\<forall>l. mst_get level_schema store' l =
             (if l = block_level b \<and> mst_get level_schema store l = Inr None then Inr (Some key) else mst_get level_schema store l))"
proof -
  let ?H = "header_schema D" and ?T = "txs_schema D"
  have wf: "bpk_wf key"
    using assms(3) by (simp add: key)
  obtain s1 where s1: "headers_put D sha (bk_header b) store = (Inr key, s1)" "mst_get ?H s1 key = Inr (Some (bk_header b))"
    "\<And>k. bpk_wf k \<Longrightarrow> k \<noteq> key \<Longrightarrow> mst_get ?H s1 k = mst_get ?H store k" "only_column (sch_column ?H) store s1"
    using headers_put_ok [OF assms(1,2) _ assms(4), of sha key] assms(3) key old by (auto simp: block_hash_def block_level_def)
  note cols1 = only_column_columns [OF s1(4) assms(2)]
  obtain s2 where s2: "mst_put ?T key (bk_transactions b) s1 = (Inr (), s2)" "mst_get ?T s2 key = Inr (Some (bk_transactions b))"
    "\<And>k. bpk_wf k \<Longrightarrow> k \<noteq> key \<Longrightarrow> mst_get ?T s2 k = mst_get ?T s1 k" "only_column (sch_column ?T) s1 s2"
    using kv_schema.put_get [OF txs_schema_ok [OF assms(1)] bs_columns_has(2) [OF cols1] wf assms(5)]
    unfolding only_column_def by blast
  note cols2 = only_column_columns [OF s2(4) cols1]
  obtain s3 where s3: "mst_put hash_schema (block_hash sha b) key s2 = (Inr (), s3)" "mst_get hash_schema s3 (block_hash sha b) = Inr (Some key)"
    "\<And>h. length h = 32 \<Longrightarrow> h \<noteq> block_hash sha b \<Longrightarrow> mst_get hash_schema s3 h = mst_get hash_schema s2 h"
    "only_column (sch_column hash_schema) s2 s3"
    using by_hash.put_get [OF bs_columns_has(4) [OF cols2] assms(3) wf] unfolding only_column_def by blast
  note cols3 = only_column_columns [OF s3(4) cols2]
  obtain s4 where s4: "levels_put (block_level b) key s3 = (Inr (), s4)"
    "mst_get level_schema s4 (block_level b) =
       (if mst_get level_schema s3 (block_level b) = Inr None then Inr (Some key) else mst_get level_schema s3 (block_level b))"
    "\<And>l. l \<noteq> block_level b \<Longrightarrow> mst_get level_schema s4 l = mst_get level_schema s3 l" "only_column (sch_column level_schema) s3 s4"
    using levels_put_ok [OF cols3 wf, of "block_level b"] by blast
  have run: "bs_put D sha b store = (Inr (), s4)"
    using s1(1) s2(1) s3(1) s4(1) by (simp add: bs_put_def key bind_def)
  note other = only_column_get [OF s1(4)] only_column_get [OF s2(4)] only_column_get [OF s3(4)] only_column_get [OF s4(4)]
  have lv: "mst_get level_schema s3 l = mst_get level_schema store l" for l
    by (simp add: other columns_differ columns_differ [symmetric])
  have "mst_get level_schema s4 l =
      (if l = block_level b \<and> mst_get level_schema store l = Inr None then Inr (Some key) else mst_get level_schema store l)" for l
    using s4(2,3) by (cases "l = block_level b") (simp_all only: lv simp_thms if_True if_False)
  then show ?thesis
    using run s1(2,3) s2(2,3) s3(2,3) columns_differ
    by (intro exI [of _ s4]) (simp add: other columns_differ [symmetric])
qed


definition demo_codecs :: block_codecs where
  "demo_codecs =
     \<lparr>bc_header_enc = (\<lambda>h. Inr (consensus_encode h)), bc_header_dec = consensus_decode,
      bc_txs_enc = (\<lambda>_. Inr []), bc_txs_dec = (\<lambda>_. Inr []),
      bc_head_enc = (\<lambda>h. Inr (consensus_encode h)), bc_head_dec = consensus_decode\<rparr>"

lemma demo_codecs_laws: "block_codec_laws demo_codecs {[]}"
  using header_codec.dec_enc by (simp add: block_codec_laws_def demo_codecs_def)

definition demo_sha :: "bytes \<Rightarrow> h256" where
  "demo_sha bs = replicate 32 (foldr (+) bs 0)"

definition demo_block :: "u32 \<Rightarrow> u64 \<Rightarrow> block" where
  "demo_block lvl nonce = \<lparr>bk_header = demo_header\<lparr>level := lvl, bh_nonce := nonce\<rparr>, bk_transactions = []\<rparr>"

lemma new_store_empty:
  "\<exists>b. sch_key S k = Inr b \<Longrightarrow> sch_column S \<in> set column_family_names \<Longrightarrow> mst_get S (mst_new column_family_names) k = Inr None"
proof -
  assume "\<exists>b. sch_key S k = Inr b" "sch_column S \<in> set column_family_names"
  moreover have "btm_get (mst_new column_family_names) c = Some []" if "c \<in> set column_family_names" for c
    using that by (auto simp: mst_new_def btm_from_list_get column_family_names_def)
  ultimately show ?thesis
    by (auto simp: mst_get_def mst_column_def)
qed


section \<open>What removing a stale chain removes\<close>

lemma bs_delete_ok:
  assumes "bs_columns store"
  shows "\<exists>store'. bs_delete h lvl store = (Inr (), store') \<and> only_column (sch_column level_schema) store store'
    \<and> (\<forall>l. mst_get level_schema store' l = (if l = lvl then Inr None else mst_get level_schema store l))"
  using by_level.delete_get [OF bs_columns_has(3) [OF assms], of lvl] unfolding bs_delete_def only_column_def by fastforce

lemma header_by_hash_frame:
  assumes "only_column (sch_column level_schema) store store'"
  shows "bs_get_header_by_hash D sha store' h = bs_get_header_by_hash D sha store h"
proof -
  have "mst_get hash_schema store' k = mst_get hash_schema store k" "mst_get (header_schema D) store' k' = mst_get (header_schema D) store k'" for k k'
    using only_column_get [OF assms, of hash_schema] only_column_get [OF assms, of "header_schema D"]
    by (simp_all add: columns_differ columns_differ [symmetric])
  then show ?thesis
    by (simp add: bs_get_header_by_hash_def bs_get_header_def cong: option.case_cong)
qed

lemma only_column_trans: "only_column c s1 s2 \<Longrightarrow> only_column c s2 s3 \<Longrightarrow> only_column c s1 s3"
  by (simp add: only_column_def)

lemma remove_stale_run:
  assumes "bs_columns store" "bs_get_header_by_hash D sha store head = Inr (Some b)"
    "bs_get_header_by_hash D sha store ancestor = Inr (Some a)" "parent_hash (ih_raw a) \<noteq> ancestor"
  shows "\<exists>store'. remove_stale D sha ancestor head store = Some (Inr (), store') \<and> only_column (sch_column level_schema) store store'
    \<and> (\<forall>l. mst_get level_schema store' l =
            (if l = level (ih_raw b) \<or> parent_hash (ih_raw b) = ancestor \<and> l = level (ih_raw a) then Inr None
             else mst_get level_schema store l))"
proof -
  obtain s1 where s1: "bs_delete head (level (ih_raw b)) store = (Inr (), s1)" "only_column (sch_column level_schema) store s1"
    "\<forall>l. mst_get level_schema s1 l = (if l = level (ih_raw b) then Inr None else mst_get level_schema store l)"
    using bs_delete_ok [OF assms(1)] by blast
  obtain s2 where s2: "bs_delete ancestor (level (ih_raw a)) s1 = (Inr (), s2)" "only_column (sch_column level_schema) s1 s2"
    "\<forall>l. mst_get level_schema s2 l = (if l = level (ih_raw a) then Inr None else mst_get level_schema s1 l)"
    using bs_delete_ok [OF only_column_columns [OF s1(2) assms(1)]] by blast
  let ?s = "if parent_hash (ih_raw b) = ancestor then s2 else s1"
  have "remove_stale D sha ancestor ancestor s1 = Some (Inr (), s2)"
    using assms(3,4) s2(1) by (subst remove_stale.simps) (simp add: header_by_hash_frame [OF s1(2)])
  then have "remove_stale D sha ancestor head store = Some (Inr (), ?s)"
    using assms(2) s1(1) by (subst remove_stale.simps) simp
  then show ?thesis
    using s1(2) only_column_trans [OF s1(2) s2(2)] by (intro exI [of _ ?s]) (simp add: s1(3) s2(3))
qed

text \<open>C40: what a reorganisation removes.  The loop over the stale chain stops after its first block unless the parent of
  that block is the common ancestor, which is when it should stop.  So of a stale chain of several blocks
  only the head leaves the level index, and of a stale chain of one block the common ancestor leaves it
  too: looking up its level finds nothing.  All blocks stay reachable by hash.\<close>

theorem stale_removal:
  assumes "bs_columns store" "bs_get_header_by_hash D sha store head = Inr (Some b)"
    "bs_get_header_by_hash D sha store ancestor = Inr (Some a)" "parent_hash (ih_raw a) \<noteq> ancestor"
  shows "\<exists>store'. remove_stale D sha ancestor head store = Some (Inr (), store')
    \<and> (\<forall>l. bs_get_header_by_level D sha store' l =
            (if l = level (ih_raw b) \<or> parent_hash (ih_raw b) = ancestor \<and> l = level (ih_raw a) then Inr None
             else bs_get_header_by_level D sha store l))
    \<and> (\<forall>h. bs_get_header_by_hash D sha store' h = bs_get_header_by_hash D sha store h)"
proof -
  obtain s where s: "remove_stale D sha ancestor head store = Some (Inr (), s)" "only_column (sch_column level_schema) store s"
    "\<forall>l. mst_get level_schema s l =
       (if l = level (ih_raw b) \<or> parent_hash (ih_raw b) = ancestor \<and> l = level (ih_raw a) then Inr None else mst_get level_schema store l)"
    using remove_stale_run [OF assms] by blast
  have "bs_get_header D sha s h l = bs_get_header D sha store h l" for h l
    using only_column_get [OF s(2), of "header_schema D"] by (simp add: bs_get_header_def columns_differ)
  then show ?thesis
    using s(1) by (intro exI [of _ s]) (simp add: bs_get_header_by_level_def s(3) header_by_hash_frame [OF s(2)] cong: option.case_cong)
qed

text \<open>A chain of the genesis block, with hash \<open>replicate 32 9\<close>, and one block on top of it, with hash \<open>replicate 32 8\<close>.\<close>

definition demo_two_codecs :: block_codecs where
  "demo_two_codecs = demo_codecs\<lparr>bc_header_dec := (\<lambda>raw. Inr (demo_header\<lparr>level := (if raw = [] then 0 else 1),
     parent_hash := (if raw = [] then replicate 32 0 else replicate 32 9)\<rparr>))\<rparr>"

definition demo_two_store :: mem_store where
  "demo_two_store =
     (let genesis = [0, 0, 0, 0] @ replicate 32 9; top = [0, 0, 0, 1] @ replicate 32 8 in
      [(ascii ''block_storage'', [(genesis, []), (top, [1])]), (ascii ''block_transactions_storage'', []),
       (ascii ''block_level_storage'', [([0, 0, 0, 0], genesis), ([0, 0, 0, 1], top)]),
       (ascii ''block_hash_storage'', [(replicate 32 9, genesis), (replicate 32 8, top)]), (ascii ''chain_state'', [])])"

lemma demo_two_lookups:
  "bs_columns demo_two_store"
  "bs_get_header_by_hash demo_two_codecs sha demo_two_store (replicate 32 8) =
     Inr (Some (indexed_from_raw sha (demo_header\<lparr>level := 1, parent_hash := replicate 32 9\<rparr>)))"
  "bs_get_header_by_hash demo_two_codecs sha demo_two_store (replicate 32 9) =
     Inr (Some (indexed_from_raw sha (demo_header\<lparr>level := 0, parent_hash := replicate 32 0\<rparr>)))"
  "bs_get_header_by_level demo_two_codecs sha demo_two_store 0 =
     Inr (Some (indexed_from_raw sha (demo_header\<lparr>level := 0, parent_hash := replicate 32 0\<rparr>)))"
proof -
  have keys: "bpk_decode ([0, 0, 0, 1] @ replicate 32 8) = Inr (BlockPrimaryKey 1 (replicate 32 8))"
    "bpk_decode ([0, 0, 0, 0] @ replicate 32 9) = Inr (BlockPrimaryKey 0 (replicate 32 9))"
    "to_be_bytes (0 :: u32) = [0, 0, 0, 0]" "to_be_bytes (1 :: u32) = [0, 0, 0, 1]"
    by code_simp+
  have ne: "ascii ''block_storage'' \<noteq> ascii ''chain_state''" "replicate 32 (9 :: u8) \<noteq> replicate 32 8"
    by (simp_all add: ascii_def)
  show "bs_columns demo_two_store"
    by (simp add: bs_columns_def demo_two_store_def column_family_names_def btm_contains_def btm_get_def Let_def)
  note defs = demo_two_store_def demo_two_codecs_def demo_codecs_def bs_get_header_by_hash_def bs_get_header_by_level_def bs_get_header_def
    mst_get_def mst_column_def schema_defs array_encode_def uint_encode_def btm_get_def Let_def
  show "bs_get_header_by_hash demo_two_codecs sha demo_two_store (replicate 32 8) =
     Inr (Some (indexed_from_raw sha (demo_header\<lparr>level := 1, parent_hash := replicate 32 9\<rparr>)))"
    "bs_get_header_by_hash demo_two_codecs sha demo_two_store (replicate 32 9) =
     Inr (Some (indexed_from_raw sha (demo_header\<lparr>level := 0, parent_hash := replicate 32 0\<rparr>)))"
    "bs_get_header_by_level demo_two_codecs sha demo_two_store 0 =
     Inr (Some (indexed_from_raw sha (demo_header\<lparr>level := 0, parent_hash := replicate 32 0\<rparr>)))"
    using columns_differ ne keys by (simp_all add: defs keys [simplified])
qed

theorem stale_removal_witness:
  "\<exists>store. remove_stale demo_two_codecs demo_sha (replicate 32 9) (replicate 32 8) demo_two_store = Some (Inr (), store)
     \<and> bs_get_header_by_level demo_two_codecs demo_sha store 1 = Inr None
     \<and> bs_get_header_by_level demo_two_codecs demo_sha demo_two_store 0 \<noteq> Inr None
     \<and> bs_get_header_by_level demo_two_codecs demo_sha store 0 = Inr None"
  using stale_removal [OF demo_two_lookups(1) demo_two_lookups(2,3) [of demo_sha]] demo_two_lookups(4) [of demo_sha]
  by (auto simp: indexed_from_raw_def)

end
