(* ===== verification/Chain.thy ===== *)
theory Chain
  imports State Block_Storage Txpool
begin

text \<open>
  The chain of \<open>blockchain/src/chain_state.rs\<close> and \<open>blockchain/src/blockchain.rs\<close>: opening it, from the stored head
  or from the genesis block, and adding blocks.

  The operations are actions on the record \<open>chain\<close>, the account state with the block store.  The code that
  loads and creates applications in the virtual machine, the clock and the channel for events are
  fields of \<open>chain_config\<close>.  The pool that \<open>put_chain\<close> repacks is an argument; \<open>pool_repack\<close> is the pool of
  \<open>Txpool\<close> over this chain.  The accounts that \<open>ChainState::new\<close> collects in a \<open>HashMap\<close> are written in key
  order; they are distinct.  The lock of \<open>ChainState\<close> is not modelled.
\<close>

datatype chain_error =
    ChainStorageError storage_error
  | ChainConsensusError consensus_error
  | ChainStateError state_error
  | ChainAddressError address_error
  | FailedToVerifyHeader consensus_error
  | InvalidBlock
  | ChainBail string
  | ChainSendError
  | ChainPoolError pool_error
  | ChainPanicked
  | ChainHangs

datatype local_event =
    MindedBlock block
  | BroadcastTx "signed_transaction list"
  | TxPoolPack "signed_transaction list"
  | StateChanged block_header
  | NetworkHighestHeadChanged string "block_header option"
  | NetworkNewPeerConnection "nat \<times> nat" string

record chain =
  cs_state :: state
  cs_store :: mem_store
  cs_sent :: "local_event list"

record chain_config =
  cc_env :: chain_env
  cc_vm :: wasm_vm
  cc_codecs :: block_codecs
  cc_sha :: "bytes \<Rightarrow> h256"
  cc_network :: network
  cc_now :: int
  cc_open :: bool
  cc_create :: "state \<Rightarrow> address \<Rightarrow> address \<Rightarrow> u64 \<Rightarrow> bytes \<Rightarrow> state_error + bytes \<times> changelist"
  cc_load :: "state \<Rightarrow> address \<Rightarrow> state_error + unit"

type_synonym 'a chain_action = "(chain, chain_error, 'a) action"

definition on_store :: "(mem_store, storage_error, 'a) action \<Rightarrow> 'a chain_action" where
  "on_store m c = (let (r, s) = m (cs_store c) in (map_err ChainStorageError r, c\<lparr>cs_store := s\<rparr>))"

definition on_state :: "(state, state_error, 'a) action \<Rightarrow> 'a chain_action" where
  "on_state m c = (let (r, s) = m (cs_state c) in (map_err ChainStateError r, c\<lparr>cs_state := s\<rparr>))"

section \<open>Opening a chain\<close>

definition ROOT :: address where
  "ROOT =
     [111, 100, 97, 110, 120, 49, 107, 122, 50, 55, 109, 112, 106, 104, 50, 113, 110, 106, 54, 56,
      112, 115, 97, 110, 54, 51, 103, 109, 116, 119, 51, 113, 52, 54, 122, 104, 97, 50, 119, 102,
      117, 99, 100, 50]"

definition app_address_of :: "chain_config \<Rightarrow> bytes \<Rightarrow> chain_error + address" where
  "app_address_of K pkn = map_err ChainAddressError (get_address_from_package_name (ce_keccak (cc_env K)) pkn (cc_network K))"

definition restore :: "chain_config \<Rightarrow> (bytes \<times> bytes) list \<Rightarrow> block_header \<Rightarrow> unit chain_action" where
  "restore K built_in head =
     bind (on_state (state_reset (cc_env K) (state_root head))) (\<lambda>_.
     for_each (\<lambda>(pkn, _).
       bind (lift_res (app_address_of K pkn)) (\<lambda>app_address.
       look (\<lambda>c. map_err ChainStateError (cc_load K (cs_state c) app_address)))) built_in)"

text \<open>One built-in application: its account gets the root of its storage, its data and code are stored.\<close>

definition install_app :: "chain_config \<Rightarrow> bytes \<times> bytes \<Rightarrow> accounts \<Rightarrow> accounts chain_action" where
  "install_app K pb states =
     bind (lift_res (app_address_of K (fst pb))) (\<lambda>app_address.
     bind (look (\<lambda>c. map_err ChainStateError (cc_create K (cs_state c) ROOT app_address 0 (snd pb)))) (\<lambda>(descr, cl).
     (let root = smt_root (storage cl); states = insert_changes cl states in
      bind (lift_res (ok_or (btm_get states app_address) (ChainBail ''app state not found''))) (\<lambda>acc.
      (let app = \<lparr>root_hash = root, code_hash = ce_keccak (cc_env K) (snd pb), creator = ROOT, version = 1\<rparr>;
           states = btm_insert app_address (acc\<lparr>acc_app_state := Some app\<rparr>) states
       in bind (on_state (set_app_data (cc_env K) (app_address, root) (storage cl))) (\<lambda>_.
          bind (on_state (set_app_metadata (cc_env K) (snd pb) descr)) (\<lambda>_. ret states)))))))"

definition start_genesis :: "chain_config \<Rightarrow> (bytes \<times> bytes) list \<Rightarrow> unit chain_action" where
  "start_genesis K built_in =
     bind (lift_res (map_err ChainConsensusError (get_genesis_header (cc_network K)))) (\<lambda>genesis.
     bind (on_state (credit_balance (cc_env K) default_address 1000000000000)) (\<lambda>_.
     bind (for_acc (install_app K) built_in []) (\<lambda>states.
     bind (for_each (\<lambda>(a, acc). bind (on_state (set_account_state (cc_env K) a acc)) (\<lambda>_. ret ())) states) (\<lambda>_.
     bind (on_state (state_commit (cc_env K))) (\<lambda>_.
     bind (gets (\<lambda>c. genesis\<lparr>state_root := root_hash_of (cs_state c)\<rparr>)) (\<lambda>genesis.
     bind (on_store (bs_put (cc_codecs K) (cc_sha K) \<lparr>bk_header = genesis, bk_transactions = []\<rparr>)) (\<lambda>_.
     on_store (set_current_header (cc_codecs K) genesis))))))))"

definition chain_new ::
  "chain_config \<Rightarrow> (bytes \<times> bytes) list \<Rightarrow> mem_store \<Rightarrow> memory_store \<times> memory_store \<times> memory_store \<Rightarrow> (chain_error + unit) \<times> chain option" where
  "chain_new K built_in store dbs =
     (case state_new (cc_env K) (fst dbs) (fst (snd dbs)) (snd (snd dbs)) of
        Inl e \<Rightarrow> (Inl (ChainStateError e), None)
      | Inr st \<Rightarrow>
          apsnd Some
            (bind (look (\<lambda>c. map_err ChainStorageError (get_current_header (cc_codecs K) (cs_store c)))) (\<lambda>current.
             case current of Some head \<Rightarrow> restore K built_in head | None \<Rightarrow> start_genesis K built_in)
             \<lparr>cs_state = st, cs_store = store, cs_sent = []\<rparr>))"

section \<open>Readers\<close>

definition chain_reader :: "chain_config \<Rightarrow> chain \<Rightarrow> head_reader" where
  "chain_reader K c = storage_reader (cc_codecs K) (cc_sha K) (cs_store c)"

definition chain_current_header :: "chain_config \<Rightarrow> chain \<Rightarrow> chain_error + indexed_header option" where
  "chain_current_header K c = map_err ChainStorageError (current_header (cc_codecs K) (cc_sha K) (cs_store c))"

definition current_or_bail :: "chain_config \<Rightarrow> chain \<Rightarrow> chain_error + indexed_header" where
  "current_or_bail K c =
     rbind (chain_current_header K c) (\<lambda>r. ok_or r (ChainBail ''failed to load current head, state invalid''))"

definition header_by_hash :: "chain_config \<Rightarrow> string \<Rightarrow> h256 \<Rightarrow> chain \<Rightarrow> chain_error + indexed_header" where
  "header_by_hash K msg hash c =
     rbind (map_err ChainStorageError (bs_get_header_by_hash (cc_codecs K) (cc_sha K) (cs_store c) hash)) (\<lambda>r. ok_or r (ChainBail msg))"

definition chain_genesis :: "chain_config \<Rightarrow> chain \<Rightarrow> chain_error + indexed_header" where
  "chain_genesis K c =
     (case bs_get_header_by_level (cc_codecs K) (cc_sha K) (cs_store c) 0 of Inr (Some genesis) \<Rightarrow> Inr genesis | _ \<Rightarrow> Inl ChainPanicked)"

definition chain_get_block :: "chain_config \<Rightarrow> chain \<Rightarrow> h256 \<Rightarrow> u32 \<Rightarrow> chain_error + block option" where
  "chain_get_block K c hash lvl = map_err ChainStorageError (bs_get_block (cc_codecs K) (cs_store c) hash lvl)"

definition chain_get_block_by_hash :: "chain_config \<Rightarrow> chain \<Rightarrow> h256 \<Rightarrow> chain_error + block option" where
  "chain_get_block_by_hash K c hash = map_err ChainStorageError (bs_get_block_by_hash (cc_codecs K) (cs_store c) hash)"

definition chain_get_block_by_level :: "chain_config \<Rightarrow> chain \<Rightarrow> u32 \<Rightarrow> chain_error + block option" where
  "chain_get_block_by_level K c lvl = map_err ChainStorageError (bs_get_block_by_level (cc_codecs K) (cs_store c) lvl)"

definition chain_state_at :: "chain_config \<Rightarrow> chain \<Rightarrow> h256 \<Rightarrow> chain_error + state" where
  "chain_state_at K c root = map_err ChainStateError (get_state_at (cc_env K) (cs_state c) root)"

section \<open>Adding blocks\<close>

text \<open>\<open>process_block\<close> recomputes the header on a read-only copy of the parent state, which is then dropped.\<close>

definition process_block :: "chain_config \<Rightarrow> chain \<Rightarrow> block \<Rightarrow> chain_error + block_header" where
  "process_block K c b =
     rbind (map_err ChainConsensusError (prepare_header (cc_network K) (chain_reader K c) (bk_header b))) (\<lambda>header.
     rbind (header_by_hash K ''error processing block parent block not found'' (block_parent_hash b) c) (\<lambda>parent_header.
     rbind (chain_state_at K c (state_root (ih_raw parent_header))) (\<lambda>parent_state.
     rbind (map_err ChainStateError (fst (finalize (cc_env K) (cc_vm K) header (bk_transactions b) parent_state))) (\<lambda>header.
     rbind (map_err FailedToVerifyHeader (verify_header (cc_sha K) (cc_network K) (chain_reader K c) (cc_now K) header)) (\<lambda>_.
     if header_hash (cc_sha K) header \<noteq> block_hash (cc_sha K) b then Inl InvalidBlock else Inr header)))))"

definition send_state_changed :: "chain_config \<Rightarrow> unit chain_action" where
  "send_state_changed K c =
     (case chain_current_header K c of
        Inr (Some head) \<Rightarrow>
          if cc_open K then (Inr (), c\<lparr>cs_sent := cs_sent c @ [StateChanged (ih_raw head)]\<rparr>) else (Inl ChainSendError, c)
      | _ \<Rightarrow> (Inl ChainPanicked, c))"

definition extend_head :: "chain_config \<Rightarrow> block \<Rightarrow> unit chain_action" where
  "extend_head K b =
     bind (on_state (apply_txs (cc_env K) (cc_vm K) (bk_transactions b))) (\<lambda>_.
     bind (on_state (credit_balance (cc_env K) (coinbase (bk_header b)) (protocol_miner_reward (level (bk_header b))))) (\<lambda>_.
     bind (on_state (state_commit (cc_env K))) (\<lambda>_.
     bind (on_store (set_current_header (cc_codecs K) (bk_header b))) (\<lambda>_.
     send_state_changed K))))"

definition accept_fork :: "chain_config \<Rightarrow> indexed_header \<Rightarrow> block \<Rightarrow> bool chain_action" where
  "accept_fork K current_head b =
     bind (look (header_by_hash K ''error accepting block non commit'' (block_parent_hash b))) (\<lambda>parent_header.
     bind (on_state (apply_txs_no_commit (cc_env K) (cc_vm K) (state_root (ih_raw parent_header))
                       (protocol_miner_reward (block_level b)) (coinbase (bk_header b)) (bk_transactions b))) (\<lambda>commit_state.
     if commit_state \<noteq> state_root (bk_header b) then fail (ChainBail ''Invalid or Corrupt Block'')
     else if block_level b > level (ih_raw current_head) then
       bind (on_state (state_reset (cc_env K) (state_root (bk_header b)))) (\<lambda>_.
       bind (on_store (set_current_header (cc_codecs K) (bk_header b))) (\<lambda>_. ret True))
     else ret False))"

text \<open>Whether the pool is to be repacked; the block is always stored.\<close>

definition accept_block :: "chain_config \<Rightarrow> block \<Rightarrow> bool chain_action" where
  "accept_block K b =
     bind (look (current_or_bail K)) (\<lambda>current_head.
     if block_parent_hash b = ih_hash current_head then bind (extend_head K b) (\<lambda>_. ret True)
     else accept_fork K current_head b)"

text \<open>Going back to the parent of the first block when it is not on top of the head.\<close>

definition roll_back :: "chain_config \<Rightarrow> indexed_header \<Rightarrow> block \<Rightarrow> unit chain_action" where
  "roll_back K current_head first_block =
     (if block_parent_hash first_block \<noteq> ih_hash current_head \<and> level (ih_raw current_head) > block_level first_block - 1 then
        bind (look (header_by_hash K ''error accepting block non commit'' (block_parent_hash first_block))) (\<lambda>parent_header.
        bind (on_state (state_reset (cc_env K) (state_root (ih_raw parent_header)))) (\<lambda>_.
        bind (on_store (set_current_header (cc_codecs K) (ih_raw parent_header))) (\<lambda>_.
        (\<lambda>c. case remove_stale (cc_codecs K) (cc_sha K) (ih_hash parent_header) (header_hash (cc_sha K) (ih_raw current_head)) (cs_store c) of
               None \<Rightarrow> (Inl ChainHangs, c)
             | Some (r, store) \<Rightarrow> (map_err ChainStorageError r, c\<lparr>cs_store := store\<rparr>)))))
      else ret ())"

type_synonym 'p repacker = "chain \<Rightarrow> reset_request \<Rightarrow> 'p \<Rightarrow> (chain_error + unit) \<times> 'p"

definition on_chain :: "'a chain_action \<Rightarrow> (chain \<times> 'p, chain_error, 'a) action" where
  "on_chain m cp = (let (r, c) = m (fst cp) in (r, (c, snd cp)))"

definition put_block :: "chain_config \<Rightarrow> 'p repacker \<Rightarrow> indexed_header \<Rightarrow> block \<Rightarrow> (chain \<times> 'p, chain_error, unit) action" where
  "put_block K repacker old_head b =
     bind (on_chain (look (\<lambda>c. process_block K c b))) (\<lambda>_.
     bind (on_chain (accept_block K b)) (\<lambda>repacks.
     bind (on_chain (on_store (bs_put (cc_codecs K) (cc_sha K) b))) (\<lambda>_.
     if repacks then
       (\<lambda>(c, p). let (r, p) = repacker c \<lparr>rr_old_head = Some (ih_raw old_head), rr_new_head = bk_header b\<rparr> p in (r, (c, p)))
     else ret ())))"

definition put_chain :: "chain_config \<Rightarrow> 'p repacker \<Rightarrow> block list \<Rightarrow> (chain \<times> 'p, chain_error, unit) action" where
  "put_chain K repacker blocks =
     bind (on_chain (look (current_or_bail K))) (\<lambda>current_head.
     case blocks of
       [] \<Rightarrow> fail ChainPanicked
     | first_block # _ \<Rightarrow>
         bind (on_chain (roll_back K current_head first_block)) (\<lambda>_.
         for_each (put_block K repacker current_head) blocks))"

section \<open>The pool over the chain\<close>

text \<open>What the pool sees of a state.  An account that cannot be read because the read does not return has no value
  in a view; it counts as zero here.\<close>

definition view_of :: "chain_env \<Rightarrow> state \<Rightarrow> state_view" where
  "view_of env s =
     \<lparr>sv_nonce = (\<lambda>a. case state_nonce env s a of Inr n \<Rightarrow> n | Inl _ \<Rightarrow> 0),
      sv_balance = (\<lambda>a. case state_balance env s a of Inr n \<Rightarrow> n | Inl _ \<Rightarrow> 0)\<rparr>"

definition chain_pool_env :: "chain_config \<Rightarrow> prost \<Rightarrow> (address list \<Rightarrow> address list) \<Rightarrow> (nat \<Rightarrow> nat) \<Rightarrow> chain \<Rightarrow> pool_env" where
  "chain_pool_env K P order tick c =
     \<lparr>pe_crypto = \<lparr>pc_k256 = ce_k256 (cc_env K), pc_keccak = ce_keccak (cc_env K), pc_prost = P\<rparr>, pe_sha = cc_sha K,
      pe_block = (\<lambda>hash lvl. map_err (\<lambda>e. if e = ChainStorageError StoragePanicked then PoolPanicked else ChainFailed) (chain_get_block K c hash lvl)),
      pe_state_at = (\<lambda>root. rbind (map_err (\<lambda>_. ChainFailed) (chain_state_at K c root)) (\<lambda>s. Inr (view_of (cc_env K) s))),
      pe_current_state = Inr (view_of (cc_env K) (cs_state c)), pe_order = order, pe_tick = tick, pe_open = cc_open K\<rparr>"

definition pool_repack :: "chain_config \<Rightarrow> prost \<Rightarrow> (address list \<Rightarrow> address list) \<Rightarrow> (nat \<Rightarrow> nat) \<Rightarrow> tx_pool repacker" where
  "pool_repack K P order tick c req p =
     (let (r, p) = repack (chain_pool_env K P order tick c) as_new (Some req) p in (map_err ChainPoolError r, p))"

text \<open>\<open>Chain::initialize\<close>: the chain, and a pool with the default configuration on top of it.\<close>

definition initialize ::
  "chain_config \<Rightarrow> prost \<Rightarrow> (address list \<Rightarrow> address list) \<Rightarrow> (nat \<Rightarrow> nat) \<Rightarrow> nat \<Rightarrow> (bytes \<times> bytes) list \<Rightarrow> mem_store
     \<Rightarrow> memory_store \<times> memory_store \<times> memory_store \<Rightarrow> chain_error + chain \<times> tx_pool" where
  "initialize K P order tick clock built_in store dbs =
     (case chain_new K built_in store dbs of
        (Inl e, _) \<Rightarrow> Inl e
      | (Inr _, None) \<Rightarrow> Inl ChainPanicked
      | (Inr _, Some c) \<Rightarrow>
          rbind (map_err ChainPoolError (pool_new (chain_pool_env K P order tick c) None None clock)) (\<lambda>p. Inr (c, p)))"

end
