(* ===== verification/Uint.thy ===== *)
theory Uint
  imports Compact
begin

text \<open>
  The fixed-size big integers of \<open>common/uint/src/uint.rs\<close>: what \<open>construct_uint!\<close> generates for a number
  of 64-bit words.  A value is the array of its words, least significant first; \<open>$n_words\<close> is the
  length of the list.  Every loop of the macros is a fold over the same indices, arrays are updated
  in place by list update, and an operation that panics returns the panic as \<open>Inl\<close>.  \<open>usize\<close> has 64
  bits.

  The first half of the theory holds the operations, the second what addition, subtraction,
  multiplication, comparison and the shifts do to the number a word array stands for.  Division
  is in \<open>Uint_Div\<close>, roots, powers and decimal text in \<open>Uint_Props\<close>.
\<close>

type_synonym limbs = "u64 list"
type_synonym dword = "128 word"

datatype uint_panic = ArithmeticOverflow | DivisionByZero | CastOverflow | BufferUnderflow

section \<open>Primitive integers of the language\<close>

definition u64_overflowing_add :: "u64 \<Rightarrow> u64 \<Rightarrow> u64 \<times> bool" where
  "u64_overflowing_add a b = (a + b, 2 ^ 64 \<le> unat a + unat b)"

definition u64_overflowing_sub :: "u64 \<Rightarrow> u64 \<Rightarrow> u64 \<times> bool" where
  "u64_overflowing_sub a b = (a - b, a < b)"

definition u64_leading_zeros :: "u64 \<Rightarrow> nat" where
  "u64_leading_zeros w = 64 - bit_length (unat w)"

section \<open>Constants and conversions\<close>

definition uint_zero :: "nat \<Rightarrow> limbs" where
  "uint_zero n = replicate n 0"

definition uint_one :: "nat \<Rightarrow> limbs" where
  "uint_one n = (replicate n 0)[0 := 1]"

definition uint_max :: "nat \<Rightarrow> limbs" where
  "uint_max n = fold (\<lambda>i result. result[i := - 1]) [0..<n] (replicate n 0)"

definition from_u64 :: "nat \<Rightarrow> u64 \<Rightarrow> limbs" where
  "from_u64 n v = (replicate n 0)[0 := v]"

definition from_u128 :: "nat \<Rightarrow> dword \<Rightarrow> limbs" where
  "from_u128 n v = (replicate n 0)[0 := ucast v, 1 := ucast (drop_bit 64 v)]"

definition low_u64 :: "limbs \<Rightarrow> u64" where
  "low_u64 arr = arr ! 0"

definition low_u32 :: "limbs \<Rightarrow> u32" where
  "low_u32 arr = ucast (arr ! 0)"

definition low_u128 :: "limbs \<Rightarrow> dword" where
  "low_u128 arr = push_bit 64 (ucast (arr ! 1)) + ucast (arr ! 0)"

text \<open>The loops of \<open>is_zero\<close> and \<open>fits_word\<close> leave at the first nonzero word.\<close>

definition uint_is_zero :: "limbs \<Rightarrow> bool" where
  "uint_is_zero arr = list_all (\<lambda>w. w = 0) arr"

definition fits_word :: "limbs \<Rightarrow> bool" where
  "fits_word arr = list_all (\<lambda>w. w = 0) (drop 1 arr)"

definition as_u64 :: "limbs \<Rightarrow> uint_panic + u64" where
  "as_u64 arr = (if \<not> fits_word arr then Inl CastOverflow else Inr (arr ! 0))"

definition as_u32 :: "limbs \<Rightarrow> uint_panic + u32" where
  "as_u32 arr =
     (if \<not> fits_word arr \<or> 0xffffffff < arr ! 0 then Inl CastOverflow
      else rbind (as_u64 arr) (\<lambda>w. Inr (ucast w)))"

definition as_usize :: "limbs \<Rightarrow> uint_panic + u64" where
  "as_usize arr = (if \<not> fits_word arr \<or> - 1 < arr ! 0 then Inl CastOverflow else Inr (arr ! 0))"

definition as_u128 :: "limbs \<Rightarrow> uint_panic + dword" where
  "as_u128 arr = (if list_all (\<lambda>w. w = 0) (drop 2 arr) then Inr (low_u128 arr) else Inl CastOverflow)"

definition try_into_u128 :: "limbs \<Rightarrow> dword option" where
  "try_into_u128 arr =
     (if list_all (\<lambda>w. w = 0) (drop 2 arr) then Some (push_bit 64 (ucast (arr ! 1)) + ucast (arr ! 0)) else None)"

definition try_into_i128 :: "limbs \<Rightarrow> int option" where
  "try_into_i128 arr =
     (case try_into_u128 arr of
        None \<Rightarrow> None
      | Some i \<Rightarrow> if 2 ^ 127 - 1 < uint i then None else Some (sint i))"

text \<open>\<open>impl_try_from_for_primitive!\<close>: the largest value of the target type is an argument.\<close>

definition try_into_primitive :: "u64 \<Rightarrow> limbs \<Rightarrow> u64 option" where
  "try_into_primitive max_value arr =
     (if \<not> fits_word arr \<or> max_value < arr ! 0 then None else Some (arr ! 0))"

section \<open>Bits, bytes and order\<close>

fun uint_bits_loop :: "limbs \<Rightarrow> nat \<Rightarrow> nat" where
  "uint_bits_loop arr 0 = 0x40 - u64_leading_zeros (arr ! 0)"
| "uint_bits_loop arr (Suc k) =
     (if 0 < arr ! Suc k then 0x40 * (Suc k + 1) - u64_leading_zeros (arr ! Suc k)
      else uint_bits_loop arr k)"

definition uint_bits :: "limbs \<Rightarrow> nat" where
  "uint_bits arr = uint_bits_loop arr (length arr - 1)"

definition uint_bit :: "limbs \<Rightarrow> nat \<Rightarrow> bool" where
  "uint_bit arr index \<longleftrightarrow> arr ! (index div 64) AND push_bit (index mod 64) 1 \<noteq> 0"

definition uint_byte :: "limbs \<Rightarrow> nat \<Rightarrow> u8" where
  "uint_byte arr index = ucast (drop_bit ((index mod 8) * 8) (arr ! (index div 8)))"

text \<open>\<open>iter().rev().cmp(..)\<close>: lexicographic from the most significant word.\<close>

fun words_cmp :: "limbs \<Rightarrow> limbs \<Rightarrow> ordering" where
  "words_cmp [] [] = Equal"
| "words_cmp [] (y # ys) = Less"
| "words_cmp (x # xs) [] = Greater"
| "words_cmp (x # xs) (y # ys) = (case cmp x y of Equal \<Rightarrow> words_cmp xs ys | r \<Rightarrow> r)"

definition uint_cmp :: "limbs \<Rightarrow> limbs \<Rightarrow> ordering" where
  "uint_cmp a b = words_cmp (rev a) (rev b)"

definition uint_and :: "limbs \<Rightarrow> limbs \<Rightarrow> limbs" where
  "uint_and a b = map2 (AND) a b"

definition uint_or :: "limbs \<Rightarrow> limbs \<Rightarrow> limbs" where
  "uint_or a b = map2 (OR) a b"

definition uint_xor :: "limbs \<Rightarrow> limbs \<Rightarrow> limbs" where
  "uint_xor a b = map2 (XOR) a b"

definition uint_not :: "limbs \<Rightarrow> limbs" where
  "uint_not a = map (NOT) a"

section \<open>Shifts\<close>

definition uint_shl :: "limbs \<Rightarrow> nat \<Rightarrow> limbs" where
  "uint_shl original shift =
     (let n = length original; word_shift = shift div 64; bit_shift = shift mod 64;
          ret = fold (\<lambda>i ret. ret[i := push_bit bit_shift (original ! (i - word_shift))])
                  [word_shift..<n] (replicate n 0)
      in if 0 < bit_shift
         then fold (\<lambda>i ret. ret[i := ret ! i + drop_bit (64 - bit_shift) (original ! (i - 1 - word_shift))])
                [word_shift + 1..<n] ret
         else ret)"

definition uint_shr :: "limbs \<Rightarrow> nat \<Rightarrow> limbs" where
  "uint_shr original shift =
     (let n = length original; word_shift = shift div 64; bit_shift = shift mod 64;
          ret = fold (\<lambda>i ret. ret[i - word_shift := drop_bit bit_shift (original ! i)])
                  [word_shift..<n] (replicate n 0)
      in if 0 < bit_shift
         then fold (\<lambda>i ret. ret[i - word_shift - 1 :=
                  ret ! (i - word_shift - 1) + push_bit (64 - bit_shift) (original ! i)])
                [word_shift + 1..<n] ret
         else ret)"

text \<open>\<open>Shl\<close> and \<open>Shr\<close> take anything that converts into the type and panic when it is no \<open>usize\<close>.\<close>

definition uint_shl_by :: "limbs \<Rightarrow> limbs \<Rightarrow> uint_panic + limbs" where
  "uint_shl_by x shift = rbind (as_usize shift) (\<lambda>s. Inr (uint_shl x (unat s)))"

definition uint_shr_by :: "limbs \<Rightarrow> limbs \<Rightarrow> uint_panic + limbs" where
  "uint_shr_by x shift = rbind (as_usize shift) (\<lambda>s. Inr (uint_shr x (unat s)))"

section \<open>Addition and subtraction\<close>

text \<open>One turn of the loop of \<open>uint_overflowing_binop!\<close>, and the loop over the words of both operands.\<close>

definition binop_turn :: "(u64 \<Rightarrow> u64 \<Rightarrow> u64 \<times> bool) \<Rightarrow> u64 \<Rightarrow> u64 \<Rightarrow> u64 \<Rightarrow> u64 \<times> u64" where
  "binop_turn f me you carry =
     (if carry \<noteq> 0 then
        (let (res1, overflow1) = f me you; (res2, overflow2) = f res1 carry
         in (res2, ucast (of_bool overflow1 + of_bool overflow2 :: u8)))
      else (let (res, overflow) = f me you in (res, of_bool overflow)))"

fun binop_loop :: "(u64 \<Rightarrow> u64 \<Rightarrow> u64 \<times> bool) \<Rightarrow> u64 \<Rightarrow> limbs \<Rightarrow> limbs \<Rightarrow> limbs \<times> u64" where
  "binop_loop f carry (me # mes) (you # yous) =
     (let (r, carry) = binop_turn f me you carry; (rs, carry) = binop_loop f carry mes yous in (r # rs, carry))"
| "binop_loop f carry _ _ = ([], carry)"

definition uint_overflowing_binop :: "(u64 \<Rightarrow> u64 \<Rightarrow> u64 \<times> bool) \<Rightarrow> limbs \<Rightarrow> limbs \<Rightarrow> limbs \<times> bool" where
  "uint_overflowing_binop f me you = (let (r, carry) = binop_loop f 0 me you in (r, 0 < carry))"

definition overflowing_add :: "limbs \<Rightarrow> limbs \<Rightarrow> limbs \<times> bool" where
  "overflowing_add = uint_overflowing_binop u64_overflowing_add"

definition overflowing_sub :: "limbs \<Rightarrow> limbs \<Rightarrow> limbs \<times> bool" where
  "overflowing_sub = uint_overflowing_binop u64_overflowing_sub"

definition saturating_add :: "limbs \<Rightarrow> limbs \<Rightarrow> limbs" where
  "saturating_add a b = (case overflowing_add a b of (_, True) \<Rightarrow> uint_max (length a) | (val, False) \<Rightarrow> val)"

definition checked_add :: "limbs \<Rightarrow> limbs \<Rightarrow> limbs option" where
  "checked_add a b = (case overflowing_add a b of (_, True) \<Rightarrow> None | (val, False) \<Rightarrow> Some val)"

definition saturating_sub :: "limbs \<Rightarrow> limbs \<Rightarrow> limbs" where
  "saturating_sub a b = (case overflowing_sub a b of (_, True) \<Rightarrow> uint_zero (length a) | (val, False) \<Rightarrow> val)"

definition checked_sub :: "limbs \<Rightarrow> limbs \<Rightarrow> limbs option" where
  "checked_sub a b = (case overflowing_sub a b of (_, True) \<Rightarrow> None | (val, False) \<Rightarrow> Some val)"

text \<open>\<open>panic_on_overflow!\<close>, and the operators built with it.\<close>

definition panic_on_overflow :: "'a \<times> bool \<Rightarrow> uint_panic + 'a" where
  "panic_on_overflow r = (if snd r then Inl ArithmeticOverflow else Inr (fst r))"

definition uint_add :: "limbs \<Rightarrow> limbs \<Rightarrow> uint_panic + limbs" where
  "uint_add a b = panic_on_overflow (overflowing_add a b)"

definition uint_sub :: "limbs \<Rightarrow> limbs \<Rightarrow> uint_panic + limbs" where
  "uint_sub a b = panic_on_overflow (overflowing_sub a b)"

definition overflowing_neg :: "limbs \<Rightarrow> uint_panic + limbs \<times> bool" where
  "overflowing_neg a =
     (if uint_is_zero a then Inr (a, False)
      else rbind (uint_add (uint_not a) (from_u64 (length a) 1)) (\<lambda>r. Inr (r, True)))"

definition checked_neg :: "limbs \<Rightarrow> uint_panic + limbs option" where
  "checked_neg a = rbind (overflowing_neg a) (\<lambda>r. Inr (case r of (_, True) \<Rightarrow> None | (z, False) \<Rightarrow> Some z))"

section \<open>Multiplication\<close>

definition split_u128 :: "dword \<Rightarrow> u64 \<times> u64" where
  "split_u128 a = (ucast (drop_bit 64 a), ucast (a AND 0xFFFFFFFFFFFFFFFF))"

text \<open>
  \<open>uint_full_mul_reg!\<close>: schoolbook multiplication into \<open>2 * $n_words\<close> words.  \<open>mul_check\<close> is the
  \<open>$check\<close> closure, which skips work for the eight-word type only.
\<close>

definition mul_check :: "nat \<Rightarrow> u64 \<Rightarrow> u64 \<Rightarrow> bool" where
  "mul_check n a b = (if n = 8 then a \<noteq> 0 \<or> b \<noteq> 0 else True)"

definition mul_turn :: "limbs \<Rightarrow> u64 \<Rightarrow> nat \<Rightarrow> nat \<Rightarrow> limbs \<times> u64 \<Rightarrow> limbs \<times> u64" where
  "mul_turn me b i j st =
     (let (ret, carry) = st in
      if mul_check (length me) (me ! j) carry then
        (let a = me ! j;
             (hi, low) = split_u128 (ucast a * ucast b);
             (low, overflow) = u64_overflowing_add low (ret ! (i + j));
             ret = ret[i + j := low];
             hi = hi + of_bool overflow;
             (hi, o0) = u64_overflowing_add hi carry;
             (hi, o1) = u64_overflowing_add hi (ret ! (i + j + 1));
             ret = ret[i + j + 1 := hi]
         in (ret, of_bool (o0 \<or> o1)))
      else st)"

definition mul_row :: "limbs \<Rightarrow> limbs \<Rightarrow> nat \<Rightarrow> limbs \<Rightarrow> limbs" where
  "mul_row me you i out = fst (fold (mul_turn me (you ! i) i) [0..<length me] (out, 0))"

definition full_mul :: "limbs \<Rightarrow> limbs \<Rightarrow> limbs" where
  "full_mul me you = fold (mul_row me you) [0..<length me] (replicate (length me * 2) 0)"

definition overflowing_mul :: "limbs \<Rightarrow> limbs \<Rightarrow> limbs \<times> bool" where
  "overflowing_mul a b =
     (let ret = full_mul a b; n = length a in (take n ret, list_ex (\<lambda>w. w \<noteq> 0) (drop n ret)))"

definition saturating_mul :: "limbs \<Rightarrow> limbs \<Rightarrow> limbs" where
  "saturating_mul a b = (case overflowing_mul a b of (_, True) \<Rightarrow> uint_max (length a) | (val, False) \<Rightarrow> val)"

definition checked_mul :: "limbs \<Rightarrow> limbs \<Rightarrow> limbs option" where
  "checked_mul a b = (case overflowing_mul a b of (_, True) \<Rightarrow> None | (val, False) \<Rightarrow> Some val)"

definition uint_mul :: "limbs \<Rightarrow> limbs \<Rightarrow> uint_panic + limbs" where
  "uint_mul a b = panic_on_overflow (overflowing_mul a b)"

definition mul_u64 :: "u64 \<Rightarrow> u64 \<Rightarrow> u64 \<Rightarrow> u64 \<times> u64" where
  "mul_u64 a b carry = (let (hi, lo) = split_u128 (ucast a * ucast b + ucast carry) in (lo, hi))"

fun mul_u64_loop :: "u64 \<Rightarrow> u64 \<Rightarrow> limbs \<Rightarrow> limbs \<times> u64" where
  "mul_u64_loop other carry [] = ([], carry)"
| "mul_u64_loop other carry (d # ds) =
     (let (res, c) = mul_u64 d other carry; (rs, c) = mul_u64_loop other c ds in (res # rs, c))"

definition overflowing_mul_u64 :: "limbs \<Rightarrow> u64 \<Rightarrow> limbs \<times> u64" where
  "overflowing_mul_u64 a other = mul_u64_loop other 0 a"

definition uint_mul_u64 :: "limbs \<Rightarrow> u64 \<Rightarrow> uint_panic + limbs" where
  "uint_mul_u64 a other = (let (result, carry) = overflowing_mul_u64 a other in panic_on_overflow (result, 0 < carry))"

fun exp10 :: "nat \<Rightarrow> nat \<Rightarrow> uint_panic + limbs" where
  "exp10 n 0 = Inr (from_u64 n 1)"
| "exp10 n (Suc k) = rbind (exp10 n k) (\<lambda>x. uint_mul_u64 x 10)"

section \<open>The number a word array stands for\<close>

definition radix :: nat where
  "radix = 2 ^ 64"

primrec uval :: "limbs \<Rightarrow> nat" where
  "uval [] = 0"
| "uval (d # ds) = unat d + radix * uval ds"

lemma radix_pos [simp]: "0 < radix" "radix \<noteq> 0" "Suc 0 < radix" "1 < radix" "radix \<noteq> Suc 0" "Suc 0 \<le> radix"
  by (simp_all add: radix_def)

lemma unat_radix [simp]: "unat (w :: u64) < radix"
proof -
  have "unat w < 2 ^ LENGTH(64)" by (rule unsigned_less)
  then show ?thesis by (simp add: radix_def)
qed

lemma unat_add_radix: "unat (a + b :: u64) = (unat a + unat b) mod radix"
  by (simp add: unat_word_ariths radix_def)

lemma uval_append [simp]: "uval (xs @ ys) = uval xs + radix ^ length xs * uval ys"
  by (induction xs) (simp_all add: algebra_simps)

lemma uval_replicate [simp]: "uval (replicate n 0) = 0"
  by (induction n) simp_all

lemma uval_bound: "uval xs < radix ^ length xs"
  by (induction xs) (simp_all add: digits_bound)

lemma uval_inj: "length xs = length ys \<Longrightarrow> uval xs = uval ys \<longleftrightarrow> xs = ys"
proof (induction xs ys rule: list_induct2)
  case (Cons x xs y ys)
  have "unat x = unat y \<and> uval xs = uval ys" if eq: "unat x + radix * uval xs = unat y + radix * uval ys"
  proof -
    have "(unat x + radix * uval xs) mod radix = unat x" "(unat y + radix * uval ys) mod radix = unat y" by simp_all
    with eq have "unat x = unat y" by simp
    with eq show ?thesis by simp
  qed
  with Cons show ?case by (auto simp: unsigned_word_eqI)
qed simp

lemma uval_update: "k < length xs \<Longrightarrow> uval (xs[k := x]) + unat (xs ! k) * radix ^ k = uval xs + unat x * radix ^ k"
proof (induction xs arbitrary: k)
  case (Cons y ys)
  show ?case
  proof (cases k)
    case (Suc i)
    with Cons have "uval (ys[i := x]) + unat (ys ! i) * radix ^ i = uval ys + unat x * radix ^ i"
      by simp
    from arg_cong [OF this, of "\<lambda>n. radix * n"] show ?thesis
      using Suc by (simp add: algebra_simps)
  qed simp
qed simp

lemma uval_zero_iff: "uval xs = 0 \<longleftrightarrow> list_all (\<lambda>w. w = 0) xs"
  by (induction xs) (simp_all add: unat_eq_0)

lemma uval_is_zero: "uint_is_zero xs \<longleftrightarrow> uval xs = 0"
  by (simp add: uint_is_zero_def uval_zero_iff)

lemma uval_take_drop: "k \<le> length xs \<Longrightarrow> uval xs = uval (take k xs) + radix ^ k * uval (drop k xs)"
  using uval_append [of "take k xs" "drop k xs"] by simp

lemma uval_take: "k \<le> length xs \<Longrightarrow> uval (take k xs) = uval xs mod radix ^ k"
  using uval_take_drop [of k xs] uval_bound [of "take k xs"] by simp

lemma uval_drop: "k \<le> length xs \<Longrightarrow> uval (drop k xs) = uval xs div radix ^ k"
  using uval_take_drop [of k xs] uval_bound [of "take k xs"] by simp

lemma uval_from_u64 [simp]: "0 < n \<Longrightarrow> uval (from_u64 n v) = unat v"
  by (cases n) (simp_all add: from_u64_def)

lemma uval_one [simp]: "0 < n \<Longrightarrow> uval (uint_one n) = 1"
  by (cases n) (simp_all add: uint_one_def)

lemma uval_zero [simp]: "uval (uint_zero n) = 0"
  by (simp add: uint_zero_def)

lemma length_consts [simp]:
  "length (from_u64 n v) = n" "length (uint_one n) = n" "length (uint_zero n) = n"
  by (simp_all add: from_u64_def uint_one_def uint_zero_def)

section \<open>Addition and subtraction of numbers\<close>

lemma u64_overflowing_add_val:
  assumes "u64_overflowing_add a b = (r, ov)"
  shows "unat r + radix * of_bool ov = unat a + unat b"
proof -
  have "unat r = (unat a + unat b) mod radix" "ov \<longleftrightarrow> radix \<le> unat a + unat b"
    using assms by (auto simp: u64_overflowing_add_def unat_add_radix radix_def)
  moreover have "unat a + unat b < 2 * radix" using unat_radix [of a] unat_radix [of b] by linarith
  ultimately show ?thesis
    by (cases "radix \<le> unat a + unat b") (simp_all add: le_mod_geq)
qed

lemma u64_overflowing_sub_val:
  assumes "u64_overflowing_sub a b = (r, ov)"
  shows "unat r + unat b = unat a + radix * of_bool ov"
proof -
  have r: "r = a - b" "ov \<longleftrightarrow> a < b" using assms by (auto simp: u64_overflowing_sub_def)
  show ?thesis
  proof (cases "a < b")
    case True
    then have "unat (a - b) = 2 ^ 64 + unat a - unat b"
      using unat_sub_if_size [of a b] by (auto simp: word_less_nat_alt word_size word_le_nat_alt)
    moreover have "unat b < 2 ^ 64" using unat_radix [of b] by (simp add: radix_def)
    ultimately show ?thesis using r True by (simp add: radix_def)
  next
    case False
    then show ?thesis using r by (simp add: word_less_nat_alt unat_sub word_le_nat_alt)
  qed
qed

lemma of_bool_carry: "unat (of_bool p :: u64) = of_bool p" "unat (ucast (of_bool p + of_bool q :: u8) :: u64) = of_bool p + of_bool q"
  by (cases p; cases q; simp)+

lemma binop_turn_add:
  assumes "binop_turn u64_overflowing_add a b c = (r, c')" "unat c \<le> 1"
  shows "unat r + radix * unat c' = unat a + unat b + unat c \<and> unat c' \<le> 1"
proof (cases "c = 0")
  case True
  then show ?thesis
    using assms u64_overflowing_add_val by (auto simp: binop_turn_def of_bool_carry split: prod.splits)
next
  case False
  obtain r1 o1 where 1: "u64_overflowing_add a b = (r1, o1)" by fastforce
  obtain r2 o2 where 2: "u64_overflowing_add r1 c = (r2, o2)" by fastforce
  have "r = r2" "unat c' = of_bool o1 + of_bool o2"
    using assms(1) False 1 2 by (auto simp: binop_turn_def of_bool_carry)
  then show ?thesis
    using u64_overflowing_add_val [OF 1] u64_overflowing_add_val [OF 2] assms(2)
      unat_radix [of a] unat_radix [of b] unat_radix [of r1]
    by (cases o1; cases o2) simp_all
qed

lemma binop_turn_sub:
  assumes "binop_turn u64_overflowing_sub a b c = (r, c')" "unat c \<le> 1"
  shows "unat r + unat b + unat c = unat a + radix * unat c' \<and> unat c' \<le> 1"
proof (cases "c = 0")
  case True
  then show ?thesis
    using assms u64_overflowing_sub_val by (auto simp: binop_turn_def of_bool_carry split: prod.splits)
next
  case False
  obtain r1 o1 where 1: "u64_overflowing_sub a b = (r1, o1)" by fastforce
  obtain r2 o2 where 2: "u64_overflowing_sub r1 c = (r2, o2)" by fastforce
  have "r = r2" "unat c' = of_bool o1 + of_bool o2"
    using assms(1) False 1 2 by (auto simp: binop_turn_def of_bool_carry)
  then show ?thesis
    using u64_overflowing_sub_val [OF 1] u64_overflowing_sub_val [OF 2] assms(2)
      unat_radix [of a] unat_radix [of b] unat_radix [of r1] unat_radix [of r2]
    by (cases o1; cases o2) simp_all
qed

lemma binop_loop_add:
  assumes "length xs = length ys" "unat c \<le> 1" "binop_loop u64_overflowing_add c xs ys = (rs, c')"
  shows "uval rs + radix ^ length xs * unat c' = uval xs + uval ys + unat c \<and> unat c' \<le> 1 \<and> length rs = length xs"
  using assms
proof (induction xs ys arbitrary: c rs c' rule: list_induct2)
  case (Cons x xs y ys)
  obtain r d where turn: "binop_turn u64_overflowing_add x y c = (r, d)" by fastforce
  obtain qs e where rest: "binop_loop u64_overflowing_add d xs ys = (qs, e)" by fastforce
  have eq: "rs = r # qs" "c' = e" using Cons.prems(2) turn rest by auto
  have t: "unat r + radix * unat d = unat x + unat y + unat c" "unat d \<le> 1"
    using binop_turn_add [OF turn Cons.prems(1)] by auto
  have q: "uval qs + radix ^ length xs * unat e = uval xs + uval ys + unat d" "unat e \<le> 1" "length qs = length xs"
    using Cons.IH [OF t(2) rest] by auto
  show ?case using arg_cong [OF q(1), of "\<lambda>n. radix * n"] t(1) q(2,3) eq by (simp add: algebra_simps)
qed simp

lemma binop_loop_sub:
  assumes "length xs = length ys" "unat c \<le> 1" "binop_loop u64_overflowing_sub c xs ys = (rs, c')"
  shows "uval rs + uval ys + unat c = uval xs + radix ^ length xs * unat c' \<and> unat c' \<le> 1 \<and> length rs = length xs"
  using assms
proof (induction xs ys arbitrary: c rs c' rule: list_induct2)
  case (Cons x xs y ys)
  obtain r d where turn: "binop_turn u64_overflowing_sub x y c = (r, d)" by fastforce
  obtain qs e where rest: "binop_loop u64_overflowing_sub d xs ys = (qs, e)" by fastforce
  have eq: "rs = r # qs" "c' = e" using Cons.prems(2) turn rest by auto
  have t: "unat r + unat y + unat c = unat x + radix * unat d" "unat d \<le> 1"
    using binop_turn_sub [OF turn Cons.prems(1)] by auto
  have q: "uval qs + uval ys + unat d = uval xs + radix ^ length xs * unat e" "unat e \<le> 1" "length qs = length xs"
    using Cons.IH [OF t(2) rest] by auto
  show ?case using arg_cong [OF q(1), of "\<lambda>n. radix * n"] t(1) q(2,3) eq by (simp add: algebra_simps)
qed simp

lemma carry_cases: "unat (c :: u64) \<le> 1 \<Longrightarrow> unat c = of_bool (0 < c)"
  by (cases "c = 0") (auto simp: word_less_nat_alt le_Suc_eq unat_eq_0)

lemma overflowing_add_val:
  assumes "length a = length b"
  shows "uval (fst (overflowing_add a b)) = (uval a + uval b) mod radix ^ length a"
    "snd (overflowing_add a b) \<longleftrightarrow> radix ^ length a \<le> uval a + uval b"
    "length (fst (overflowing_add a b)) = length a"
proof -
  obtain rs c where loop: "binop_loop u64_overflowing_add 0 a b = (rs, c)" by fastforce
  from binop_loop_add [OF assms _ this]
  have v: "uval rs + radix ^ length a * unat c = uval a + uval b" "unat c \<le> 1" "length rs = length a" by auto
  have eq: "overflowing_add a b = (rs, 0 < c)"
    by (simp add: overflowing_add_def uint_overflowing_binop_def loop)
  have "uval rs < radix ^ length a" using uval_bound [of rs] v(3) by simp
  then show "uval (fst (overflowing_add a b)) = (uval a + uval b) mod radix ^ length a"
    "snd (overflowing_add a b) \<longleftrightarrow> radix ^ length a \<le> uval a + uval b"
    using v(1) carry_cases [OF v(2)] by (cases "0 < c"; simp add: eq flip: v(1))+
  show "length (fst (overflowing_add a b)) = length a" by (simp add: eq v(3))
qed

lemma overflowing_sub_val:
  assumes "length a = length b"
  shows "uval (fst (overflowing_sub a b)) = (if uval b \<le> uval a then uval a - uval b else radix ^ length a + uval a - uval b)"
    "snd (overflowing_sub a b) \<longleftrightarrow> uval a < uval b"
    "length (fst (overflowing_sub a b)) = length a"
proof -
  obtain rs c where loop: "binop_loop u64_overflowing_sub 0 a b = (rs, c)" by fastforce
  from binop_loop_sub [OF assms _ this]
  have v: "uval rs + uval b = uval a + radix ^ length a * unat c" "unat c \<le> 1" "length rs = length a" by auto
  have eq: "overflowing_sub a b = (rs, 0 < c)"
    by (simp add: overflowing_sub_def uint_overflowing_binop_def loop)
  have "uval rs < radix ^ length a" "uval b < radix ^ length a"
    using uval_bound [of rs] uval_bound [of b] v(3) assms by simp_all
  then show "uval (fst (overflowing_sub a b)) = (if uval b \<le> uval a then uval a - uval b else radix ^ length a + uval a - uval b)"
    "snd (overflowing_sub a b) \<longleftrightarrow> uval a < uval b"
    using v(1) carry_cases [OF v(2)] by (cases "0 < c"; simp add: eq)+
  show "length (fst (overflowing_sub a b)) = length a" by (simp add: eq v(3))
qed

lemma uint_add_val:
  assumes "length a = length b"
  shows "case uint_add a b of
      Inl e \<Rightarrow> e = ArithmeticOverflow \<and> radix ^ length a \<le> uval a + uval b
    | Inr r \<Rightarrow> uval r = uval a + uval b \<and> length r = length a"
  using overflowing_add_val [OF assms] by (simp add: uint_add_def panic_on_overflow_def)

lemma uint_sub_val:
  assumes "length a = length b"
  shows "case uint_sub a b of
      Inl e \<Rightarrow> e = ArithmeticOverflow \<and> uval a < uval b
    | Inr r \<Rightarrow> uval r = uval a - uval b \<and> uval b \<le> uval a \<and> length r = length a"
  using overflowing_sub_val [OF assms] by (simp add: uint_sub_def panic_on_overflow_def)

section \<open>Order\<close>

lemma words_cmp_snoc:
  "length xs = length ys \<Longrightarrow> words_cmp (xs @ [x]) (ys @ [y]) = (case words_cmp xs ys of Equal \<Rightarrow> cmp x y | r \<Rightarrow> r)"
  by (induction xs ys rule: list_induct2) (auto simp: cmp_def split: ordering.splits)

lemma uint_cmp_val: "length a = length b \<Longrightarrow> uint_cmp a b = cmp (uval a) (uval b)"
proof (induction a b rule: list_induct2)
  case (Cons x xs y ys)
  have less: "unat v + radix * m < unat w + radix * k" if "m < k" for v w :: u64 and m k
    using digits_bound [of "unat v" radix m k] that by (simp add: trans_less_add2)
  from Cons show ?case
    using less [of "uval xs" "uval ys" x y] less [of "uval ys" "uval xs" y x]
    by (auto simp: uint_cmp_def words_cmp_snoc cmp_def word_less_nat_alt word_unat_eq_iff split: ordering.splits if_splits)
qed (simp add: uint_cmp_def cmp_def)

section \<open>Multiplication of numbers\<close>

lemma split_u128_val:
  assumes "split_u128 w = (hi, lo)"
  shows "unat lo + radix * unat hi = unat w"
proof -
  have lo: "unat lo = unat w mod radix"
  proof -
    have "lo = ucast (take_bit 64 w)"
      using assms by (auto simp: split_u128_def take_bit_eq_mask mask_numeral)
    then show ?thesis by (simp add: unsigned_ucast_eq unsigned_take_bit_eq) (simp add: take_bit_eq_mod radix_def)
  qed
  have "unat w < 2 ^ LENGTH(128)" by (rule unsigned_less)
  then have "unat w div radix < radix" by (simp add: radix_def less_mult_imp_div_less)
  moreover have "hi = ucast (drop_bit 64 w)" using assms unfolding split_u128_def by (rule Pair_inject) (rule sym)
  then have "unat hi = unat w div radix mod radix"
    by (simp only: unat_ucast_mod unat_drop radix_def) simp
  ultimately show ?thesis using lo by simp
qed

lemma unat_product:
  fixes a b c :: u64
  shows "unat (ucast a * ucast b + ucast c :: dword) = unat a * unat b + unat c"
proof -
  have "unat a \<le> radix - 1" "unat b \<le> radix - 1" "unat c < radix"
    using unat_radix [of a] unat_radix [of b] unat_radix [of c] by linarith+
  then have "unat a * unat b + unat c < (radix - 1) * (radix - 1) + radix"
    using mult_le_mono [of "unat a" "radix - 1" "unat b" "radix - 1"] by linarith
  also have "\<dots> \<le> 2 ^ 128" by (simp add: radix_def)
  finally show ?thesis by (simp add: unat_word_ariths unat_ucast_up)
qed

lemma mul_high_word:
  fixes a b hi lo :: u64
  assumes "unat lo + radix * unat hi = unat a * unat b"
  shows "unat hi + 1 < radix"
proof (rule ccontr)
  assume "\<not> unat hi + 1 < radix"
  then have "radix * (radix - 1) \<le> radix * unat hi" by (intro mult_le_mono2) simp
  moreover have "unat a * unat b \<le> (radix - 1) * (radix - 1)"
    using unat_radix [of a] unat_radix [of b] by (intro mult_le_mono) linarith+
  moreover have "(radix - 1) * (radix - 1) < radix * (radix - 1)" by (simp add: radix_def)
  ultimately show False using assms by linarith
qed

lemma mul_turn_val:
  assumes "mul_turn me b i j (out, c) = (out', c')" "i + j + 1 < length out" "unat c \<le> 1"
  shows "uval out' + radix ^ (i + j + 2) * unat c' =
           uval out + radix ^ (i + j + 1) * unat c + radix ^ (i + j) * (unat (me ! j) * unat b)"
    "unat c' \<le> 1" "length out' = length out"
proof -
  define k where "k = i + j"
  consider "out' = out" "c' = c" "me ! j = 0" "c = 0" | "mul_check (length me) (me ! j) c"
    using assms(1) by (auto simp: mul_turn_def mul_check_def split: if_splits)
  then have "uval out' + radix ^ (k + 2) * unat c' =
           uval out + radix ^ (k + 1) * unat c + radix ^ k * (unat (me ! j) * unat b)
         \<and> unat c' \<le> 1 \<and> length out' = length out"
  proof cases
    case 2
    obtain hi lo where s: "split_u128 (ucast (me ! j) * ucast b) = (hi, lo)" by fastforce
    obtain lo' ov where l: "u64_overflowing_add lo (out ! k) = (lo', ov)" by fastforce
    obtain h1 o0 where h0: "u64_overflowing_add (hi + of_bool ov) c = (h1, o0)" by fastforce
    obtain h2 o1 where h1: "u64_overflowing_add h1 (out ! (k + 1)) = (h2, o1)" by fastforce
    have out': "out' = out[k := lo', k + 1 := h2]" and c': "c' = of_bool (o0 \<or> o1)"
      using assms(1) 2 s l h0 h1 by (auto simp: mul_turn_def k_def)
    have ab: "unat lo + radix * unat hi = unat (me ! j) * unat b"
      using split_u128_val [OF s] unat_product [of "me ! j" b 0] by simp
    have hi: "unat (hi + of_bool ov) = unat hi + of_bool ov"
      using mul_high_word [OF ab] by (cases ov) (simp_all add: unat_add_radix)
    have lv: "unat lo' + radix * of_bool ov = unat lo + unat (out ! k)" by (rule u64_overflowing_add_val [OF l])
    have v0: "unat h1 + radix * of_bool o0 = unat hi + of_bool ov + unat c"
      using u64_overflowing_add_val [OF h0] hi by simp
    have v1: "unat h2 + radix * of_bool o1 = unat h1 + unat (out ! (k + 1))" by (rule u64_overflowing_add_val [OF h1])
    have "unat hi + of_bool ov < radix" using mul_high_word [OF ab] by (cases ov) simp_all
    then have carry: "unat c' = of_bool o0 + of_bool o1"
      using v0 v1 assms(3) unat_radix [of "out ! (k + 1)"] unat_radix [of h2] unfolding c'
      by (cases o0; cases o1) (simp_all del: unat_radix)
    have u: "uval out' + unat (out ! (k + 1)) * radix ^ (k + 1) + unat (out ! k) * radix ^ k =
             uval out + unat lo' * radix ^ k + unat h2 * radix ^ (k + 1)"
      using uval_update [of k out lo'] uval_update [of "k + 1" "out[k := lo']" h2] assms(2) by (simp add: out' k_def)
    show ?thesis
      using u carry arg_cong [OF lv, of "\<lambda>n. radix ^ k * n"] arg_cong [OF ab, of "\<lambda>n. radix ^ k * n"]
        arg_cong [OF v0, of "\<lambda>n. radix ^ (k + 1) * n"] arg_cong [OF v1, of "\<lambda>n. radix ^ (k + 1) * n"]
      by (cases o0; cases o1; cases ov) (simp_all add: out' c' algebra_simps)
  qed simp
  then show "uval out' + radix ^ (i + j + 2) * unat c' =
           uval out + radix ^ (i + j + 1) * unat c + radix ^ (i + j) * (unat (me ! j) * unat b)"
    "unat c' \<le> 1" "length out' = length out"
    by (simp_all add: k_def)
qed

lemma uval_take_Suc: "k < length xs \<Longrightarrow> uval (take (Suc k) xs) = uval (take k xs) + radix ^ k * unat (xs ! k)"
  by (simp add: take_Suc_conv_app_nth)

lemma mul_row_fold:
  assumes "k \<le> length me" "i + k < length out" "fold (mul_turn me b i) [0..<k] (out, 0) = (out', c')"
  shows "uval out' + radix ^ (i + k + 1) * unat c' = uval out + radix ^ i * (uval (take k me) * unat b)
       \<and> unat c' \<le> 1 \<and> length out' = length out"
  using assms
proof (induction k arbitrary: out' c')
  case (Suc k)
  obtain out1 c1 where 1: "fold (mul_turn me b i) [0..<k] (out, 0) = (out1, c1)" by fastforce
  have ih: "uval out1 + radix ^ (i + k + 1) * unat c1 = uval out + radix ^ i * (uval (take k me) * unat b)"
      "unat c1 \<le> 1" "length out1 = length out"
    using Suc.IH [OF _ _ 1] Suc.prems(1,2) by auto
  have turn: "mul_turn me b i k (out1, c1) = (out', c')" using Suc.prems(3) 1 by simp
  have "i + k + 1 < length out1" using Suc.prems(2) ih(3) by simp
  note t = mul_turn_val [OF turn this ih(2)]
  have "uval (take (Suc k) me) = uval (take k me) + radix ^ k * unat (me ! k)"
    using Suc.prems(1) by (simp add: uval_take_Suc)
  then show ?case using t ih by (simp add: algebra_simps power_add)
qed simp

lemma mul_row_val:
  assumes len: "length me = length you" "i < length me" "length out = length me * 2"
    and out: "uval out = uval me * uval (take i you)"
  shows "uval (mul_row me you i out) = uval me * uval (take (Suc i) you)" "length (mul_row me you i out) = length me * 2"
proof -
  obtain out' c where f: "fold (mul_turn me (you ! i) i) [0..<length me] (out, 0) = (out', c)" by fastforce
  from mul_row_fold [OF _ _ this] len
  have v: "uval out' + radix ^ (i + length me + 1) * unat c = uval out + radix ^ i * (uval me * unat (you ! i))"
      "length out' = length me * 2"
    by auto
  have eq: "uval out + radix ^ i * (uval me * unat (you ! i)) = uval me * uval (take (Suc i) you)"
    using len by (simp add: out uval_take_Suc algebra_simps)
  have "uval me * uval (take (Suc i) you) < radix ^ length me * radix ^ Suc i"
    using uval_bound [of me] uval_bound [of "take (Suc i) you"] len by (intro mult_strict_mono') auto
  then have small: "uval me * uval (take (Suc i) you) < radix ^ (i + length me + 1)"
    by (simp add: power_add algebra_simps)
  have "unat c = 0"
  proof (rule ccontr)
    assume "unat c \<noteq> 0"
    then have "radix ^ (i + length me + 1) * 1 \<le> radix ^ (i + length me + 1) * unat c"
      by (intro mult_le_mono2) simp
    then show False using v(1) eq small by linarith
  qed
  then show "uval (mul_row me you i out) = uval me * uval (take (Suc i) you)" "length (mul_row me you i out) = length me * 2"
    using v eq by (simp_all add: mul_row_def f)
qed

lemma full_mul_val:
  assumes "length a = length b"
  shows "uval (full_mul a b) = uval a * uval b" "length (full_mul a b) = length a * 2"
proof -
  have "uval (fold (mul_row a b) [0..<i] (replicate (length a * 2) 0)) = uval a * uval (take i b)
      \<and> length (fold (mul_row a b) [0..<i] (replicate (length a * 2) 0)) = length a * 2" if "i \<le> length a" for i
    using that by (induction i) (simp_all add: mul_row_val assms)
  from this [of "length a"] show "uval (full_mul a b) = uval a * uval b" "length (full_mul a b) = length a * 2"
    using assms by (simp_all add: full_mul_def)
qed

lemma overflowing_mul_val:
  assumes "length a = length b"
  shows "uval (fst (overflowing_mul a b)) = uval a * uval b mod radix ^ length a"
    "snd (overflowing_mul a b) \<longleftrightarrow> radix ^ length a \<le> uval a * uval b"
    "length (fst (overflowing_mul a b)) = length a"
proof -
  note v = full_mul_val [OF assms]
  show "uval (fst (overflowing_mul a b)) = uval a * uval b mod radix ^ length a"
    by (simp add: overflowing_mul_def Let_def uval_take v)
  show "length (fst (overflowing_mul a b)) = length a"
    by (simp add: overflowing_mul_def Let_def v)
  have "snd (overflowing_mul a b) \<longleftrightarrow> uval (drop (length a) (full_mul a b)) \<noteq> 0"
    by (auto simp: overflowing_mul_def Let_def uval_zero_iff list_all_iff list_ex_iff)
  also have "\<dots> \<longleftrightarrow> uval a * uval b div radix ^ length a \<noteq> 0"
    by (simp add: uval_drop v)
  finally show "snd (overflowing_mul a b) \<longleftrightarrow> radix ^ length a \<le> uval a * uval b"
    by (simp add: div_eq_0_iff not_less)
qed

lemma uint_mul_val:
  assumes "length a = length b"
  shows "case uint_mul a b of
      Inl e \<Rightarrow> e = ArithmeticOverflow \<and> radix ^ length a \<le> uval a * uval b
    | Inr r \<Rightarrow> uval r = uval a * uval b \<and> length r = length a"
  using overflowing_mul_val [OF assms] by (simp add: uint_mul_def panic_on_overflow_def)

lemma mul_u64_loop_val:
  "mul_u64_loop w c xs = (rs, c') \<Longrightarrow> uval rs + radix ^ length xs * unat c' = uval xs * unat w + unat c \<and> length rs = length xs"
proof (induction xs arbitrary: c rs c')
  case (Cons x xs)
  obtain hi lo where s: "split_u128 (ucast x * ucast w + ucast c) = (hi, lo)" by fastforce
  obtain qs e where rest: "mul_u64_loop w hi xs = (qs, e)" by fastforce
  have eq: "rs = lo # qs" "c' = e" using Cons.prems s rest by (auto simp: mul_u64_def)
  have "unat lo + radix * unat hi = unat x * unat w + unat c"
    using split_u128_val [OF s] unat_product by simp
  moreover have q: "uval qs + radix ^ length xs * unat e = uval xs * unat w + unat hi" "length qs = length xs"
    using Cons.IH [OF rest] by auto
  moreover have "radix * uval qs + radix ^ Suc (length xs) * unat e = radix * (uval xs * unat w) + radix * unat hi"
    using arg_cong [OF q(1), of "\<lambda>n. radix * n"] by (simp only: distrib_left power_Suc mult.assoc)
  ultimately show ?case using eq by (simp add: algebra_simps)
qed simp

lemma overflowing_mul_u64_val:
  "overflowing_mul_u64 a w = (r, c) \<Longrightarrow> uval r + radix ^ length a * unat c = uval a * unat w \<and> length r = length a"
  unfolding overflowing_mul_u64_def by (drule mul_u64_loop_val) simp

section \<open>Shifts of numbers\<close>

lemma bit_low_high:
  fixes a m :: nat
  assumes "a < 2 ^ w"
  shows "bit (a + 2 ^ w * m) k \<longleftrightarrow> (if k < w then bit a k else bit m (k - w))"
proof (cases "k < w")
  case True
  have "take_bit w (a + 2 ^ w * m) = a" using assms by (simp add: take_bit_eq_mod)
  then show ?thesis using True bit_take_bit_iff [of w "a + 2 ^ w * m" k] by simp
next
  case False
  have "drop_bit w (a + 2 ^ w * m) = m" using assms by (simp add: drop_bit_eq_div)
  then show ?thesis using False bit_drop_bit_eq [of w "a + 2 ^ w * m"] by (simp add: fun_eq_iff)
qed

lemma bit_uval: "bit (uval xs) k \<longleftrightarrow> k div 64 < length xs \<and> bit (xs ! (k div 64)) (k mod 64)"
proof (induction xs arbitrary: k)
  case (Cons x xs)
  have "unat x < 2 ^ 64" using unat_radix [of x] by (simp add: radix_def)
  then have "bit (uval (x # xs)) k \<longleftrightarrow> (if k < 64 then bit (unat x) k else bit (uval xs) (k - 64))"
    using bit_low_high [of "unat x" 64 "uval xs" k] by (simp add: radix_def)
  also have "\<dots> \<longleftrightarrow> k div 64 < length (x # xs) \<and> bit ((x # xs) ! (k div 64)) (k mod 64)"
  proof (cases "k < 64")
    case True
    then show ?thesis by (simp add: bit_unsigned_iff)
  next
    case False
    then have "(k - 64) div 64 = k div 64 - 1" "(k - 64) mod 64 = k mod 64" "0 < k div 64"
      by (simp_all add: le_mod_geq le_div_geq)
    with False show ?thesis by (simp add: Cons nth_Cons') linarith
  qed
  finally show ?case .
qed simp

lemma bit_uval_at: "j < 64 \<Longrightarrow> bit (uval xs) (64 * i + j) \<longleftrightarrow> i < length xs \<and> bit (xs ! i) j"
  by (simp add: bit_uval)

text \<open>A loop that updates the cells of a range of an array, each from its old contents.\<close>

lemma length_range_update [simp]: "length (fold (\<lambda>i r. r[g i := h i (r ! g i)]) is r) = length r"
  by (induction "is" arbitrary: r) simp_all

lemma range_update:
  "p < length r \<Longrightarrow> d \<le> a \<Longrightarrow>
     fold (\<lambda>i r. r[i - d := h i (r ! (i - d))]) [a..<n] r ! p = (if a \<le> p + d \<and> p + d < n then h (p + d) (r ! p) else r ! p)"
proof (induction n)
  case (Suc n)
  show ?case
  proof (cases "a \<le> n")
    case True
    have "n - d = p \<longleftrightarrow> p + d = n" using True Suc.prems(2) by auto
    with True Suc show ?thesis
      by (auto simp: nth_list_update length_range_update [of "\<lambda>i. i - d"])
  qed (use Suc in auto)
qed simp

lemma uint_shl_nth:
  assumes "i < length x"
  shows "uint_shl x s ! i =
     (if i < s div 64 then 0
      else push_bit (s mod 64) (x ! (i - s div 64)) +
           (if 0 < s mod 64 \<and> s div 64 < i then drop_bit (64 - s mod 64) (x ! (i - 1 - s div 64)) else 0))"
proof -
  define w b where "w = s div 64" and "b = s mod 64"
  define r where "r = fold (\<lambda>i r. r[i := push_bit b (x ! (i - w))]) [w..<length x] (replicate (length x) 0)"
  have len: "length r = length x"
    unfolding r_def using length_range_update [of "\<lambda>i. i" "\<lambda>i _. push_bit b (x ! (i - w))"] by simp
  have r: "r ! i = (if i < w then 0 else push_bit b (x ! (i - w)))"
    unfolding r_def using range_update [of i _ 0 w "\<lambda>i _. push_bit b (x ! (i - w))" "length x"] assms by simp
  define q where "q = fold (\<lambda>i r. r[i := r ! i + drop_bit (64 - b) (x ! (i - 1 - w))]) [w + 1..<length x] r"
  have q: "q ! i = (if w < i then r ! i + drop_bit (64 - b) (x ! (i - 1 - w)) else r ! i)"
    unfolding q_def
    using range_update [of i r 0 "w + 1" "\<lambda>i v. v + drop_bit (64 - b) (x ! (i - 1 - w))" "length x"] assms len by simp
  have "uint_shl x s = (if 0 < b then q else r)" by (simp add: uint_shl_def Let_def w_def b_def q_def r_def)
  then show ?thesis
    unfolding w_def [symmetric] b_def [symmetric] using q r by (cases "0 < b"; cases "w < i"; cases "i = w") simp_all
qed

lemma uint_shr_nth:
  assumes "i < length x"
  shows "uint_shr x s ! i =
     (if length x \<le> i + s div 64 then 0
      else drop_bit (s mod 64) (x ! (i + s div 64)) +
           (if 0 < s mod 64 \<and> i + s div 64 + 1 < length x then push_bit (64 - s mod 64) (x ! (i + s div 64 + 1)) else 0))"
proof -
  define w b where "w = s div 64" and "b = s mod 64"
  define r where "r = fold (\<lambda>i r. r[i - w := drop_bit b (x ! i)]) [w..<length x] (replicate (length x) 0)"
  have len: "length r = length x"
    unfolding r_def using length_range_update [of "\<lambda>i. i - w" "\<lambda>i _. drop_bit b (x ! i)"] by simp
  have r: "r ! i = (if i + w < length x then drop_bit b (x ! (i + w)) else 0)"
    unfolding r_def using range_update [of i _ w w "\<lambda>i _. drop_bit b (x ! i)" "length x"] assms by simp
  define q where "q = fold (\<lambda>i r. r[i - w - 1 := r ! (i - w - 1) + push_bit (64 - b) (x ! i)]) [w + 1..<length x] r"
  have q: "q ! i = (if i + w + 1 < length x then r ! i + push_bit (64 - b) (x ! (i + w + 1)) else r ! i)"
    unfolding q_def
    using range_update [of i r "w + 1" "w + 1" "\<lambda>i v. v + push_bit (64 - b) (x ! i)" "length x"] assms len by simp
  have "uint_shr x s = (if 0 < b then q else r)" by (simp add: uint_shr_def Let_def w_def b_def q_def r_def)
  then show ?thesis
    unfolding w_def [symmetric] b_def [symmetric] using q r by (cases "0 < b") auto
qed

lemma length_fold_keep: "(\<And>i r. length (f i r) = length r) \<Longrightarrow> length (fold f is r) = length r"
  by (induction "is" arbitrary: r) simp_all

lemma length_shifts [simp]: "length (uint_shl x s) = length x" "length (uint_shr x s) = length x"
  unfolding uint_shl_def uint_shr_def Let_def by (simp_all add: length_fold_keep)

lemma bit_plus_disjoint:
  fixes a b :: "'a::len word"
  assumes "\<And>k. \<not> (bit a k \<and> bit b k)"
  shows "bit (a + b) k \<longleftrightarrow> bit a k \<or> bit b k"
proof -
  have "a + b = a OR b" using assms by (intro disjunctive_add) auto
  then show ?thesis by (simp add: bit_or_iff)
qed

lemma bit_shifted_pair:
  fixes x y :: u64
  assumes "0 < b" "b < 64" "k < 64"
  shows "bit (push_bit b x + drop_bit (64 - b) y) k \<longleftrightarrow> (if b \<le> k then bit x (k - b) else bit y (64 + k - b))"
proof -
  have "\<not> (bit (push_bit b x) k \<and> bit (drop_bit (64 - b) y) k)" for k
    using assms(1,2) bit_imp_le_length [of y "64 - b + k"] by (auto simp: bit_push_bit_iff bit_drop_bit_eq)
  then have "bit (push_bit b x + drop_bit (64 - b) y) k \<longleftrightarrow> bit (push_bit b x) k \<or> bit (drop_bit (64 - b) y) k"
    by (rule bit_plus_disjoint)
  moreover have "\<not> bit y (64 - b + k)" if "b \<le> k"
    using that assms bit_imp_le_length [of y "64 - b + k"] by auto
  ultimately show ?thesis using assms by (auto simp: bit_push_bit_iff bit_drop_bit_eq)
qed

lemma uint_shl_val: "uval (uint_shl x s) = uval x * 2 ^ s mod radix ^ length x"
proof -
  have "uval (uint_shl x s) = take_bit (64 * length x) (push_bit s (uval x))"
  proof (rule bit_eqI)
    fix k :: nat
    define w b i j where "w = s div 64" and "b = s mod 64" and "i = k div 64" and "j = k mod 64"
    have k: "k = 64 * i + j" "j < 64" "s = 64 * w + b" "b < 64" by (simp_all add: w_def b_def i_def j_def)
    have len: "k < 64 * length x \<longleftrightarrow> i < length x" using k by auto
    show "bit (uval (uint_shl x s)) k \<longleftrightarrow> bit (take_bit (64 * length x) (push_bit s (uval x))) k"
    proof (cases "i < length x")
      case True
      consider "i < w" | "w \<le> i" "b \<le> j" | "w = i" "j < b" | "w < i" "j < b" by linarith
      then have "bit (uint_shl x s ! i) j \<longleftrightarrow> s \<le> k \<and> bit (uval x) (k - s)"
      proof cases
        case 1
        then show ?thesis using True k by (simp add: uint_shl_nth flip: w_def b_def)
      next
        case 2
        then have "k - s = 64 * (i - w) + (j - b)" using k by (simp add: right_diff_distrib')
        then have "bit (uval x) (k - s) \<longleftrightarrow> bit (x ! (i - w)) (j - b)"
          using bit_uval_at [of "j - b" x "i - w"] k True by (simp add: less_imp_diff_less)
        moreover have "bit (uint_shl x s ! i) j \<longleftrightarrow> bit (x ! (i - w)) (j - b)"
          using 2 k True by (cases "0 < b \<and> w < i")
            (auto simp: uint_shl_nth bit_shifted_pair bit_push_bit_iff simp flip: w_def b_def)
        ultimately show ?thesis using 2 k by simp
      next
        case 3
        with k True show ?thesis
          by (simp add: uint_shl_nth bit_push_bit_iff flip: w_def b_def)
      next
        case 4
        then have "k - s = 64 * (i - 1 - w) + (64 + j - b)" using k by (simp add: right_diff_distrib')
        then have "bit (uval x) (k - s) \<longleftrightarrow> bit (x ! (i - 1 - w)) (64 + j - b)"
          using bit_uval_at [of "64 + j - b" x "i - 1 - w"] 4 k True by (simp add: less_imp_diff_less)
        with 4 k True show ?thesis
          by (simp add: uint_shl_nth bit_shifted_pair flip: w_def b_def)
      qed
      then show ?thesis
        using True len by (simp add: bit_uval bit_take_bit_iff bit_push_bit_iff i_def [symmetric] j_def [symmetric])
    qed (use len in \<open>simp add: bit_uval bit_take_bit_iff i_def [symmetric]\<close>)
  qed
  then show ?thesis by (simp add: take_bit_eq_mod push_bit_eq_mult radix_def power_mult)
qed

lemma bit_shifted_pair_right:
  fixes x y :: u64
  assumes "0 < b" "b < 64" "k < 64"
  shows "bit (drop_bit b x + push_bit (64 - b) y) k \<longleftrightarrow> (if k + b < 64 then bit x (k + b) else bit y (k + b - 64))"
proof -
  have "64 - b \<le> k \<longleftrightarrow> \<not> k + b < 64" "64 + k - (64 - b) = k + b" "\<not> k + b < 64 \<Longrightarrow> k - (64 - b) = k + b - 64"
    using assms by linarith+
  then show ?thesis using bit_shifted_pair [of "64 - b" k y x] assms by (auto simp: add.commute)
qed

lemma uint_shr_val: "uval (uint_shr x s) = uval x div 2 ^ s"
proof -
  have "uval (uint_shr x s) = drop_bit s (uval x)"
  proof (rule bit_eqI)
    fix k :: nat
    define w b i j where "w = s div 64" and "b = s mod 64" and "i = k div 64" and "j = k mod 64"
    have k: "k = 64 * i + j" "j < 64" "s = 64 * w + b" "b < 64" by (simp_all add: w_def b_def i_def j_def)
    have lhs: "bit (uval (uint_shr x s)) k \<longleftrightarrow> i < length x \<and> bit (uint_shr x s ! i) j"
      by (simp add: bit_uval i_def j_def)
    show "bit (uval (uint_shr x s)) k \<longleftrightarrow> bit (drop_bit s (uval x)) k"
    proof (cases "j + b < 64")
      case True
      then have "s + k = 64 * (i + w) + (j + b)" using k by simp
      then have "bit (uval x) (s + k) \<longleftrightarrow> i + w < length x \<and> bit (x ! (i + w)) (j + b)"
        using bit_uval_at [of "j + b" x "i + w"] True by simp
      moreover have "bit (uint_shr x s ! i) j \<longleftrightarrow> i + w < length x \<and> bit (x ! (i + w)) (j + b)" if "i < length x"
        using that k True by (cases "0 < b \<and> i + w + 1 < length x")
          (auto simp: uint_shr_nth bit_shifted_pair_right bit_drop_bit_eq add.commute simp flip: w_def b_def)
      ultimately show ?thesis by (auto simp: lhs bit_drop_bit_eq)
    next
      case False
      then have "s + k = 64 * (i + w + 1) + (j + b - 64)" using k by simp
      then have "bit (uval x) (s + k) \<longleftrightarrow> i + w + 1 < length x \<and> bit (x ! (i + w + 1)) (j + b - 64)"
        using bit_uval_at [of "j + b - 64" x "i + w + 1"] k(2,4) by (simp only: less_imp_diff_less)
      moreover have "\<not> bit (x ! (i + w)) (j + b)" using False bit_imp_le_length [of "x ! (i + w)" "j + b"] by auto
      then have "bit (uint_shr x s ! i) j \<longleftrightarrow> i + w + 1 < length x \<and> bit (x ! (i + w + 1)) (j + b - 64)" if "i < length x"
        using that k False by (cases "0 < b \<and> i + w + 1 < length x")
          (auto simp: uint_shr_nth bit_shifted_pair_right bit_drop_bit_eq add.commute simp flip: w_def b_def)
      ultimately show ?thesis by (auto simp: lhs bit_drop_bit_eq)
    qed
  qed
  then show ?thesis by (simp add: drop_bit_eq_div)
qed

lemma fits_word_val: "xs \<noteq> [] \<Longrightarrow> fits_word xs \<longleftrightarrow> uval xs < radix"
proof (cases xs)
  case (Cons d ds)
  have "uval ds = 0" if "unat d + radix * uval ds < radix"
  proof (rule ccontr)
    assume "uval ds \<noteq> 0"
    then have "radix * 1 \<le> radix * uval ds" by (intro mult_le_mono2) simp
    with that show False by simp
  qed
  then show ?thesis using Cons by (auto simp: fits_word_def uval_zero_iff [symmetric])
qed simp

lemma as_usize_val: "xs \<noteq> [] \<Longrightarrow> as_usize xs = (if uval xs < radix then Inr (of_nat (uval xs)) else Inl CastOverflow)"
proof -
  assume "xs \<noteq> []"
  then have "fits_word xs \<Longrightarrow> uval xs = unat (xs ! 0)"
    by (cases xs) (auto simp: fits_word_def uval_zero_iff [symmetric])
  with \<open>xs \<noteq> []\<close> show ?thesis
    using word_order.extremum [of "xs ! 0"] by (auto simp: as_usize_def fits_word_val not_less)
qed

section \<open>Number of bits\<close>

lemma u64_leading_zeros_le: "u64_leading_zeros w \<le> 64" "64 - u64_leading_zeros w = bit_length (unat w)"
  using bit_length_le [of "unat w" 64] unat_radix [of w] by (simp_all add: u64_leading_zeros_def radix_def)

lemma uint_bits_loop_val: "k < length xs \<Longrightarrow> uint_bits_loop xs k = bit_length (uval (take (Suc k) xs))"
proof (induction k)
  case 0
  then show ?case by (cases xs) (simp_all add: u64_leading_zeros_le)
next
  case (Suc k)
  have v: "uval (take (Suc (Suc k)) xs) = uval (take (Suc k) xs) + radix ^ Suc k * unat (xs ! Suc k)"
    using Suc.prems by (rule uval_take_Suc)
  show ?case
  proof (cases "xs ! Suc k = 0")
    case True
    then show ?thesis using Suc v by simp
  next
    case False
    have r: "radix ^ Suc k = 2 ^ (64 * Suc k)" by (simp only: radix_def power_mult)
    have "uval (take (Suc k) xs) < 2 ^ (64 * Suc k)" "0 < unat (xs ! Suc k)"
      using uval_bound [of "take (Suc k) xs"] Suc.prems False r by (simp_all add: unat_gt_0)
    from bit_length_shift [OF this] have "bit_length (uval (take (Suc (Suc k)) xs)) = 64 * Suc k + bit_length (unat (xs ! Suc k))"
      by (simp only: v r)
    moreover have "0 < xs ! Suc k" using False by (simp add: word_gt_0)
    ultimately show ?thesis
      using u64_leading_zeros_le [of "xs ! Suc k"] by simp
  qed
qed

lemma uint_bits_val: "xs \<noteq> [] \<Longrightarrow> uint_bits xs = bit_length (uval xs)"
  using uint_bits_loop_val [of "length xs - 1" xs] by (simp add: uint_bits_def)

end
