(* ===== verification/Uint_Div.thy ===== *)
theory Uint_Div
  imports Uint
begin

text \<open>
  Division of the big integers (\<open>div_mod\<close> in \<open>common/uint/src/uint.rs\<close>): by one word, and by more
  than one with Knuth's Algorithm D, which estimates each quotient digit from the leading words,
  corrects the estimate and adds the divisor back when it was still one too large.  The theory
  shows that both compute quotient and remainder of the numbers, for any number of words.
\<close>

section \<open>The operations\<close>

text \<open>Both callers pass a nonzero divisor, so the division of the language does not panic.\<close>

definition div_mod_word :: "u64 \<Rightarrow> u64 \<Rightarrow> u64 \<Rightarrow> u64 \<times> u64" where
  "div_mod_word hi lo y =
     (let x = push_bit 64 (ucast hi) + ucast lo :: dword; y = ucast y in (ucast (x div y), ucast (x mod y)))"

definition div_mod_small :: "limbs \<Rightarrow> u64 \<Rightarrow> limbs \<times> limbs" where
  "div_mod_small a other =
     (let (rem, qs) = foldr (\<lambda>d (rem, qs). let (q, r) = div_mod_word rem d other in (r, q # qs)) a (0, [])
      in (qs, from_u64 (length a) rem))"

definition full_shl :: "limbs \<Rightarrow> nat \<Rightarrow> limbs" where
  "full_shl a shift = push_bit shift (a ! 0) # uint_shr a (64 - shift)"

definition full_shr :: "limbs \<Rightarrow> nat \<Rightarrow> limbs" where
  "full_shr u shift =
     (let n = length u - 1;
          res = fold (\<lambda>i res. res[i := drop_bit shift (u ! i)]) [0..<n] (uint_zero n)
      in if 0 < shift
         then fold (\<lambda>i res. res[i - 1 := res ! (i - 1) OR push_bit (64 - shift) (u ! i)]) [1..<n + 1] res
         else res)"

definition full_mul_u64 :: "limbs \<Rightarrow> u64 \<Rightarrow> limbs" where
  "full_mul_u64 a by_word = (let (prod, carry) = overflowing_mul_u64 a by_word in prod @ [carry])"

definition binop_carry :: "u64 \<Rightarrow> u64 \<Rightarrow> bool \<Rightarrow> (u64 \<Rightarrow> u64 \<Rightarrow> u64 \<times> bool) \<Rightarrow> u64 \<times> bool" where
  "binop_carry a b c binop =
     (let (res1, overflow1) = u64_overflowing_add b (of_bool c); (res2, overflow2) = binop a res1
      in (res2, overflow1 \<or> overflow2))"

text \<open>\<open>binop_slice\<close> walks the two slices together and stops at the end of the shorter one.\<close>

fun binop_slice :: "(u64 \<Rightarrow> u64 \<Rightarrow> u64 \<times> bool) \<Rightarrow> bool \<Rightarrow> limbs \<Rightarrow> limbs \<Rightarrow> limbs \<times> bool" where
  "binop_slice binop c (x # xs) (y # ys) =
     (let (res, c) = binop_carry x y c binop; (rs, c) = binop_slice binop c xs ys in (res # rs, c))"
| "binop_slice binop c xs _ = (xs, c)"

definition add_slice :: "limbs \<Rightarrow> limbs \<Rightarrow> limbs \<times> bool" where
  "add_slice a b = binop_slice u64_overflowing_add False a b"

definition sub_slice :: "limbs \<Rightarrow> limbs \<Rightarrow> limbs \<times> bool" where
  "sub_slice a b = binop_slice u64_overflowing_sub False a b"

text \<open>
  The correction loop of step D3.  It stops because the estimate goes down and zero is never too
  large: the product is then \<open>(0, 0)\<close>.
\<close>

function q_hat_loop :: "u64 \<Rightarrow> u64 \<Rightarrow> u64 \<Rightarrow> u64 \<Rightarrow> u64 \<Rightarrow> u64" where
  "q_hat_loop v_n_1 v_n_2 u_jn2 q_hat r_hat =
     (let (hi, lo) = split_u128 (ucast q_hat * ucast v_n_2) in
      if hi < r_hat \<or> hi = r_hat \<and> lo \<le> u_jn2 then q_hat
      else
        (let q_hat = q_hat - 1; (new_r_hat, overflow) = u64_overflowing_add r_hat v_n_1
         in if overflow then q_hat else q_hat_loop v_n_1 v_n_2 u_jn2 q_hat new_r_hat))"
  by pat_completeness auto
termination
proof (relation "measure (\<lambda>(_, _, _, q, _). unat q)", goal_cases)
  case (2 v1 v2 u2 q r hl hi lo)
  have "q \<noteq> 0"
  proof
    assume "q = 0"
    then have "hi = 0" "lo = 0" using 2(1,2) by (auto simp: split_u128_def)
    with 2(3) show False by (auto simp: word_gt_0)
  qed
  then have "unat (q - 1) < unat q" by (simp add: unat_minus_one unat_gt_0)
  with 2 show ?case by simp
qed simp

declare q_hat_loop.simps [simp del]

definition q_hat_guess :: "limbs \<Rightarrow> nat \<Rightarrow> u64 \<Rightarrow> u64 \<Rightarrow> nat \<Rightarrow> u64" where
  "q_hat_guess u n v_n_1 v_n_2 j =
     (let u_jn = u ! (j + n) in
      if u_jn < v_n_1 then
        (let (q_hat, r_hat) = div_mod_word u_jn (u ! (j + n - 1)) v_n_1
         in q_hat_loop v_n_1 v_n_2 (u ! (j + n - 2)) q_hat r_hat)
      else - 1)"

definition knuth_turn :: "limbs \<Rightarrow> nat \<Rightarrow> nat \<Rightarrow> limbs \<times> limbs \<Rightarrow> limbs \<times> limbs" where
  "knuth_turn v n j st =
     (let (u, q) = st;
          q_hat = q_hat_guess u n (v ! (n - 1)) (v ! (n - 2)) j;
          q_hat_v = full_mul_u64 v q_hat;
          (tl, c) = sub_slice (drop j u) (take (n + 1) q_hat_v);
          u = take j u @ tl
      in if c then
           (let (tl, c) = add_slice (drop j u) (take n v);
                u = take j u @ tl;
                u = u[j + n := u ! (j + n) + of_bool c]
            in (u, q[j := q_hat - 1]))
         else (u, q[j := q_hat]))"

definition div_mod_knuth :: "limbs \<Rightarrow> limbs \<Rightarrow> nat \<Rightarrow> nat \<Rightarrow> limbs \<times> limbs" where
  "div_mod_knuth a v n m =
     (let shift = u64_leading_zeros (v ! (n - 1));
          v = uint_shl v shift;
          (u, q) = fold (knuth_turn v n) (rev [0..<m + 1]) (full_shl a shift, uint_zero (length a))
      in (q, full_shr u shift))"

definition uint_words :: "nat \<Rightarrow> nat" where
  "uint_words bits = 1 + (bits - 1) div 64"

definition div_mod :: "limbs \<Rightarrow> limbs \<Rightarrow> uint_panic + limbs \<times> limbs" where
  "div_mod a b =
     (let my_bits = uint_bits a; your_bits = uint_bits b in
      if your_bits = 0 then Inl DivisionByZero
      else if my_bits < your_bits then Inr (uint_zero (length a), a)
      else if your_bits \<le> 64 then Inr (div_mod_small a (low_u64 b))
      else
        (let my_words = uint_words my_bits; your_words = uint_words your_bits
         in Inr (div_mod_knuth a b your_words (my_words - your_words))))"

definition uint_div :: "limbs \<Rightarrow> limbs \<Rightarrow> uint_panic + limbs" where
  "uint_div a b = rbind (div_mod a b) (\<lambda>r. Inr (fst r))"

definition uint_rem :: "limbs \<Rightarrow> limbs \<Rightarrow> uint_panic + limbs" where
  "uint_rem a b = rbind (div_mod a b) (\<lambda>r. Inr (snd r))"

definition checked_div :: "limbs \<Rightarrow> limbs \<Rightarrow> uint_panic + limbs option" where
  "checked_div a b = (if uint_is_zero b then Inr None else rbind (uint_div a b) (\<lambda>r. Inr (Some r)))"

definition checked_rem :: "limbs \<Rightarrow> limbs \<Rightarrow> uint_panic + limbs option" where
  "checked_rem a b = (if uint_is_zero b then Inr None else rbind (uint_rem a b) (\<lambda>r. Inr (Some r)))"

section \<open>Division by one word\<close>

lemma div_mod_word_val:
  assumes "hi < y" "div_mod_word hi lo y = (q, r)"
  shows "unat q = (unat hi * radix + unat lo) div unat y" "unat r = (unat hi * radix + unat lo) mod unat y"
proof -
  define x :: dword where "x = push_bit 64 (ucast hi) + ucast lo"
  have lt: "unat hi * radix + unat lo < radix * radix"
    using digits_bound [of "unat lo" radix "unat hi" radix] by (simp add: mult.commute)
  have "radix * radix = 2 ^ 128" by (simp add: radix_def)
  then have x: "unat x = unat hi * radix + unat lo"
    using lt by (simp add: x_def unat_word_ariths unat_push_bit_mod unat_ucast_up radix_def)
  have y: "unat hi < unat y" using assms(1) by (simp add: word_less_nat_alt)
  have "unat hi * radix + unat lo < Suc (unat hi) * radix" by simp
  also have "\<dots> \<le> unat y * radix" using y by (intro mult_le_mono1) simp
  finally have small: "(unat hi * radix + unat lo) div unat y < radix"
    using y by (simp add: less_mult_imp_div_less mult.commute)
  have "unat (ucast y :: dword) = unat y" by (simp add: unat_ucast_up)
  then have "unat q = (unat hi * radix + unat lo) div unat y mod radix" "unat r = (unat hi * radix + unat lo) mod unat y mod radix"
    using assms(2) by (auto simp: div_mod_word_def Let_def x_def [symmetric] unat_ucast_mod unat_div unat_mod x radix_def)
  moreover have "(unat hi * radix + unat lo) mod unat y < radix"
    using y unat_radix [of y] by (intro order.strict_trans [OF mod_less_divisor]) auto
  ultimately show "unat q = (unat hi * radix + unat lo) div unat y" "unat r = (unat hi * radix + unat lo) mod unat y"
    using small by simp_all
qed

lemma div_mod_small_fold:
  assumes "0 < y" "foldr (\<lambda>d (rem, qs). let (q, r) = div_mod_word rem d y in (r, q # qs)) ds (0, []) = (rem, qs)"
  shows "uval qs * unat y + unat rem = uval ds \<and> rem < y \<and> length qs = length ds"
  using assms(2)
proof (induction ds arbitrary: rem qs)
  case (Cons d ds)
  obtain rem1 qs1 where 1: "foldr (\<lambda>d (rem, qs). let (q, r) = div_mod_word rem d y in (r, q # qs)) ds (0, []) = (rem1, qs1)"
    by fastforce
  obtain q r where w: "div_mod_word rem1 d y = (q, r)" by fastforce
  have eq: "rem = r" "qs = q # qs1" using Cons.prems 1 w by auto
  have ih: "uval qs1 * unat y + unat rem1 = uval ds" "rem1 < y" "length qs1 = length ds"
    using Cons.IH [OF 1] by auto
  note v = div_mod_word_val [OF ih(2) w]
  have d: "unat q * unat y + unat r = unat rem1 * radix + unat d" by (simp add: v)
  have "r < y" using assms(1) by (simp add: word_less_nat_alt v)
  moreover have "(unat q + radix * uval qs1) * unat y + unat r = unat d + radix * (uval qs1 * unat y + unat rem1)"
    using d by (simp add: algebra_simps)
  ultimately show ?case using ih by (simp add: eq)
qed (use assms(1) in simp)

lemma div_mod_small_val:
  assumes "0 < y" "a \<noteq> []"
  shows "uval (fst (div_mod_small a y)) = uval a div unat y" "uval (snd (div_mod_small a y)) = uval a mod unat y"
    "length (fst (div_mod_small a y)) = length a" "length (snd (div_mod_small a y)) = length a"
proof -
  obtain r qs where f: "foldr (\<lambda>d (rem, qs). let (q, r) = div_mod_word rem d y in (r, q # qs)) a (0, []) = (r, qs)"
    by fastforce
  have eq: "div_mod_small a y = (qs, from_u64 (length a) r)" unfolding div_mod_small_def f by simp
  have v: "uval qs * unat y + unat r = uval a" "unat r < unat y" "length qs = length a"
    using div_mod_small_fold [OF assms(1) f] by (auto simp: word_less_nat_alt)
  show "uval (fst (div_mod_small a y)) = uval a div unat y" "uval (snd (div_mod_small a y)) = uval a mod unat y"
    using v(2) assms(2) by (simp_all add: eq flip: v(1))
  show "length (fst (div_mod_small a y)) = length a" "length (snd (div_mod_small a y)) = length a"
    by (simp_all add: eq v(3))
qed

section \<open>The parts of Algorithm D\<close>

lemma full_shl_val:
  assumes "a \<noteq> []" "s < 64"
  shows "uval (full_shl a s) = uval a * 2 ^ s" "length (full_shl a s) = Suc (length a)"
proof -
  obtain d ds where a: "a = d # ds" using assms(1) by (cases a) auto
  have r: "radix = 2 ^ s * 2 ^ (64 - s)" using assms(2) by (simp add: radix_def flip: power_add)
  have lo: "unat (push_bit s d) = (uval a * 2 ^ s) mod radix"
  proof -
    have "(uval a * 2 ^ s) mod radix = (unat d * 2 ^ s + radix * (uval ds * 2 ^ s)) mod radix"
      by (simp add: a algebra_simps)
    then show ?thesis by (simp add: unat_push_bit_mod radix_def)
  qed
  have "(uval a * 2 ^ s) div radix = uval a div 2 ^ (64 - s)"
    unfolding r by (subst mult.commute) (rule div_mult_mult1, simp)
  then have "uval (full_shl a s) = (uval a * 2 ^ s) mod radix + radix * ((uval a * 2 ^ s) div radix)"
    using lo by (simp add: full_shl_def uint_shr_val a)
  then show "uval (full_shl a s) = uval a * 2 ^ s" by simp
  show "length (full_shl a s) = Suc (length a)" by (simp add: full_shl_def)
qed

lemma or_eq_plus_shifted:
  assumes "0 < s" "s < 64"
  shows "drop_bit s x OR push_bit (64 - s) y = drop_bit s x + push_bit (64 - s) (y :: u64)"
proof -
  have "\<not> (bit (drop_bit s x) k \<and> bit (push_bit (64 - s) y) k)" for k
    using assms bit_imp_le_length [of x "s + k"] by (auto simp: bit_push_bit_iff bit_drop_bit_eq)
  then show ?thesis by (intro disjunctive_add [symmetric]) auto
qed

lemma full_shr_take:
  assumes "s < 64" "length u = Suc n"
  shows "full_shr u s = take n (uint_shr u s)"
proof (rule nth_equalityI)
  define r where "r = fold (\<lambda>i res. res[i := drop_bit s (u ! i)]) [0..<n] (uint_zero n)"
  define q where "q = fold (\<lambda>i res. res[i - 1 := res ! (i - 1) OR push_bit (64 - s) (u ! i)]) [1..<n + 1] r"
  have eq: "full_shr u s = (if 0 < s then q else r)"
    unfolding full_shr_def Let_def assms(2) q_def r_def by simp
  have len: "length r = n" "length q = n" unfolding q_def r_def by (simp_all add: length_fold_keep)
  then show "length (full_shr u s) = length (take n (uint_shr u s))" using assms(2) by (simp add: eq)
  fix i assume "i < length (full_shr u s)"
  then have i: "i < n" using len by (simp add: eq split: if_splits)
  have r: "r ! i = drop_bit s (u ! i)"
    unfolding r_def using range_update [of i "uint_zero n" 0 0 "\<lambda>i _. drop_bit s (u ! i)" n] i by simp
  have "q ! i = r ! i OR push_bit (64 - s) (u ! (i + 1))"
    unfolding q_def using range_update [of i r 1 1 "\<lambda>i v. v OR push_bit (64 - s) (u ! i)" "n + 1"] i len by simp
  then show "full_shr u s ! i = take n (uint_shr u s) ! i"
    using i assms r or_eq_plus_shifted [of s "u ! i" "u ! (i + 1)"] by (simp add: eq uint_shr_nth)
qed

lemma full_shr_val:
  assumes "s < 64" "length u = Suc n"
  shows "uval (full_shr u s) = uval u div 2 ^ s mod radix ^ n" "length (full_shr u s) = n"
  using assms by (simp_all add: full_shr_take uval_take uint_shr_val)

lemma full_mul_u64_val: "uval (full_mul_u64 a w) = uval a * unat w" "length (full_mul_u64 a w) = Suc (length a)"
proof -
  obtain r c where m: "overflowing_mul_u64 a w = (r, c)" by fastforce
  show "uval (full_mul_u64 a w) = uval a * unat w" "length (full_mul_u64 a w) = Suc (length a)"
    using overflowing_mul_u64_val [OF m] by (simp_all add: full_mul_u64_def m)
qed

lemma binop_carry_add:
  assumes "binop_carry a b c u64_overflowing_add = (r, c')"
  shows "unat r + radix * of_bool c' = unat a + unat b + of_bool c"
proof -
  obtain s o1 where 1: "u64_overflowing_add b (of_bool c) = (s, o1)" by fastforce
  obtain t o2 where 2: "u64_overflowing_add a s = (t, o2)" by fastforce
  have "r = t" "c' \<longleftrightarrow> o1 \<or> o2" using assms 1 2 by (auto simp: binop_carry_def)
  then show ?thesis
    using u64_overflowing_add_val [OF 1] u64_overflowing_add_val [OF 2] unat_radix [of a] unat_radix [of b] unat_radix [of s]
      unat_radix [of t]
    by (cases o1; cases o2; cases c) simp_all
qed

lemma binop_carry_sub:
  assumes "binop_carry a b c u64_overflowing_sub = (r, c')"
  shows "unat r + unat b + of_bool c = unat a + radix * of_bool c'"
proof -
  obtain s o1 where 1: "u64_overflowing_add b (of_bool c) = (s, o1)" by fastforce
  obtain t o2 where 2: "u64_overflowing_sub a s = (t, o2)" by fastforce
  have "r = t" "c' \<longleftrightarrow> o1 \<or> o2" using assms 1 2 by (auto simp: binop_carry_def)
  then show ?thesis
    using u64_overflowing_add_val [OF 1] u64_overflowing_sub_val [OF 2] unat_radix [of a] unat_radix [of b] unat_radix [of s]
      unat_radix [of t]
    by (cases o1; cases o2; cases c) simp_all
qed

lemma binop_slice_append:
  "length xs = length ys \<Longrightarrow> binop_slice f c (xs @ zs) ys = apfst (\<lambda>r. r @ zs) (binop_slice f c xs ys)"
proof (induction xs ys arbitrary: c rule: list_induct2)
  case Nil
  then show ?case by (cases zs) simp_all
qed (auto split: prod.splits)

lemma binop_slice_add:
  "length xs = length ys \<Longrightarrow> binop_slice u64_overflowing_add c xs ys = (rs, c') \<Longrightarrow>
     uval rs + radix ^ length xs * of_bool c' = uval xs + uval ys + of_bool c \<and> length rs = length xs"
proof (induction xs ys arbitrary: c rs c' rule: list_induct2)
  case (Cons x xs y ys)
  obtain r d where turn: "binop_carry x y c u64_overflowing_add = (r, d)" by fastforce
  obtain qs e where rest: "binop_slice u64_overflowing_add d xs ys = (qs, e)" by fastforce
  have eq: "rs = r # qs" "c' = e" using Cons.prems turn rest by auto
  have q: "uval qs + radix ^ length xs * of_bool e = uval xs + uval ys + of_bool d" "length qs = length xs"
    using Cons.IH [OF rest] by auto
  show ?case using arg_cong [OF q(1), of "\<lambda>n. radix * n"] binop_carry_add [OF turn] q(2) eq
    by (cases e; cases d) (simp_all add: algebra_simps)
qed simp

lemma binop_slice_sub:
  "length xs = length ys \<Longrightarrow> binop_slice u64_overflowing_sub c xs ys = (rs, c') \<Longrightarrow>
     uval rs + uval ys + of_bool c = uval xs + radix ^ length xs * of_bool c' \<and> length rs = length xs"
proof (induction xs ys arbitrary: c rs c' rule: list_induct2)
  case (Cons x xs y ys)
  obtain r d where turn: "binop_carry x y c u64_overflowing_sub = (r, d)" by fastforce
  obtain qs e where rest: "binop_slice u64_overflowing_sub d xs ys = (qs, e)" by fastforce
  have eq: "rs = r # qs" "c' = e" using Cons.prems turn rest by auto
  have q: "uval qs + uval ys + of_bool d = uval xs + radix ^ length xs * of_bool e" "length qs = length xs"
    using Cons.IH [OF rest] by auto
  show ?case using arg_cong [OF q(1), of "\<lambda>n. radix * n"] binop_carry_sub [OF turn] q(2) eq
    by (cases e; cases d) (simp_all add: algebra_simps)
qed simp

section \<open>The estimate of a quotient digit\<close>

text \<open>
  With \<open>b\<close> the radix: \<open>v\<close> is the divisor, whose leading words are \<open>v1\<close> and \<open>v2\<close>, and \<open>u\<close> the part of the
  dividend under it, whose leading words are \<open>u0\<close>, \<open>u1\<close> and \<open>u2\<close>.
\<close>

lemma quotient_le_leading:
  fixes v u k :: nat
  assumes "0 < v" "0 < v div k"
  shows "u div v * (v div k) \<le> u div k"
proof -
  have "0 < k" using assms(2) by (cases k) simp_all
  have "u div v * (v div k) * k \<le> u div v * v" by (simp add: mult.assoc)
  also have "\<dots> \<le> u" by simp
  finally show ?thesis using \<open>0 < k\<close> by (simp add: less_eq_div_iff_mult_less_eq)
qed

lemma estimate_close:
  fixes v u k b q :: nat
  assumes k: "0 < k" and v: "b \<le> v div k" and q: "q < b" "q * (v div k) \<le> u div k"
  shows "q \<le> u div v + 1"
proof (rule ccontr)
  assume "\<not> q \<le> u div v + 1"
  then have big: "u div v + 2 \<le> q" by simp
  define w where "w = v div k"
  have "0 < v" using v q(1) k by (cases v) simp_all
  have vk: "v < (w + 1) * k" using k by (simp add: w_def dividend_less_div_times)
  have "q * w * k \<le> u div k * k" using q(2) by (simp add: w_def)
  also have "\<dots> \<le> u" by simp
  finally have lo: "q * w * k \<le> u" .
  have "u < (u div v + 1) * v" using \<open>0 < v\<close> by (simp add: dividend_less_div_times)
  also have "\<dots> \<le> (q - 1) * v" using big by (intro mult_le_mono1) simp
  also have "\<dots> \<le> (q - 1) * ((w + 1) * k)" using vk by (intro mult_le_mono2) simp
  finally have "q * w * k < (q - 1) * (w + 1) * k" using lo by (simp only: mult.assoc)
  then have "q * w < (q - 1) * (w + 1)" by (simp only: mult_less_cancel2)
  moreover have "(q - 1) * (w + 1) = q * w + q - w - 1" using big by (cases q) simp_all
  ultimately have "w < q" by linarith
  with v q(1) show False by (simp add: w_def)
qed

lemma words_less_eq:
  fixes hi lo r u :: u64
  shows "(hi < r \<or> hi = r \<and> lo \<le> u) \<longleftrightarrow> unat lo + radix * unat hi \<le> unat r * radix + unat u"
proof -
  consider "hi < r" | "hi = r" | "r < hi" by (rule linorder_less_linear [THEN disjE]) auto
  then show ?thesis
  proof cases
    case 1
    then have "unat lo + radix * unat hi < radix * unat r"
      by (intro digits_bound) (simp_all add: word_less_nat_alt)
    with 1 show ?thesis by (simp add: mult.commute)
  next
    case 3
    then have "unat u + radix * unat r < radix * unat hi"
      by (intro digits_bound) (simp_all add: word_less_nat_alt)
    moreover have "\<not> (hi < r \<or> hi = r \<and> lo \<le> u)" using 3 by auto
    ultimately show ?thesis by (simp add: mult.commute)
  qed (simp add: mult.commute word_le_nat_alt)
qed

lemma q_hat_loop_val:
  assumes v: "0 < v" "v div k = unat v1 * radix + unat v2" "0 < v1" and u: "u div k = lead * radix + unat u2"
    and q: "unat q * unat v1 + unat r = lead" "u div v \<le> unat q"
  shows "u div v \<le> unat (q_hat_loop v1 v2 u2 q r) \<and> unat (q_hat_loop v1 v2 u2 q r) * (v div k) \<le> u div k"
  using q
proof (induction "unat q" arbitrary: q r rule: less_induct)
  case less
  obtain hi lo where s: "split_u128 (ucast q * ucast v2) = (hi, lo)" by fastforce
  have qv: "unat lo + radix * unat hi = unat q * unat v2"
    using split_u128_val [OF s] unat_product [of q v2 0] by simp
  show ?case
  proof (cases "hi < r \<or> hi = r \<and> lo \<le> u2")
    case True
    then have "unat q * unat v2 \<le> unat r * radix + unat u2" using words_less_eq [of hi r lo u2] qv by simp
    then have "unat q * (v div k) \<le> u div k" unfolding v(2) u less.prems(1) [symmetric] by (simp add: algebra_simps)
    then show ?thesis using less.prems(2) True s by (simp add: q_hat_loop.simps [of v1 v2 u2 q r])
  next
    case False
    have "u div v * (v div k) \<le> u div k" using v(1,3) by (intro quotient_le_leading) (simp_all add: v(2) unat_gt_0 word_gt_0)
    moreover have "u div k < unat q * (v div k)"
      using words_less_eq [of hi r lo u2] qv False unfolding v(2) u less.prems(1) [symmetric] by (simp add: algebra_simps)
    ultimately have "u div v \<noteq> unat q" by auto
    with less.prems(2) have lt: "u div v < unat q" by simp
    then have q1: "unat (q - 1) = unat q - 1" by (intro unat_minus_one) auto
    obtain r' ov where r': "u64_overflowing_add r v1 = (r', ov)" by fastforce
    have rv: "unat r' + radix * of_bool ov = unat r + unat v1" by (rule u64_overflowing_add_val [OF r'])
    have top1: "unat (q - 1) * unat v1 + (unat r + unat v1) = lead"
      using less.prems(1) lt unfolding q1 by (cases "unat q") simp_all
    show ?thesis
    proof (cases ov)
      case True
      have "unat (q - 1) * unat v2 \<le> radix * radix" using unat_radix by (intro mult_le_mono) (simp_all add: less_imp_le)
      also have "\<dots> \<le> (unat r + unat v1) * radix" using rv True by (intro mult_le_mono1) simp
      finally have "unat (q - 1) * (v div k) \<le> u div k" unfolding v(2) u top1 [symmetric] by (simp add: algebra_simps)
      moreover have "q_hat_loop v1 v2 u2 q r = q - 1"
        using True False s r' by (auto simp: q_hat_loop.simps [of v1 v2 u2 q r])
      ultimately show ?thesis using lt q1 by simp
    next
      case False': False
      have "q_hat_loop v1 v2 u2 q r = q_hat_loop v1 v2 u2 (q - 1) r'"
        using False False' s r' by (auto simp: q_hat_loop.simps [of v1 v2 u2 q r])
      then show ?thesis using less.hyps [of "q - 1" r'] lt q1 top1 rv False' by simp
    qed
  qed
qed

lemma uval_nth: "k < length xs \<Longrightarrow> unat (xs ! k) = uval xs div radix ^ k mod radix"
proof -
  assume k: "k < length xs"
  then have "uval xs div radix ^ k = unat (xs ! k) + radix * uval (drop (Suc k) xs)"
    using uval_drop [of k xs] by (simp add: Cons_nth_drop_Suc [symmetric])
  then show ?thesis by simp
qed

lemma div_radix_step: "m div radix ^ k = m div radix ^ Suc k * radix + m div radix ^ k mod radix"
  using div_mult_mod_eq [of "m div radix ^ k" radix] by (simp add: div_mult2_eq [symmetric] mult.commute)

text \<open>The leading words of a number that fits in \<open>Suc n\<close> words.\<close>

lemma leading_words:
  assumes "Suc n < length xs" "uval xs < radix ^ Suc (Suc n)"
  shows "uval xs div radix ^ Suc n = unat (xs ! Suc n)"
    "uval xs div radix ^ n = unat (xs ! Suc n) * radix + unat (xs ! n)"
proof -
  have "uval xs div radix ^ Suc n < radix" using assms(2) by (simp add: less_mult_imp_div_less mult.commute)
  then show 1: "uval xs div radix ^ Suc n = unat (xs ! Suc n)" using uval_nth [of "Suc n" xs] assms(1) by simp
  show "uval xs div radix ^ n = unat (xs ! Suc n) * radix + unat (xs ! n)"
    using div_radix_step [of "uval xs" n] uval_nth [of n xs] assms(1) 1 by simp
qed

text \<open>A normalised divisor: \<open>n\<close> words, at least two, the topmost bit of the leading one set.\<close>

definition normalised :: "limbs \<Rightarrow> nat \<Rightarrow> bool" where
  "normalised v n \<longleftrightarrow> 2 \<le> n \<and> n \<le> length v \<and> uval v < radix ^ n \<and> radix \<le> 2 * unat (v ! (n - 1))"

lemma normalised_leading:
  assumes "normalised v n"
  shows "uval v div radix ^ (n - 1) = unat (v ! (n - 1))"
    "uval v div radix ^ (n - 2) = unat (v ! (n - 1)) * radix + unat (v ! (n - 2))" "0 < v ! (n - 1)" "0 < uval v"
proof -
  obtain m where n: "n = Suc (Suc m)" using assms by (metis normalised_def Suc_le_D numeral_2_eq_2 Suc_le_mono)
  have "uval v < radix ^ Suc (Suc m)" "Suc m < length v" using assms by (simp_all add: normalised_def n)
  from leading_words [OF this(2,1)]
  show 1: "uval v div radix ^ (n - 1) = unat (v ! (n - 1))"
    "uval v div radix ^ (n - 2) = unat (v ! (n - 1)) * radix + unat (v ! (n - 2))"
    by (simp_all add: n)
  have "unat (v ! (n - 1)) \<noteq> 0" using assms radix_pos(1) unfolding normalised_def by linarith
  then show "0 < v ! (n - 1)" by (simp add: word_gt_0 unat_eq_0)
  show "0 < uval v" using 1(1) \<open>unat (v ! (n - 1)) \<noteq> 0\<close> by (cases "uval v") simp_all
qed

lemma largest_guess:
  fixes t v v1 k b :: nat
  assumes "0 < v" "v < (v1 + 1) * k" "v1 * b * k \<le> t" "b \<le> 2 * v1"
  shows "b - 1 \<le> t div v + 1"
proof -
  have "(b - 2) * v \<le> (b - 2) * ((v1 + 1) * k)" using assms(2) by (intro mult_le_mono2) simp
  also have "\<dots> = ((b - 2) * (v1 + 1)) * k" by (simp only: mult.assoc)
  also have "(b - 2) * (v1 + 1) \<le> v1 * b"
  proof (cases "2 \<le> b")
    case True
    then obtain c where "b = c + 2" by (metis add.commute le_Suc_ex)
    then show ?thesis using assms(4) by (simp add: algebra_simps)
  qed simp
  then have "((b - 2) * (v1 + 1)) * k \<le> v1 * b * k" by (rule mult_le_mono1)
  also have "\<dots> \<le> t" by (rule assms(3))
  finally have "b - 2 \<le> t div v" using assms(1) by (simp add: less_eq_div_iff_mult_less_eq)
  then show ?thesis by simp
qed

lemma q_hat_guess_val:
  assumes v: "normalised v n" and u: "j + n < length u" and small: "uval (drop j u) < radix * uval v"
  shows "uval (drop j u) div uval v \<le> unat (q_hat_guess u n (v ! (n - 1)) (v ! (n - 2)) j)"
    "unat (q_hat_guess u n (v ! (n - 1)) (v ! (n - 2)) j) \<le> uval (drop j u) div uval v + 1"
proof -
  define t where "t = uval (drop j u)"
  define v1 v2 where "v1 = v ! (n - 1)" and "v2 = v ! (n - 2)"
  note lv = normalised_leading [OF v, folded v1_def v2_def]
  obtain m where n: "n = Suc (Suc m)" using v by (metis normalised_def Suc_le_D numeral_2_eq_2 Suc_le_mono)
  have nv: "uval v < radix ^ n" "radix \<le> 2 * unat v1" using v by (simp_all add: normalised_def v1_def)
  have "radix * uval v < radix * radix ^ n" using nv(1) by simp
  with small have t_small: "t < radix ^ Suc (Suc (Suc m))" unfolding t_def n power_Suc by linarith
  have lt: "t div radix ^ n = unat (u ! (j + n))"
      "t div radix ^ (n - 1) = unat (u ! (j + n)) * radix + unat (u ! (j + n - 1))"
    using leading_words [of "Suc m" "drop j u"] t_small u by (simp_all add: t_def n)
  have lt2: "t div radix ^ (n - 2) = t div radix ^ (n - 1) * radix + unat (u ! (j + n - 2))"
    using div_radix_step [of t m] uval_nth [of m "drop j u"] u by (simp add: t_def n)
  have "t div uval v \<le> unat (q_hat_guess u n v1 v2 j) \<and> unat (q_hat_guess u n v1 v2 j) \<le> t div uval v + 1"
  proof (cases "u ! (j + n) < v1")
    case True
    obtain q r where w: "div_mod_word (u ! (j + n)) (u ! (j + n - 1)) v1 = (q, r)" by fastforce
    note qr = div_mod_word_val [OF True w]
    define g where "g = q_hat_loop v1 v2 (u ! (j + n - 2)) q r"
    have "0 < unat v1" using lv(3) by (simp add: word_less_nat_alt)
    have "t div uval v * unat v1 \<le> t div radix ^ (n - 1)"
      using quotient_le_leading [OF lv(4), of "radix ^ (n - 1)" t] lv(1) \<open>0 < unat v1\<close> by simp
    then have ge: "t div uval v \<le> unat q"
      unfolding qr(1) lt(2) [symmetric] by (rule less_eq_div_iff_mult_less_eq [THEN iffD2, OF \<open>0 < unat v1\<close>])
    have "unat q * unat v1 + unat r = t div radix ^ (n - 1)" unfolding qr lt(2) by (rule div_mult_mod_eq)
    from q_hat_loop_val [OF lv(4,2,3) lt2 this ge]
    have g: "t div uval v \<le> unat g" "unat g * (uval v div radix ^ (n - 2)) \<le> t div radix ^ (n - 2)"
      by (simp_all add: g_def)
    have "radix \<le> uval v div radix ^ (n - 2)" using \<open>0 < unat v1\<close> unfolding lv(2) by (simp add: Suc_leI trans_le_add1)
    then have "unat g \<le> t div uval v + 1" by (rule estimate_close [rotated]) (use g(2) in simp_all)
    moreover have "q_hat_guess u n v1 v2 j = g" using True w by (simp add: q_hat_guess_def g_def)
    ultimately show ?thesis using g(1) by simp
  next
    case False
    have max: "unat (q_hat_guess u n v1 v2 j) = radix - 1"
      using False by (simp add: q_hat_guess_def radix_def unsigned_minus_1_eq_mask mask_eq_exp_minus_1)
    have "t div uval v < radix" using small lv(4) by (simp add: t_def less_mult_imp_div_less mult.commute)
    moreover have "radix - 1 \<le> t div uval v + 1"
    proof (rule largest_guess [OF lv(4) _ _ nv(2)])
      show "uval v < (unat v1 + 1) * radix ^ (n - 1)"
        using dividend_less_div_times [of "radix ^ (n - 1)" "uval v"] unfolding lv(1) by simp
      have "unat v1 * radix ^ n \<le> unat (u ! (j + n)) * radix ^ n"
        using False by (intro mult_le_mono1) (simp add: word_less_nat_alt)
      also have "\<dots> \<le> t" using div_times_less_eq_dividend [of t "radix ^ n"] by (simp add: lt(1))
      finally show "unat v1 * radix * radix ^ (n - 1) \<le> t" by (simp add: n mult.assoc)
    qed
    ultimately show ?thesis by (simp add: max)
  qed
  then show "uval (drop j u) div uval v \<le> unat (q_hat_guess u n (v ! (n - 1)) (v ! (n - 2)) j)"
    "unat (q_hat_guess u n (v ! (n - 1)) (v ! (n - 2)) j) \<le> uval (drop j u) div uval v + 1"
    by (simp_all add: t_def v1_def v2_def)
qed

section \<open>One digit\<close>

lemma sub_slice_val:
  assumes "length xs = length ys" "sub_slice (xs @ zs) ys = (out, c)"
  obtains r where "out = r @ zs" "length r = length xs" "uval r + uval ys = uval xs + radix ^ length xs * of_bool c"
proof -
  obtain r d where s: "binop_slice u64_overflowing_sub False xs ys = (r, d)" by fastforce
  have "out = r @ zs" "c = d" using assms s by (auto simp: sub_slice_def binop_slice_append)
  with binop_slice_sub [OF assms(1) s] that [of r] show thesis by simp
qed

lemma add_slice_val:
  assumes "length xs = length ys" "add_slice (xs @ zs) ys = (out, c)"
  obtains r where "out = r @ zs" "length r = length xs" "uval r + radix ^ length xs * of_bool c = uval xs + uval ys"
proof -
  obtain r d where s: "binop_slice u64_overflowing_add False xs ys = (r, d)" by fastforce
  have "out = r @ zs" "c = d" using assms s by (auto simp: add_slice_def binop_slice_append)
  with binop_slice_add [OF assms(1) s] that [of r] show thesis by simp
qed

text \<open>Adding the divisor back after the subtraction went below zero by \<open>radix ^ Suc n - (v - m)\<close>.\<close>

lemma add_back:
  assumes len: "length r = Suc n" "length v = n" and m: "m < uval v" and r: "uval r + uval v = m + radix ^ Suc n"
    and s: "length s = n" "uval s + radix ^ n * of_bool c = uval (take n r) + uval v"
  shows "uval s = m" "r ! n + of_bool c = 0"
proof -
  have rv: "uval r = uval (take n r) + radix ^ n * unat (r ! n)"
    using uval_take_Suc [of n r] len(1) by simp
  define x where "x = unat (r ! n) + of_bool c"
  have eq: "uval s + radix ^ n * x = m + radix ^ n * radix"
    using rv r s(2) by (cases c) (simp_all add: x_def algebra_simps)
  have lt: "uval s < radix ^ n" "m < radix ^ n" using uval_bound [of s] uval_bound [of v] s(1) len(2) m by auto
  have "(uval s + radix ^ n * x) mod radix ^ n = uval s" "(m + radix ^ n * radix) mod radix ^ n = m" using lt by simp_all
  then show "uval s = m" using eq by simp
  with eq have x: "x = radix" by simp
  show "r ! n + of_bool c = 0"
  proof -
    have "unat (r ! n + of_bool c) = x mod radix" by (simp add: unat_add_radix x_def of_bool_carry)
    then show ?thesis using x by (simp add: unat_eq_0)
  qed
qed

lemma add_back_slice:
  assumes len: "length r = Suc n" "n \<le> length v" and v: "uval (take n v) = uval v"
    and m: "m < uval v" "uval r + uval v = m + radix ^ Suc n"
  obtains s c where "add_slice (r @ zs) (take n v) = (s @ r ! n # zs, c)" "length s = n" "uval s = m" "r ! n + of_bool c = 0"
proof -
  have split: "r @ zs = take n r @ r ! n # zs" using len(1) take_Suc_conv_app_nth [of n r] by simp
  obtain out c where add: "add_slice (r @ zs) (take n v) = (out, c)" by fastforce
  obtain s where s: "out = s @ r ! n # zs" "length s = n" "uval s + radix ^ n * of_bool c = uval (take n r) + uval (take n v)"
    using add_slice_val [of "take n r" "take n v" "r ! n # zs" out c] add len unfolding split by auto
  have "m < uval (take n v)" "uval r + uval (take n v) = m + radix ^ Suc n" using m v by simp_all
  from add_back [OF len(1) _ this s(2,3)] len(2) have "uval s = m" "r ! n + of_bool c = 0" by simp_all
  with add s that show thesis by blast
qed

lemma knuth_turn_val:
  assumes v: "normalised v n" and u: "j + n < length u" and small: "uval (drop j u) < radix * uval v"
    and step: "knuth_turn v n j (u, q) = (u', q')"
  shows "length u' = length u" "take j u' = take j u" "uval (drop j u') = uval (drop j u) mod uval v"
    "\<exists>d. q' = q[j := d] \<and> unat d = uval (drop j u) div uval v"
proof -
  define g where "g = q_hat_guess u n (v ! (n - 1)) (v ! (n - 2)) j"
  define t where "t = uval (drop j u)"
  note guess = q_hat_guess_val [OF v u small, folded g_def t_def]
  have v': "0 < uval v" "uval v < radix ^ n" "n \<le> length v" "uval (take n v) = uval v"
    using normalised_leading(4) [OF v] v by (auto simp: normalised_def uval_take)
  define xs zs where "xs = take (Suc n) (drop j u)" and "zs = drop (Suc n) (drop j u)"
  have split: "drop j u = xs @ zs" unfolding xs_def zs_def by (rule append_take_drop_id [symmetric])
  have len: "length xs = Suc n" using u by (simp add: xs_def)
  have len_u: "length u = j + (Suc n + length zs)" using u by (simp add: zs_def)
  have "radix * uval v < radix * radix ^ n" using v'(2) by simp
  with small have "t < radix ^ Suc n" unfolding t_def power_Suc by linarith
  then have "uval zs = 0" using uval_drop [of "Suc n" "drop j u"] u by (simp add: zs_def t_def)
  then have t: "uval xs = t" by (simp add: t_def split)
  define ys where "ys = take (n + 1) (full_mul_u64 v g)"
  have "uval v * unat g < radix ^ n * radix" using v'(2) by (intro mult_strict_mono') simp_all
  then have ys: "uval ys = uval v * unat g" "length ys = Suc n"
    using v'(3) by (simp_all add: ys_def uval_take full_mul_u64_val mult.commute)
  obtain tl c where sub: "sub_slice (drop j u) ys = (tl, c)" by fastforce
  obtain r where r: "tl = r @ zs" "length r = Suc n" "uval r + uval v * unat g = t + radix ^ Suc n * of_bool c"
    using sub_slice_val [of xs ys zs tl c] sub by (auto simp: split len ys t)
  have "length u' = length u \<and> take j u' = take j u \<and> uval (drop j u') = t mod uval v
      \<and> (\<exists>d. q' = q[j := d] \<and> unat d = t div uval v)"
  proof (cases c)
    case False
    have "uval v * unat g \<le> t" using r(3) False by simp
    then have "unat g \<le> t div uval v" using v'(1) by (simp add: less_eq_div_iff_mult_less_eq mult.commute)
    with guess(1) have g: "unat g = t div uval v" by simp
    then have "uval r = t mod uval v" using r(3) False by (simp add: minus_mult_div_eq_mod [symmetric])
    moreover have "u' = take j u @ r @ zs" "q' = q[j := g]"
      using step False sub r(1) by (simp_all add: knuth_turn_def Let_def g_def ys_def)
    ultimately show ?thesis using g u len_u r(2) \<open>uval zs = 0\<close> by auto
  next
    case True
    have "t < uval v * unat g" using r True uval_bound [of r] by simp
    then have "t div uval v < unat g" using v'(1) by (simp add: div_less_iff_less_mult mult.commute)
    with guess have g: "unat g = t div uval v + 1" by simp
    then have g1: "unat (g - 1) = t div uval v" by (subst unat_minus_one) auto
    have "uval r + uval v = t mod uval v + radix ^ Suc n"
    proof -
      have "uval r + (uval v * (t div uval v) + uval v) = t + radix ^ Suc n" using r(3) True g by simp
      then show ?thesis using mult_div_mod_eq [of "uval v" t] by linarith
    qed
    with v' obtain s d where s: "add_slice (r @ zs) (take n v) = (s @ r ! n # zs, d)" "length s = n"
        "uval s = t mod uval v" "r ! n + of_bool d = 0"
      by (elim add_back_slice [OF r(2) v'(3,4), rotated, of "t mod uval v" zs]) auto
    have "u' = take j u @ s @ 0 # zs" "q' = q[j := g - 1]"
      using step True sub r(1) s u len_u by (simp_all add: knuth_turn_def Let_def g_def ys_def list_update_append nth_append)
    then show ?thesis using g1 s(2,3) u len_u r(2) \<open>uval zs = 0\<close> by auto
  qed
  then show "length u' = length u" "take j u' = take j u" "uval (drop j u') = uval (drop j u) mod uval v"
    "\<exists>d. q' = q[j := d] \<and> unat d = uval (drop j u) div uval v"
    by (simp_all add: t_def)
qed

section \<open>All digits\<close>

lemma knuth_fold:
  assumes v: "normalised v n"
    and "uval (drop k u) < uval v" "k + n \<le> length u" "k \<le> length q" "\<forall>i<k. q ! i = 0"
    and "fold (knuth_turn v n) (rev [0..<k]) (u, q) = (u', q')"
  shows "uval u' + uval q' * uval v = uval u + uval q * uval v \<and> uval u' < uval v \<and> length u' = length u \<and> length q' = length q"
  using assms(2-)
proof (induction k arbitrary: u q)
  case (Suc k)
  obtain u1 q1 where step: "knuth_turn v n k (u, q) = (u1, q1)" by fastforce
  define t where "t = uval (drop k u)"
  have "drop k u = u ! k # drop (Suc k) u" using Suc.prems(2) v by (simp add: Cons_nth_drop_Suc normalised_def)
  then have small: "t < radix * uval v" using digits_bound [OF unat_radix Suc.prems(1)] by (simp add: t_def)
  have "k + n < length u" using Suc.prems(2) by simp
  note turn = knuth_turn_val [OF v this small [unfolded t_def] step, folded t_def]
  obtain d where d: "q1 = q[k := d]" "unat d = t div uval v" using turn(4) by blast
  have "fold (knuth_turn v n) (rev [0..<k]) (u1, q1) = (u', q')" using Suc.prems(5) step by simp
  moreover have "uval (drop k u1) < uval v" using normalised_leading(4) [OF v] by (simp add: turn(3))
  moreover have "\<forall>i<k. q1 ! i = 0" using Suc.prems(4) d by simp
  ultimately have ih: "uval u' + uval q' * uval v = uval u1 + uval q1 * uval v" "uval u' < uval v"
      "length u' = length u" "length q' = length q"
    using Suc.IH [of u1 q1] Suc.prems(2,3) turn(1) d by simp_all
  have "uval u = uval (take k u) + radix ^ k * t" "uval u1 = uval (take k u) + radix ^ k * (t mod uval v)"
    using uval_take_drop [of k u] uval_take_drop [of k u1] turn(1-3) Suc.prems(2) by (simp_all add: t_def)
  moreover have "uval q1 = uval q + t div uval v * radix ^ k"
    using uval_update [of k q d] Suc.prems(3,4) d by simp
  moreover have "radix ^ k * t = radix ^ k * (t div uval v * uval v + t mod uval v)" by simp
  ultimately have "uval u1 + uval q1 * uval v = uval u + uval q * uval v" by (simp only: distrib_left distrib_right) simp
  with ih show ?case by simp
qed simp

lemma uint_words_val:
  assumes "0 < x" "n = uint_words (bit_length x)"
  shows "radix ^ (n - 1) \<le> x" "x < radix ^ n" "0 < n" "x < radix ^ l \<Longrightarrow> n \<le> l"
proof -
  define b where "b = bit_length x"
  have b: "2 ^ (b - 1) \<le> x" "x < 2 ^ b" "0 < b" using bit_length_bounds [OF assms(1)] by (simp_all add: b_def)
  have n: "n = 1 + (b - 1) div 64" using assms(2) by (simp add: uint_words_def b_def)
  have r: "radix ^ k = 2 ^ (64 * k)" for k by (simp only: radix_def power_mult)
  have "64 * (n - 1) \<le> b - 1" "b \<le> 64 * n" using n b(3) by auto
  then have "(2::nat) ^ (64 * (n - 1)) \<le> 2 ^ (b - 1)" "(2::nat) ^ b \<le> 2 ^ (64 * n)" by (intro power_increasing; simp)+
  with b show 1: "radix ^ (n - 1) \<le> x" "x < radix ^ n" unfolding r by linarith+
  show "0 < n" by (simp add: n)
  show "n \<le> l" if "x < radix ^ l"
  proof -
    have "radix ^ (n - 1) < radix ^ l" using 1(1) that by linarith
    then have "n - 1 < l" by (simp add: power_strict_increasing_iff)
    then show ?thesis by simp
  qed
qed

lemma normalise_divisor:
  assumes b: "radix ^ (n - 1) \<le> uval b" "uval b < radix ^ n" "2 \<le> n" "n \<le> length b"
    and s: "s = u64_leading_zeros (b ! (n - 1))"
  shows "s < 64" "normalised (uint_shl b s) n" "uval (uint_shl b s) = uval b * 2 ^ s"
proof -
  define w where "w = uval b div radix ^ (n - 1)"
  have rn: "radix ^ n = radix * radix ^ (n - 1)" using b(3) by (cases n) simp_all
  have "w < radix" using b(2) rn by (simp add: w_def less_mult_imp_div_less)
  then have word: "unat (b ! (n - 1)) = w" using uval_nth [of "n - 1" b] b(3,4) by (simp add: w_def)
  have "0 < w" using b(1) by (simp add: w_def div_greater_zero_iff)
  from bit_length_bounds [OF this] u64_leading_zeros_le [of "b ! (n - 1)"] word
  have bl: "s \<le> 64" "bit_length w = 64 - s" "2 ^ (64 - s - 1) \<le> w" "w < 2 ^ (64 - s)" "0 < 64 - s" by (simp_all add: s)
  show s64: "s < 64" using bl(5) by simp
  have p: "radix = 2 ^ (64 - s) * 2 ^ s" using s64 by (simp add: radix_def flip: power_add)
  have "uval b < (w + 1) * radix ^ (n - 1)"
    using dividend_less_div_times [of "radix ^ (n - 1)" "uval b"] by (simp add: w_def)
  also have "\<dots> \<le> 2 ^ (64 - s) * radix ^ (n - 1)" using bl(4) by (intro mult_le_mono1) simp
  finally have "uval b * 2 ^ s < 2 ^ (64 - s) * radix ^ (n - 1) * 2 ^ s" by simp
  then have small: "uval b * 2 ^ s < radix ^ n" unfolding rn by (subst p) (simp add: algebra_simps)
  have "radix ^ n \<le> radix ^ length b" using b(4) by (intro power_increasing) (simp_all add: Suc_leI)
  with small have "uval b * 2 ^ s < radix ^ length b" by linarith
  then show val: "uval (uint_shl b s) = uval b * 2 ^ s" by (simp add: uint_shl_val)
  have "w * 2 ^ s * radix ^ (n - 1) \<le> uval b * 2 ^ s"
    using div_times_less_eq_dividend [of "uval b" "radix ^ (n - 1)"] by (simp add: w_def algebra_simps)
  then have "w * 2 ^ s \<le> uval b * 2 ^ s div radix ^ (n - 1)" by (simp add: less_eq_div_iff_mult_less_eq)
  moreover have "uval b * 2 ^ s div radix ^ (n - 1) < radix"
    using small rn by (simp add: less_mult_imp_div_less)
  ultimately have top: "w * 2 ^ s \<le> unat (uint_shl b s ! (n - 1))"
    using uval_nth [of "n - 1" "uint_shl b s"] b(3,4) val by simp
  have "radix = 2 * (2 ^ (64 - s - 1) * 2 ^ s)" using p bl(5) by (cases "64 - s") simp_all
  also have "\<dots> \<le> 2 * (w * 2 ^ s)" using bl(3) by simp
  finally have "radix \<le> 2 * unat (uint_shl b s ! (n - 1))" using top by linarith
  then show "normalised (uint_shl b s) n" using b small val by (simp add: normalised_def)
qed

lemma div_mod_unique: "x + q * v = y \<Longrightarrow> x < v \<Longrightarrow> q = y div v \<and> x = y mod (v :: nat)"
  by auto

lemma div_mod_knuth_val:
  assumes len: "length a = length b" "a \<noteq> []" and b: "radix \<le> uval b" and ab: "bit_length (uval b) \<le> bit_length (uval a)"
    and n: "n = uint_words (bit_length (uval b))" and m: "m = uint_words (bit_length (uval a)) - n"
    and res: "div_mod_knuth a b n m = (q, r)"
  shows "uval q = uval a div uval b" "uval r = uval a mod uval b" "length q = length a" "length r = length a"
proof -
  define s where "s = u64_leading_zeros (b ! (n - 1))"
  have "0 < bit_length (uval b)" using bit_length_bounds [of "uval b"] b radix_pos(1) by linarith
  with ab have pos: "0 < uval b" "0 < uval a" using b radix_pos(1) by (auto intro!: gr0I)
  note wb = uint_words_val [OF pos(1) n] and wa = uint_words_val [OF pos(2) refl]
  have "\<not> n \<le> 1" using wb(2,3) b by (cases n; cases "n - 1") auto
  then have n2: "2 \<le> n" by simp
  have nl: "n \<le> length b" "uint_words (bit_length (uval a)) \<le> length a" using wb(4) wa(4) uval_bound by auto
  have "n \<le> uint_words (bit_length (uval a))" unfolding n uint_words_def using ab by (simp add: div_le_mono)
  then have mn: "m + n = uint_words (bit_length (uval a))" using m by simp
  note v = normalise_divisor [OF wb(1,2) n2 nl(1) s_def]
  note u = full_shl_val [OF len(2) v(1)]
  obtain w q' where f: "fold (knuth_turn (uint_shl b s) n) (rev [0..<m + 1]) (full_shl a s, uint_zero (length a)) = (w, q')"
    by fastforce
  have eq: "q = q'" "r = full_shr w s" using res unfolding div_mod_knuth_def Let_def s_def [symmetric] f by auto
  have "uval (drop (m + 1) (full_shl a s)) < uval b * 2 ^ s"
  proof -
    have "uval a < radix ^ (m + n)" using wa(2) mn by simp
    also have "radix ^ (m + n) = radix ^ (m + 1) * radix ^ (n - 1)" using n2 by (simp only: power_add [symmetric]) simp
    also have "\<dots> \<le> radix ^ (m + 1) * uval b" using wb(1) by (rule mult_le_mono2)
    finally have "uval a * 2 ^ s < uval b * 2 ^ s * radix ^ (m + 1)" by (simp add: algebra_simps)
    then show ?thesis using u nl(2) mn by (simp add: uval_drop less_mult_imp_div_less)
  qed
  from knuth_fold [OF v(2) this [folded v(3)] _ _ _ f]
  have k: "uval w + uval q' * uval (uint_shl b s) = uval (full_shl a s)" "uval w < uval (uint_shl b s)"
      "length w = Suc (length a)" "length q' = length a"
    using u(2) nl mn n2 by (simp_all add: uint_zero_def)
  have dm: "uval w + uval q' * (uval b * 2 ^ s) = uval a * 2 ^ s" "uval w < uval b * 2 ^ s"
    using k(1,2) v(3) u(1) by simp_all
  have "uval q' = uval a * 2 ^ s div (uval b * 2 ^ s)" "uval w = uval a * 2 ^ s mod (uval b * 2 ^ s)"
    using div_mod_unique [OF dm] by simp_all
  then have "uval q' = uval a div uval b" "uval w = (uval a mod uval b) * 2 ^ s" by (simp_all add: mult_mod_left)
  moreover have "uval a mod uval b < radix ^ length a"
    using uval_bound [of a] by (rule order.strict_trans1 [rotated]) simp
  ultimately show "uval q = uval a div uval b" "uval r = uval a mod uval b" "length q = length a" "length r = length a"
    using k(3,4) v(1) by (simp_all add: eq full_shr_val)
qed

text \<open>\<open>div_mod\<close> is division with remainder, and panics exactly on a zero divisor.\<close>

lemma div_mod_val:
  assumes "length a = length b" "a \<noteq> []"
  shows "case div_mod a b of
      Inl e \<Rightarrow> e = DivisionByZero \<and> uval b = 0
    | Inr (q, r) \<Rightarrow> uval b \<noteq> 0 \<and> uval q = uval a div uval b \<and> uval r = uval a mod uval b
        \<and> length q = length a \<and> length r = length a"
proof -
  have "b \<noteq> []" using assms by auto
  note bits = uint_bits_val [OF assms(2)] uint_bits_val [OF this]
  have zero: "bit_length (uval b) = 0 \<longleftrightarrow> uval b = 0" using bit_length_bounds [of "uval b"] by (cases "uval b") auto
  show ?thesis
  proof (cases "uval b = 0 \<or> bit_length (uval a) < bit_length (uval b)")
    case True
    have "uval a < uval b" if "bit_length (uval a) < bit_length (uval b)" "uval b \<noteq> 0"
    proof -
      have "uval a < 2 ^ bit_length (uval a)" using bit_length_bounds [of "uval a"] by (cases "uval a") auto
      also have "(2::nat) ^ bit_length (uval a) \<le> 2 ^ (bit_length (uval b) - 1)" using that by (intro power_increasing) auto
      also have "\<dots> \<le> uval b" using bit_length_bounds [of "uval b"] that by simp
      finally show ?thesis .
    qed
    with True show ?thesis by (auto simp: div_mod_def Let_def bits zero)
  next
    case False
    show ?thesis
    proof (cases "bit_length (uval b) \<le> 64")
      case True
      have "uval b < 2 ^ bit_length (uval b)" using False bit_length_bounds [of "uval b"] by auto
      also have "(2::nat) ^ bit_length (uval b) \<le> radix" unfolding radix_def using True by (intro power_increasing) simp_all
      finally have "fits_word b" using \<open>b \<noteq> []\<close> by (simp add: fits_word_val)
      then have low: "unat (low_u64 b) = uval b"
        using \<open>b \<noteq> []\<close> by (cases b) (auto simp: fits_word_def low_u64_def uval_zero_iff [symmetric])
      then have "0 < low_u64 b" using False by (simp add: word_less_nat_alt)
      from div_mod_small_val [OF this assms(2)] show ?thesis
        using True False low by (cases "div_mod_small a (low_u64 b)") (simp add: div_mod_def Let_def bits zero)
    next
      case big: False
      obtain q r where k: "div_mod_knuth a b (uint_words (bit_length (uval b)))
          (uint_words (bit_length (uval a)) - uint_words (bit_length (uval b))) = (q, r)"
        by fastforce
      have "radix = 2 ^ 64" by (simp add: radix_def)
      also have "(2::nat) ^ 64 \<le> 2 ^ (bit_length (uval b) - 1)" using big by (intro power_increasing) simp_all
      also have "\<dots> \<le> uval b" using bit_length_bounds [of "uval b"] False by simp
      finally show ?thesis
        using div_mod_knuth_val [OF assms _ _ refl refl k] False big k by (simp add: div_mod_def Let_def bits zero)
    qed
  qed
qed

end
