(* ===== verification/Uint_Props.thy ===== *)
theory Uint_Props
  imports Uint_Div Consensus
begin

text \<open>
  What \<open>common/uint/src/uint.rs\<close> builds on the arithmetic of its words: the integer square root,
  exponentiation by squaring, decimal and big-endian text, and the contract of the four-word type
  that the rest of the development uses as 256-bit words.  A loop of the source is a
  \<open>partial_function\<close>, so that its termination is part of what is shown of it.
\<close>

section \<open>The operations\<close>

definition sqrt_turn :: "limbs \<Rightarrow> limbs \<Rightarrow> uint_panic + limbs" where
  "sqrt_turn a x_prev =
     rbind (uint_div a x_prev) (\<lambda>d. rbind (uint_add x_prev d) (\<lambda>s. Inr (uint_shr s 1)))"

partial_function (option) sqrt_loop :: "limbs \<Rightarrow> limbs \<Rightarrow> (uint_panic + limbs) option" where
  "sqrt_loop a x_prev =
     (case sqrt_turn a x_prev of
        Inl e \<Rightarrow> Some (Inl e)
      | Inr x \<Rightarrow> if is_ge (uint_cmp x x_prev) then Some (Inr x_prev) else sqrt_loop a x)"

definition integer_sqrt :: "limbs \<Rightarrow> (uint_panic + limbs) option" where
  "integer_sqrt a =
     (let one = uint_one (length a) in
      if is_le (uint_cmp a one) then Some (Inr a)
      else sqrt_loop a (uint_shl one ((uint_bits a + 1) div 2)))"

definition uint_is_even :: "limbs \<Rightarrow> bool" where
  "uint_is_even x \<longleftrightarrow> low_u64 x AND 1 = 0"

text \<open>The step of \<open>pow\<close> that is meant to make an odd exponent even.\<close>

definition clear_last_bit :: "limbs \<Rightarrow> limbs" where
  "clear_last_bit n = n[length n - 1 := n ! (length n - 1) AND drop_bit 1 (NOT 0)]"

partial_function (option) pow_loop :: "limbs \<Rightarrow> limbs \<Rightarrow> limbs \<Rightarrow> (uint_panic + limbs) option" where
  "pow_loop n x y =
     (if uint_cmp n (uint_one (length n)) = Greater then
        (if uint_is_even n then
           (case uint_mul x x of
              Inl e \<Rightarrow> Some (Inl e)
            | Inr x' \<Rightarrow> pow_loop (uint_shr n 1) x' y)
         else
           (case rbind (uint_mul x y) (\<lambda>y. rbind (uint_mul x x) (\<lambda>x. Inr (x, y))) of
              Inl e \<Rightarrow> Some (Inl e)
            | Inr (x', y') \<Rightarrow> pow_loop (uint_shr (clear_last_bit n) 1) x' y'))
      else Some (uint_mul x y))"

definition uint_pow :: "limbs \<Rightarrow> limbs \<Rightarrow> (uint_panic + limbs) option" where
  "uint_pow a expon =
     (if uint_is_zero expon then Some (Inr (uint_one (length a)))
      else pow_loop expon a (uint_one (length a)))"

partial_function (option) overflowing_pow_loop ::
  "limbs \<Rightarrow> limbs \<Rightarrow> limbs \<Rightarrow> bool \<Rightarrow> (uint_panic + limbs \<times> bool) option" where
  "overflowing_pow_loop n x y overflow =
     (if uint_cmp n (uint_one (length n)) = Greater then
        (if uint_is_even n then
           (let (x, o1) = overflowing_mul x x in overflowing_pow_loop (uint_shr n 1) x y (overflow \<or> o1))
         else
           (let (y, o1) = overflowing_mul x y; (x, o2) = overflowing_mul x x in
            case uint_sub n (uint_one (length n)) of
              Inl e \<Rightarrow> Some (Inl e)
            | Inr n' \<Rightarrow> overflowing_pow_loop (uint_shr n' 1) x y (overflow \<or> o1 \<or> o2)))
      else (let (res, o1) = overflowing_mul x y in Some (Inr (res, overflow \<or> o1))))"

definition overflowing_pow :: "limbs \<Rightarrow> limbs \<Rightarrow> (uint_panic + limbs \<times> bool) option" where
  "overflowing_pow a expon =
     (if uint_is_zero expon then Some (Inr (uint_one (length a), False))
      else overflowing_pow_loop expon a (uint_one (length a)) False)"

definition checked_pow :: "limbs \<Rightarrow> limbs \<Rightarrow> (uint_panic + limbs option) option" where
  "checked_pow a expon =
     (case overflowing_pow a expon of
        None \<Rightarrow> None
      | Some r \<Rightarrow> Some (rbind r (\<lambda>(val, overflow). Inr (if overflow then None else Some val))))"

subsection \<open>Text and bytes\<close>

datatype from_dec_str_err = DecInvalidCharacter | DecInvalidLength

definition from_dec_turn :: "u8 \<Rightarrow> limbs \<Rightarrow> from_dec_str_err + limbs" where
  "from_dec_turn c res =
     (let b = c - 48 in
      if 9 < b then Inl DecInvalidCharacter
      else
        (let (r, overflow) = overflowing_mul_u64 res 10 in
         if 0 < overflow then Inl DecInvalidLength
         else
           (let (r, overflow) = overflowing_add r (from_u64 (length r) (ucast b)) in
            if overflow then Inl DecInvalidLength else Inr r)))"

definition from_dec_str :: "nat \<Rightarrow> bytes \<Rightarrow> from_dec_str_err + limbs" where
  "from_dec_str n s = rfold from_dec_turn s (uint_zero n)"

text \<open>\<open>Display\<close>: the digits are written into a buffer of twenty bytes per word, from the end.\<close>

fun display_loop :: "nat \<Rightarrow> limbs \<Rightarrow> bytes \<Rightarrow> uint_panic + bytes" where
  "display_loop i current buf =
     (let ten = from_u64 (length current) 10 in
      rbind (uint_rem current ten) (\<lambda>d.
        let buf = buf[i := ucast (low_u64 d) + 48] in
        rbind (uint_div current ten) (\<lambda>current.
          if uint_is_zero current then Inr (drop i buf)
          else case i of 0 \<Rightarrow> Inl BufferUnderflow | Suc i \<Rightarrow> display_loop i current buf)))"

definition uint_display :: "limbs \<Rightarrow> uint_panic + bytes" where
  "uint_display a =
     (if uint_is_zero a then Inr [48]
      else (let buf = replicate (length a * 20) 0 in display_loop (length buf - 1) a buf))"

definition to_big_endian :: "limbs \<Rightarrow> bytes" where
  "to_big_endian a = concat (map to_be_bytes (rev a))"

definition to_little_endian :: "limbs \<Rightarrow> bytes" where
  "to_little_endian a = concat (map (\<lambda>w. rev (to_be_bytes w)) a)"

definition from_big_endian :: "nat \<Rightarrow> bytes \<Rightarrow> limbs option" where
  "from_big_endian n s =
     (if length s \<le> n * 8 then
        (let padded = replicate (n * 8 - length s) 0 @ s
         in Some (fold (\<lambda>i r. r[n - i - 1 := from_be_bytes (take 8 (drop (8 * i) padded))]) [0..<n] (replicate n 0)))
      else None)"

definition from_little_endian :: "nat \<Rightarrow> bytes \<Rightarrow> limbs option" where
  "from_little_endian n s =
     (if length s \<le> n * 8 then
        (let padded = s @ replicate (n * 8 - length s) 0
         in Some (fold (\<lambda>i r. r[i := from_be_bytes (rev (take 8 (drop (8 * i) padded)))]) [0..<n] (replicate n 0)))
      else None)"

section \<open>The arithmetic as a contract\<close>

lemma uint_add_ok:
  assumes "length a = length b" "uval a + uval b < radix ^ length a"
  obtains r where "uint_add a b = Inr r" "uval r = uval a + uval b" "length r = length a"
  using uint_add_val [OF assms(1)] assms(2) by (cases "uint_add a b") auto

lemma uint_div_ok:
  assumes "length a = length b" "a \<noteq> []" "uval b \<noteq> 0"
  obtains q where "uint_div a b = Inr q" "uval q = uval a div uval b" "length q = length a"
  using div_mod_val [OF assms(1,2)] assms(3) by (cases "div_mod a b") (auto simp: uint_div_def)

lemma uint_rem_ok:
  assumes "length a = length b" "a \<noteq> []" "uval b \<noteq> 0"
  obtains r where "uint_rem a b = Inr r" "uval r = uval a mod uval b" "length r = length a"
  using div_mod_val [OF assms(1,2)] assms(3) by (cases "div_mod a b") (auto simp: uint_rem_def)

lemma uint_cmp_order:
  assumes "length a = length b"
  shows "is_ge (uint_cmp a b) \<longleftrightarrow> uval b \<le> uval a" "is_le (uint_cmp a b) \<longleftrightarrow> uval a \<le> uval b"
    "uint_cmp a b = Greater \<longleftrightarrow> uval b < uval a"
  using uint_cmp_val [OF assms] by (auto simp: is_ge_def is_le_def)

section \<open>Square root\<close>

text \<open>One turn of Newton's iteration on numbers stays above the root and stops only there.\<close>

lemma newton_above:
  fixes s x r :: nat
  assumes "0 < x" "r * r \<le> s"
  shows "r \<le> (x + s div x) div 2"
proof -
  have "2 * r \<le> x + s div x"
  proof (cases "x \<le> 2 * r")
    case True
    then obtain d where d: "2 * r = x + d" by (metis le_Suc_ex)
    have "d * x \<le> r * r"
    proof -
      have "(x + d) * (x + d) = 4 * (r * r)" by (simp flip: d)
      moreover have "4 * (d * x) \<le> (x + d) * (x + d)"
      proof -
        have "int (4 * (d * x)) \<le> int ((x + d) * (x + d))"
          using zero_le_square [of "int x - int d"] by (simp add: algebra_simps)
        then show ?thesis by (simp only: of_nat_le_iff)
      qed
      ultimately show ?thesis by linarith
    qed
    then have "d * x \<le> s" using assms(2) by linarith
    then have "d \<le> s div x" using assms(1) by (simp add: less_eq_div_iff_mult_less_eq)
    then show ?thesis using d by linarith
  qed simp
  then show ?thesis by simp
qed

lemma newton_stop:
  fixes s x :: nat
  assumes "0 < x" "x \<le> (x + s div x) div 2"
  shows "x * x \<le> s"
proof -
  have "x \<le> s div x" using assms(2) by linarith
  then show ?thesis using assms(1) by (simp add: less_eq_div_iff_mult_less_eq)
qed

lemma sqrt_loop_val:
  assumes "length x = length a" "0 < uval a" "uval a < (uval x + 1) * (uval x + 1)" "2 * uval x + 2 < radix ^ length a" "0 < uval x"
  shows "\<exists>r. sqrt_loop a x = Some (Inr r) \<and> length r = length a \<and> uval r * uval r \<le> uval a \<and> uval a < (uval r + 1) * (uval r + 1)"
  using assms
proof (induction "uval x" arbitrary: x rule: less_induct)
  case less
  have ne: "a \<noteq> []" using less.prems(2) by auto
  obtain q where q: "uint_div a x = Inr q" "uval q = uval a div uval x" "length q = length a"
    using uint_div_ok [of a x] less.prems ne by auto
  have "uval a \<le> uval x * (uval x + 2)" using less.prems(3) by simp
  then have "uval a div uval x \<le> uval x + 2" using less.prems(5) by (metis div_le_mono nonzero_mult_div_cancel_left not_gr_zero)
  then obtain s where s: "uint_add x q = Inr s" "uval s = uval x + uval a div uval x" "length s = length a"
    using uint_add_ok [of x q] q less.prems by auto
  define y where "y = uint_shr s 1"
  have y: "uval y = (uval x + uval a div uval x) div 2" "length y = length a"
    by (simp_all add: y_def uint_shr_val s)
  have turn: "sqrt_turn a x = Inr y" by (simp add: sqrt_turn_def q s y_def)
  show ?case
  proof (cases "uval x \<le> uval y")
    case True
    then have "sqrt_loop a x = Some (Inr x)"
      using turn y(2) less.prems(1) by (simp add: sqrt_loop.simps [of a x] uint_cmp_order)
    moreover have "uval x * uval x \<le> uval a" using newton_stop [OF less.prems(5)] True y(1) by simp
    ultimately show ?thesis using less.prems(1,3) by auto
  next
    case False
    have next_loop: "sqrt_loop a x = sqrt_loop a y"
      using False turn y(2) less.prems(1) by (simp add: sqrt_loop.simps [of a x] uint_cmp_order)
    have above: "uval a < (uval y + 1) * (uval y + 1)"
    proof (rule ccontr)
      assume "\<not> uval a < (uval y + 1) * (uval y + 1)"
      then have "uval y + 1 \<le> uval y" using newton_above [OF less.prems(5), of "uval y + 1" "uval a"] y(1) by simp
      then show False by simp
    qed
    moreover have "0 < uval y" using newton_above [OF less.prems(5), of 1 "uval a"] less.prems(2) y(1) by simp
    ultimately show ?thesis using less.hyps [of y] False y(2) less.prems(2,4) next_loop by simp
  qed
qed

lemma sqrt_start:
  assumes "a \<noteq> []" "0 < uval a"
  defines "k \<equiv> (uint_bits a + 1) div 2"
  shows "uval a < 2 ^ k * 2 ^ k" "2 * 2 ^ k + 2 < radix ^ length a"
proof -
  have b: "uint_bits a = bit_length (uval a)" using assms(1) by (rule uint_bits_val)
  have "uval a < 2 ^ bit_length (uval a)" using bit_length_bounds [OF assms(2)] by simp
  also have "(2::nat) ^ bit_length (uval a) \<le> 2 ^ (k + k)" by (intro power_increasing) (auto simp: k_def b)
  finally show "uval a < 2 ^ k * 2 ^ k" by (simp add: power_add)
  have r: "radix ^ length a = 2 ^ (64 * length a)" by (simp only: radix_def power_mult)
  have "bit_length (uval a) \<le> 64 * length a" using uval_bound [of a] r by (intro bit_length_le) simp
  moreover have "0 < length a" using assms(1) by simp
  ultimately have "k + 2 < 64 * length a" unfolding k_def b by presburger
  then have "(2::nat) ^ (k + 2) < radix ^ length a" unfolding r by (intro power_strict_increasing) simp_all
  moreover have "(2::nat) ^ (k + 2) = 4 * 2 ^ k" "(1::nat) \<le> 2 ^ k" by (simp_all add: power_add)
  ultimately show "2 * 2 ^ k + 2 < radix ^ length a" by linarith
qed

section \<open>Powers\<close>

lemma uint_is_even_val: "xs \<noteq> [] \<Longrightarrow> uint_is_even xs \<longleftrightarrow> even (uval xs)"
proof (cases xs)
  case (Cons d ds)
  have "d AND 1 = 0 \<longleftrightarrow> even d" by (simp add: and_one_eq even_iff_mod_2_eq_zero)
  moreover have "bit (unat d) 0 \<longleftrightarrow> bit d 0" by (simp only: bit_unsigned_iff possible_bit_nat simp_thms)
  then have "even (unat d) \<longleftrightarrow> even d" by (simp add: bit_0)
  moreover have "even radix" by (simp add: radix_def)
  ultimately show ?thesis by (simp add: uint_is_even_def low_u64_def Cons)
qed simp

lemma pow_halves:
  fixes x n y :: nat
  shows "even n \<Longrightarrow> (x * x) ^ (n div 2) * y = x ^ n * y"
    "odd n \<Longrightarrow> (x * x) ^ (n div 2) * (x * y) = x ^ n * y"
proof -
  show "(x * x) ^ (n div 2) * y = x ^ n * y" if "even n"
    using that by (auto elim!: evenE simp: power_mult power2_eq_square)
  show "(x * x) ^ (n div 2) * (x * y) = x ^ n * y" if "odd n"
    using that by (auto elim!: oddE simp: power_mult power2_eq_square)
qed

lemma pow_bounds:
  fixes x n y :: nat
  assumes "1 < n" "x = 0 \<or> 0 < y"
  shows "x * x \<le> x ^ n * y \<and> x * y \<le> x ^ n * y \<or> x = 0"
proof (cases "x = 0")
  case False
  have p: "x ^ 2 \<le> x ^ n" "x ^ 1 \<le> x ^ n" using assms(1) False by (intro power_increasing; simp)+
  have "x ^ n * 1 \<le> x ^ n * y" using assms(2) False by (intro mult_le_mono2) simp
  then have "x * x \<le> x ^ n * y" using p(1) by (simp only: power2_eq_square mult_1_right)
  then show ?thesis using mult_le_mono1 [of x "x ^ n" y] p(2) by simp
qed simp

lemma clear_last_bit_val:
  assumes "n \<noteq> []"
  shows "uval (clear_last_bit n) = uval n mod (radix ^ length n div 2)" "length (clear_last_bit n) = length n"
proof -
  define k where "k = length n - 1"
  define w where "w = n ! k"
  have k: "k < length n" "length n = Suc k" using assms by (simp_all add: k_def)
  have mask: "drop_bit 1 (NOT 0) = (mask 63 :: u64)" by (simp add: mask_numeral)
  have "unat (w AND drop_bit 1 (NOT 0)) = unat w mod 2 ^ 63"
    unfolding mask by (simp add: take_bit_eq_mask [symmetric] unsigned_take_bit_eq) (simp add: take_bit_eq_mod)
  moreover have "uval (clear_last_bit n) + unat w * radix ^ k = uval n + unat (w AND drop_bit 1 (NOT 0)) * radix ^ k"
    using uval_update [OF k(1)] by (simp add: clear_last_bit_def k_def w_def)
  moreover have "uval n = uval (take k n) + radix ^ k * unat w"
    using uval_take_Suc [OF k(1)] k(2) by (simp add: w_def)
  ultimately have v: "uval (clear_last_bit n) = uval (take k n) + radix ^ k * (unat w mod 2 ^ 63)"
    "uval n = uval (take k n) + radix ^ k * unat w"
    by (simp_all add: algebra_simps)
  have half: "radix ^ length n div 2 = radix ^ k * 2 ^ 63" by (simp add: k(2) radix_def)
  have "uval (take k n) < radix ^ k" using uval_bound [of "take k n"] k by simp
  then show "uval (clear_last_bit n) = uval n mod (radix ^ length n div 2)"
    unfolding v half mod_mult2_eq by simp
  show "length (clear_last_bit n) = length n" by (simp add: clear_last_bit_def)
qed

text \<open>What \<open>pow\<close> should return for the number \<open>t\<close> in \<open>l\<close> words.\<close>

definition pow_result :: "nat \<Rightarrow> nat \<Rightarrow> uint_panic + limbs \<Rightarrow> bool" where
  "pow_result l t res \<longleftrightarrow>
     (case res of Inl e \<Rightarrow> e = ArithmeticOverflow \<and> radix ^ l \<le> t | Inr r \<Rightarrow> uval r = t \<and> length r = l)"

lemma uint_mul_result: "length a = length b \<Longrightarrow> pow_result (length a) (uval a * uval b) (uint_mul a b)"
  unfolding pow_result_def by (rule uint_mul_val)

lemma pow_result_Inl: "pow_result l s (Inl e) \<Longrightarrow> s \<le> t \<Longrightarrow> pow_result l t (Inl e)"
  by (simp add: pow_result_def)

text \<open>
  One turn of \<open>pow\<close>: either a product overflows, which only happens when the result does, or the
  loop goes on with half the exponent and the same result.
\<close>

definition pow_turn_ok :: "limbs \<Rightarrow> limbs \<Rightarrow> limbs \<Rightarrow> bool" where
  "pow_turn_ok n x y \<longleftrightarrow>
     (\<exists>e. pow_loop n x y = Some (Inl e) \<and> pow_result (length x) (uval x ^ uval n * uval y) (Inl e))
     \<or> (\<exists>n' x' y'. pow_loop n x y = pow_loop n' x' y' \<and> uval n' = uval n div 2
          \<and> uval x' ^ uval n' * uval y' = uval x ^ uval n * uval y \<and> (uval x' = 0 \<or> 0 < uval y')
          \<and> length n' = length x \<and> length x' = length x \<and> length y' = length x)"

lemma pow_turn_even:
  assumes len: "length n = length x" "length y = length x" "0 < length x"
    and n: "1 < uval n" "even (uval n)" and xy: "uval x = 0 \<or> 0 < uval y"
  shows "pow_turn_ok n x y"
proof -
  have ne: "n \<noteq> []" using len by auto
  have gt: "uint_cmp n (uint_one (length n)) = Greater" using ne n(1) by (simp add: uint_cmp_order)
  have le: "uval x * uval x \<le> uval x ^ uval n * uval y" using pow_bounds [OF n(1) xy] by auto
  note sq = uint_mul_result [of x x, OF refl]
  show ?thesis
  proof (cases "uint_mul x x")
    case (Inl e)
    then have "pow_loop n x y = Some (Inl e)"
      using gt n ne by (simp add: pow_loop.simps [of n x y] uint_is_even_val)
    then show ?thesis using pow_result_Inl [OF sq [unfolded Inl] le] by (auto simp: pow_turn_ok_def)
  next
    case (Inr x')
    then have "uval x' = uval x * uval x" "length x' = length x" using sq by (simp_all add: pow_result_def)
    moreover have "pow_loop n x y = pow_loop (uint_shr n 1) x' y"
      using Inr gt n ne by (simp add: pow_loop.simps [of n x y] uint_is_even_val)
    ultimately show ?thesis
      unfolding pow_turn_ok_def using len n(2) xy
      by (intro disjI2 exI [of _ "uint_shr n 1"] exI [of _ x'] exI [of _ y]) (auto simp: uint_shr_val pow_halves)
  qed
qed

lemma pow_turn_odd:
  assumes len: "length n = length x" "length y = length x" "0 < length x"
    and n: "1 < uval n" "odd (uval n)" "uval n < radix ^ length x div 2" and xy: "uval x = 0 \<or> 0 < uval y"
  shows "pow_turn_ok n x y"
proof -
  have ne: "n \<noteq> []" using len by auto
  have gt: "uint_cmp n (uint_one (length n)) = Greater" using ne n(1) by (simp add: uint_cmp_order)
  have le: "uval x * uval x \<le> uval x ^ uval n * uval y" "uval x * uval y \<le> uval x ^ uval n * uval y"
    using pow_bounds [OF n(1) xy] by auto
  note sq = uint_mul_result [of x x, OF refl] and ml = uint_mul_result [of x y, OF len(2) [symmetric]]
  show ?thesis
  proof (cases "rbind (uint_mul x y) (\<lambda>y. rbind (uint_mul x x) (\<lambda>x. Inr (x, y)))")
    case (Inl e)
    then have "pow_loop n x y = Some (Inl e)"
      using gt n ne by (simp add: pow_loop.simps [of n x y] uint_is_even_val)
    moreover have "pow_result (length x) (uval x ^ uval n * uval y) (Inl e)"
      using Inl sq ml le by (cases "uint_mul x y"; cases "uint_mul x x") (auto intro: pow_result_Inl)
    ultimately show ?thesis by (auto simp: pow_turn_ok_def)
  next
    case (Inr p)
    obtain x' y' where p: "p = (x', y')" by fastforce
    with Inr have "uint_mul x y = Inr y'" "uint_mul x x = Inr x'" by (auto simp: rbind_Inr)
    then have x': "uval x' = uval x * uval x" "length x' = length x" "uval y' = uval x * uval y" "length y' = length x"
      using sq ml by (simp_all add: pow_result_def)
    have "pow_loop n x y = pow_loop (uint_shr (clear_last_bit n) 1) x' y'"
      using Inr p gt n ne by (simp add: pow_loop.simps [of n x y] uint_is_even_val)
    moreover have "uval (uint_shr (clear_last_bit n) 1) = uval n div 2"
      using len(1) n(3) ne by (simp add: uint_shr_val clear_last_bit_val)
    ultimately show ?thesis
      unfolding pow_turn_ok_def using len n(2) xy x' ne
      by (intro disjI2 exI [of _ "uint_shr (clear_last_bit n) 1"] exI [of _ x'] exI [of _ y'])
        (auto simp: clear_last_bit_val pow_halves)
  qed
qed

lemma pow_loop_val:
  assumes "length n = length x" "length y = length x" "0 < length x" "0 < uval n"
    "odd (uval n) \<Longrightarrow> uval n < radix ^ length x div 2" "uval x = 0 \<or> 0 < uval y"
  shows "\<exists>res. pow_loop n x y = Some res \<and> pow_result (length x) (uval x ^ uval n * uval y) res"
  using assms
proof (induction "uval n" arbitrary: n x y rule: less_induct)
  case less
  show ?case
  proof (cases "1 < uval n")
    case False
    then have "uval n = 1" using less.prems(4) by simp
    moreover have "uint_cmp n (uint_one (length n)) \<noteq> Greater" using False less.prems(1,3) by (simp add: uint_cmp_order)
    ultimately show ?thesis
      using uint_mul_result [of x y] less.prems(2) by (simp add: pow_loop.simps [of n x y])
  next
    case True
    have "uval n < radix ^ length x" using uval_bound [of n] less.prems(1) by simp
    moreover obtain c where "radix ^ length x = 2 * c" using less.prems(3) by (cases x) (auto simp: radix_def)
    ultimately have half: "uval n div 2 < radix ^ length x div 2" "uval n div 2 < uval n" "0 < uval n div 2"
      using True by (auto simp: less_mult_imp_div_less)
    have "pow_turn_ok n x y"
      using less.prems True by (cases "even (uval n)") (auto intro: pow_turn_even pow_turn_odd)
    then consider
        (panic) e where "pow_loop n x y = Some (Inl e)" "pow_result (length x) (uval x ^ uval n * uval y) (Inl e)"
      | (go) n' x' y' where "pow_loop n x y = pow_loop n' x' y'" "uval n' = uval n div 2"
          "uval x' ^ uval n' * uval y' = uval x ^ uval n * uval y" "uval x' = 0 \<or> 0 < uval y'"
          "length n' = length x" "length x' = length x" "length y' = length x"
      unfolding pow_turn_ok_def by metis
    then show ?thesis
    proof cases
      case go
      have "\<exists>res. pow_loop n' x' y' = Some res \<and> pow_result (length x') (uval x' ^ uval n' * uval y') res"
        using go half less.prems(3) by (intro less.hyps) auto
      with go show ?thesis by simp
    qed blast
  qed
qed

text \<open>
  \<open>pow\<close> computes the power, and panics exactly when it does not fit, unless the exponent is odd and
  has its topmost bit set.
\<close>

lemma uint_pow_val:
  assumes "length e = length x" "0 < length x" "odd (uval e) \<Longrightarrow> uval e < radix ^ length x div 2"
  shows "\<exists>res. uint_pow x e = Some res \<and> pow_result (length x) (uval x ^ uval e) res"
proof (cases "uval e = 0")
  case True
  then show ?thesis using assms(2) by (simp add: uint_pow_def uval_is_zero pow_result_def)
next
  case False
  then show ?thesis
    using pow_loop_val [of e x "uint_one (length x)"] assms by (simp add: uint_pow_def uval_is_zero)
qed

text \<open>
  \<open>overflowing_pow\<close>: while nothing overflowed the words hold the exact powers; afterwards they hold
  them modulo the size, and the result itself is too large.
\<close>

definition pow_state :: "nat \<Rightarrow> nat \<Rightarrow> limbs \<Rightarrow> limbs \<Rightarrow> limbs \<Rightarrow> bool \<Rightarrow> bool" where
  "pow_state l t n x y overflow \<longleftrightarrow>
     length n = l \<and> length x = l \<and> length y = l \<and> 0 < uval n
     \<and> (\<exists>X Y. X ^ uval n * Y = t \<and> (X = 0 \<or> 0 < Y) \<and> uval x = X mod radix ^ l \<and> uval y = Y mod radix ^ l
          \<and> (if overflow then radix ^ l \<le> t else X < radix ^ l \<and> Y < radix ^ l))"

lemma overflowing_mul_mod:
  assumes "length x = l" "length y = l" "uval x = X mod radix ^ l" "uval y = Y mod radix ^ l"
  shows "uval (fst (overflowing_mul x y)) = X * Y mod radix ^ l" "length (fst (overflowing_mul x y)) = l"
    "X < radix ^ l \<Longrightarrow> Y < radix ^ l \<Longrightarrow> snd (overflowing_mul x y) \<longleftrightarrow> radix ^ l \<le> X * Y"
  using overflowing_mul_val [of x y] assms by (simp_all add: mod_mult_eq)

lemma pow_state_step:
  assumes st: "pow_state l t n x y ov" and n: "1 < uval n"
    and n': "length n' = l" "uval n' = uval n div 2"
  shows "even (uval n) \<Longrightarrow>
      pow_state l t n' (fst (overflowing_mul x x)) y (ov \<or> snd (overflowing_mul x x))"
    "odd (uval n) \<Longrightarrow>
      pow_state l t n' (fst (overflowing_mul x x)) (fst (overflowing_mul x y))
        (ov \<or> snd (overflowing_mul x y) \<or> snd (overflowing_mul x x))"
proof -
  obtain X Y where XY: "X ^ uval n * Y = t" "X = 0 \<or> 0 < Y" "uval x = X mod radix ^ l" "uval y = Y mod radix ^ l"
      "if ov then radix ^ l \<le> t else X < radix ^ l \<and> Y < radix ^ l" and len: "length n = l" "length x = l" "length y = l"
    using st by (auto simp: pow_state_def)
  have le: "X * X \<le> t \<and> X * Y \<le> t \<or> X = 0" using pow_bounds [OF n XY(2)] XY(1) by simp
  note sq = overflowing_mul_mod [OF len(2,2) XY(3,3)] and ml = overflowing_mul_mod [OF len(2,3) XY(3,4)]
  have big: "radix ^ l \<le> t" if "radix ^ l \<le> X * X \<or> radix ^ l \<le> X * Y"
    using that le by (cases "X = 0") auto
  have flag: "if ov \<or> snd (overflowing_mul x x) then radix ^ l \<le> t else X * X < radix ^ l \<and> Y < radix ^ l"
    "if ov \<or> snd (overflowing_mul x y) \<or> snd (overflowing_mul x x) then radix ^ l \<le> t
     else X * X < radix ^ l \<and> X * Y < radix ^ l"
    using XY(5) sq(3) ml(3) big by (simp_all split: if_splits)
  have pos: "0 < uval n'" using n n' by simp
  show "pow_state l t n' (fst (overflowing_mul x x)) y (ov \<or> snd (overflowing_mul x x))" if "even (uval n)"
  proof -
    have "(X * X) ^ uval n' * Y = t" "X * X = 0 \<or> 0 < Y" using pow_halves(1) [OF that, of X Y] n' XY(1,2) by auto
    with pos n'(1) len sq(1,2) XY(4) flag(1) show ?thesis unfolding pow_state_def by blast
  qed
  show "pow_state l t n' (fst (overflowing_mul x x)) (fst (overflowing_mul x y))
        (ov \<or> snd (overflowing_mul x y) \<or> snd (overflowing_mul x x))" if "odd (uval n)"
  proof -
    have "(X * X) ^ uval n' * (X * Y) = t" "X * X = 0 \<or> 0 < X * Y" using pow_halves(2) [OF that, of X Y] n' XY(1,2) by auto
    with pos n'(1) len sq(1,2) ml(1,2) flag(2) show ?thesis unfolding pow_state_def by blast
  qed
qed

lemma overflowing_pow_loop_val:
  assumes "pow_state l t n x y ov" "0 < l"
  shows "\<exists>r. overflowing_pow_loop n x y ov = Some (Inr (r, radix ^ l \<le> t)) \<and> uval r = t mod radix ^ l \<and> length r = l"
  using assms
proof (induction "uval n" arbitrary: n x y ov rule: less_induct)
  case less
  have len: "length n = l" "length x = l" "length y = l" "0 < uval n" using less.prems by (auto simp: pow_state_def)
  have ne: "n \<noteq> []" using len less.prems(2) by auto
  have gt: "uint_cmp n (uint_one (length n)) = Greater \<longleftrightarrow> 1 < uval n" using ne by (simp add: uint_cmp_order)
  show ?case
  proof (cases "1 < uval n")
    case False
    with len have one: "uval n = 1" by simp
    then obtain X Y where XY: "X * Y = t" "uval x = X mod radix ^ l" "uval y = Y mod radix ^ l"
        "if ov then radix ^ l \<le> t else X < radix ^ l \<and> Y < radix ^ l"
      using less.prems(1) by (auto simp: pow_state_def)
    note ml = overflowing_mul_mod [OF len(2,3) XY(2,3)]
    show ?thesis
      using gt False ml XY by (cases "overflowing_mul x y") (auto simp: overflowing_pow_loop.simps [of n x y] split: if_splits)
  next
    case True
    then have half: "uval n div 2 < uval n" by simp
    note step = pow_state_step [OF less.prems(1) True]
    show ?thesis
    proof (cases "even (uval n)")
      case even: True
      have "overflowing_pow_loop n x y ov =
          overflowing_pow_loop (uint_shr n 1) (fst (overflowing_mul x x)) y (ov \<or> snd (overflowing_mul x x))"
        using gt True even ne by (simp add: overflowing_pow_loop.simps [of n x y] uint_is_even_val split: prod.split)
      then show ?thesis
        using less.hyps [OF _ step(1) [of "uint_shr n 1", OF _ _ even] less.prems(2)] half len by (simp add: uint_shr_val)
    next
      case odd: False
      obtain n1 where n1: "uint_sub n (uint_one (length n)) = Inr n1" "uval n1 = uval n - 1" "length n1 = l"
        using uint_sub_val [of n "uint_one (length n)"] True ne len(1) by (cases "uint_sub n (uint_one (length n))") auto
      have v: "uval (uint_shr n1 1) = uval n div 2" using n1(2) odd by (simp add: uint_shr_val) (auto elim!: oddE)
      have "overflowing_pow_loop n x y ov =
          overflowing_pow_loop (uint_shr n1 1) (fst (overflowing_mul x x)) (fst (overflowing_mul x y))
            (ov \<or> snd (overflowing_mul x y) \<or> snd (overflowing_mul x x))"
        using gt True odd ne n1(1) by (simp add: overflowing_pow_loop.simps [of n x y] uint_is_even_val split: prod.split)
      then show ?thesis
        using less.hyps [OF _ step(2) [of "uint_shr n1 1", OF _ _ odd] less.prems(2)] half n1(3) v by simp
    qed
  qed
qed

lemma overflowing_pow_val:
  assumes "length e = length x" "0 < length x"
  shows "\<exists>r. overflowing_pow x e = Some (Inr (r, radix ^ length x \<le> uval x ^ uval e))
       \<and> uval r = uval x ^ uval e mod radix ^ length x \<and> length r = length x"
proof (cases "uval e = 0")
  case True
  have "1 < radix ^ length x" using assms(2) by (intro one_less_power) simp_all
  then show ?thesis using True assms by (simp add: overflowing_pow_def uval_is_zero)
next
  case False
  have "1 < radix ^ length x" using assms(2) by (intro one_less_power) simp_all
  with False have "pow_state (length x) (uval x ^ uval e) e x (uint_one (length x)) False"
    unfolding pow_state_def using assms uval_bound [of x]
    by (intro conjI exI [where x = "uval x"] exI [where x = 1]) simp_all
  from overflowing_pow_loop_val [OF this assms(2)] show ?thesis using False by (simp add: overflowing_pow_def uval_is_zero)
qed

section \<open>Decimal text\<close>

declare display_loop.simps [simp del]

definition digit_val :: "u8 \<Rightarrow> nat" where
  "digit_val c = unat (c - 48)"

definition dec_value :: "nat \<Rightarrow> bytes \<Rightarrow> nat" where
  "dec_value acc s = foldl (\<lambda>a c. 10 * a + digit_val c) acc s"

lemma digit_range: "digit_val c \<le> 9 \<longleftrightarrow> 48 \<le> c \<and> c \<le> 57"
  using unat_sub_if_size [of c 48] unsigned_less [of c]
  by (auto simp: digit_val_def word_le_nat_alt word_size split: if_splits)

lemma dec_value_simps [simp]:
  "dec_value acc [] = acc" "dec_value acc (c # s) = dec_value (10 * acc + digit_val c) s"
  "dec_value acc (s @ [c]) = 10 * dec_value acc s + digit_val c"
  by (simp_all add: dec_value_def)

lemma dec_value_ge: "acc \<le> dec_value acc s"
proof (induction s arbitrary: acc)
  case (Cons c s)
  show ?case using Cons [of "10 * acc + digit_val c"] by simp
qed simp

lemma from_dec_turn_val:
  assumes "digit_val c \<le> 9" "0 < length res" "10 * uval res + digit_val c < radix ^ length res"
  obtains r where "from_dec_turn c res = Inr r" "uval r = 10 * uval res + digit_val c" "length r = length res"
proof -
  obtain p k where m: "overflowing_mul_u64 res 10 = (p, k)" by fastforce
  from overflowing_mul_u64_val [OF m] have p: "uval p + radix ^ length res * unat k = uval res * 10" "length p = length res" by auto
  have k: "k = 0"
  proof (rule ccontr)
    assume "k \<noteq> 0"
    then have "radix ^ length res * 1 \<le> radix ^ length res * unat k" by (intro mult_le_mono2) (simp add: Suc_leI unat_gt_0)
    then show False using p(1) assms(3) by linarith
  qed
  define w :: u64 where "w = ucast (c - 48)"
  have w: "unat w = digit_val c" by (simp add: w_def digit_val_def unat_ucast_up)
  have "length p = length (from_u64 (length p) w)" by simp
  note add = overflowing_add_val [OF this]
  have "c - 48 \<le> 9" using assms(1) by (simp add: digit_val_def word_le_nat_alt)
  then have "from_dec_turn c res = Inr (fst (overflowing_add p (from_u64 (length p) w)))"
    using add(2) assms p k w
    by (cases "overflowing_add p (from_u64 (length p) w)") (simp add: from_dec_turn_def Let_def m not_less w_def)
  then show thesis using that add assms p k w by simp
qed

lemma from_dec_fold:
  assumes "list_all (\<lambda>c. digit_val c \<le> 9) s" "0 < length res" "dec_value (uval res) s < radix ^ length res"
  shows "\<exists>r. rfold from_dec_turn s res = Inr r \<and> uval r = dec_value (uval res) s \<and> length r = length res"
  using assms
proof (induction s arbitrary: res)
  case (Cons c s)
  have "10 * uval res + digit_val c < radix ^ length res"
    using Cons.prems(3) dec_value_ge [of "10 * uval res + digit_val c" s] by simp
  then obtain r where r: "from_dec_turn c res = Inr r" "uval r = 10 * uval res + digit_val c" "length r = length res"
    using from_dec_turn_val [of c res] Cons.prems by auto
  with Cons.prems Cons.IH [of r] show ?case by simp
qed simp

lemma display_digit: "m < 10 \<Longrightarrow> digit_val (of_nat m + 48) = m"
  by (simp add: digit_val_def unat_of_nat)

lemma low_u64_small: "0 < length d \<Longrightarrow> uval d < radix \<Longrightarrow> unat (low_u64 d) = uval d"
  using fits_word_val [of d] by (cases d) (auto simp: low_u64_def fits_word_def uval_zero_iff [symmetric])

lemma display_turn:
  assumes "0 < length cur"
  obtains q where "uval q = uval cur div 10" "length q = length cur"
    "display_loop i cur buf =
       (let buf = buf[i := of_nat (uval cur mod 10) + 48] in
        if uval q = 0 then Inr (drop i buf) else case i of 0 \<Rightarrow> Inl BufferUnderflow | Suc i \<Rightarrow> display_loop i q buf)"
proof -
  let ?ten = "from_u64 (length cur) 10"
  have len: "length cur = length ?ten" "cur \<noteq> []" "uval ?ten = 10" using assms by auto
  obtain d where d: "uint_rem cur ?ten = Inr d" "uval d = uval cur mod 10" "length d = length cur"
    using uint_rem_ok [OF len(1,2)] len(3) by auto
  obtain q where q: "uint_div cur ?ten = Inr q" "uval q = uval cur div 10" "length q = length cur"
    using uint_div_ok [OF len(1,2)] len(3) by auto
  have "uval d < 10" by (simp add: d)
  then have "uval d < radix" by (rule order.strict_trans) (simp add: radix_def)
  then have "unat (low_u64 d) = uval d" using d(3) assms by (simp add: low_u64_small)
  then have "ucast (low_u64 d) = (of_nat (uval cur mod 10) :: u8)"
    using d(2) by (simp add: word_unat_eq_iff unat_ucast_mod unat_of_nat)
  then have "display_loop i cur buf =
       (let buf = buf[i := of_nat (uval cur mod 10) + 48] in
        if uval q = 0 then Inr (drop i buf) else case i of 0 \<Rightarrow> Inl BufferUnderflow | Suc i \<Rightarrow> display_loop i q buf)"
    by (simp add: display_loop.simps [of i cur buf] Let_def d(1) q(1) uval_is_zero cong: nat.case_cong)
  with q(2,3) show thesis by (rule that)
qed

lemma display_loop_val:
  assumes "0 < length cur" "i < length buf" "uval cur < 10 ^ Suc i"
  shows "\<exists>ds. display_loop i cur buf = Inr (ds @ drop (Suc i) buf) \<and> list_all (\<lambda>c. digit_val c \<le> 9) ds
       \<and> dec_value 0 ds = uval cur"
  using assms
proof (induction i arbitrary: cur buf)
  case 0
  obtain q where q: "uval q = uval cur div 10" "display_loop 0 cur buf =
       (let buf = buf[0 := of_nat (uval cur mod 10) + 48] in
        if uval q = 0 then Inr (drop 0 buf) else case 0 of 0 \<Rightarrow> Inl BufferUnderflow | Suc i \<Rightarrow> display_loop i q buf)"
    by (rule display_turn [OF 0(1)])
  show ?case
    using q 0 display_digit [of "uval cur"] by (intro exI [of _ "[of_nat (uval cur) + 48]"]) (cases buf; simp)
next
  case (Suc i)
  obtain q where q: "uval q = uval cur div 10" "length q = length cur" "display_loop (Suc i) cur buf =
       (let buf = buf[Suc i := of_nat (uval cur mod 10) + 48] in
        if uval q = 0 then Inr (drop (Suc i) buf) else case Suc i of 0 \<Rightarrow> Inl BufferUnderflow | Suc i \<Rightarrow> display_loop i q buf)"
    by (rule display_turn [OF Suc.prems(1)])
  define c buf' where "c = (of_nat (uval cur mod 10) + 48 :: u8)" and "buf' = buf[Suc i := c]"
  have c: "digit_val c = uval cur mod 10" by (simp add: c_def display_digit)
  have tail: "drop (Suc i) buf' = c # drop (Suc (Suc i)) buf" "length buf' = length buf"
    using Suc.prems(2) by (simp_all add: buf'_def flip: Cons_nth_drop_Suc)
  show ?case
  proof (cases "uval q = 0")
    case True
    then have "display_loop (Suc i) cur buf = Inr ([c] @ drop (Suc (Suc i)) buf)"
      using q(3) tail by (simp add: c_def [symmetric] buf'_def [symmetric])
    moreover have "dec_value 0 [c] = uval cur" using True q(1) c by simp
    ultimately show ?thesis using c by (intro exI [of _ "[c]"]) simp
  next
    case False
    have "uval q < 10 ^ Suc i" using Suc.prems(3) q(1) by (simp add: less_mult_imp_div_less)
    with Suc.IH [of q buf'] Suc.prems(1,2) q(2) tail(2) obtain ds
      where ds: "display_loop i q buf' = Inr (ds @ drop (Suc i) buf')" "list_all (\<lambda>c. digit_val c \<le> 9) ds" "dec_value 0 ds = uval q"
      by auto
    have "display_loop (Suc i) cur buf = Inr ((ds @ [c]) @ drop (Suc (Suc i)) buf)"
      using False q(3) ds(1) tail by (simp add: c_def [symmetric] buf'_def [symmetric])
    moreover have "dec_value 0 (ds @ [c]) = uval cur" using ds(3) q(1) c by simp
    ultimately show ?thesis using ds(2) c by (intro exI [of _ "ds @ [c]"]) simp
  qed
qed

lemma uint_display_val:
  assumes "0 < length a"
  shows "\<exists>s. uint_display a = Inr s \<and> list_all (\<lambda>c. digit_val c \<le> 9) s \<and> dec_value 0 s = uval a"
proof (cases "uval a = 0")
  case True
  then show ?thesis by (simp add: uint_display_def uval_is_zero digit_val_def)
next
  case False
  define k where "k = length a * 20 - 1"
  have "uval a < radix ^ length a" by (rule uval_bound)
  also have "\<dots> \<le> (10 ^ 20) ^ length a" by (intro power_mono) (simp_all add: radix_def)
  also have "\<dots> = 10 ^ (20 * length a)" by (simp only: power_mult)
  also have "20 * length a = Suc k" using assms by (simp add: k_def)
  finally have "uval a < 10 ^ Suc k" .
  moreover have "k < length (replicate (length a * 20) (0::u8))" using assms by (simp add: k_def)
  ultimately obtain ds where "display_loop k a (replicate (length a * 20) 0) = Inr (ds @ drop (Suc k) (replicate (length a * 20) 0))"
      "list_all (\<lambda>c. digit_val c \<le> 9) ds" "dec_value 0 ds = uval a"
    using display_loop_val [OF assms] by blast
  moreover have "drop (Suc k) (replicate (length a * 20) (0::u8)) = []" using assms by (simp add: k_def)
  ultimately show ?thesis using False by (simp add: uint_display_def uval_is_zero k_def)
qed

section \<open>Big-endian bytes\<close>

lemma fold_from_top:
  "m \<le> n \<Longrightarrow> p < n \<Longrightarrow> length r = n \<Longrightarrow>
     fold (\<lambda>i r. r[n - i - 1 := h i]) [0..<m] r ! p = (if n - 1 - p < m then h (n - 1 - p) else r ! p)"
proof (induction m)
  case (Suc m)
  have "length (fold (\<lambda>i r. r[n - i - 1 := h i]) [0..<m] r) = n" using Suc.prems by (simp add: length_fold_keep)
  moreover have "n - m - 1 = p \<longleftrightarrow> n - 1 - p = m" using Suc.prems by auto
  ultimately show ?case using Suc by (auto simp: nth_list_update less_Suc_eq)
qed simp

lemma take_drop_concat:
  "(\<And>x. x \<in> set xs \<Longrightarrow> length (f x) = k) \<Longrightarrow> i < length xs \<Longrightarrow> take k (drop (k * i) (concat (map f xs))) = f (xs ! i)"
proof (induction xs arbitrary: i)
  case (Cons x xs)
  then show ?case by (cases i) simp_all
qed simp

lemma big_endian_round_trip: "from_big_endian (length a) (to_big_endian a) = Some a"
proof -
  have len: "length (to_big_endian a) = length a * 8"
    by (simp add: to_big_endian_def length_concat comp_def sum_list_triv)
  have "fold (\<lambda>i r. r[length a - i - 1 := from_be_bytes (take 8 (drop (8 * i) (to_big_endian a)))]) [0..<length a]
      (replicate (length a) 0) = a" (is "?f = a")
  proof (rule nth_equalityI)
    show "length ?f = length a" by (simp add: length_fold_keep)
    fix p assume "p < length ?f"
    then have p: "p < length a" by (simp add: length_fold_keep)
    then have lt: "length a - 1 - p < length a" by linarith
    have "?f ! p = from_be_bytes (take 8 (drop (8 * (length a - 1 - p)) (to_big_endian a)))"
      by (simp only: fold_from_top [OF order_refl p length_replicate] lt if_True)
    also have "\<dots> = from_be_bytes (to_be_bytes (rev a ! (length a - 1 - p)))"
      unfolding to_big_endian_def using p by (subst take_drop_concat) simp_all
    also have "\<dots> = a ! p" using p by (simp add: rev_nth from_be_to_be)
    finally show "?f ! p = a ! p" .
  qed
  then show ?thesis by (simp add: from_big_endian_def len)
qed

section \<open>The four-word type and 256-bit words\<close>

text \<open>
  The contract that a provider of checked arithmetic keeps, and a simulation between two of them.
  The words of the integer crate are one provider, the 256-bit words that the consensus rules are
  written with another.
\<close>

locale checked_arith =
  fixes num :: "'a \<Rightarrow> nat" and ok :: "'a \<Rightarrow> bool" and bound :: nat
    and plus mul quo :: "'a \<Rightarrow> 'a \<Rightarrow> 'e + 'a"
  assumes num_inj: "ok a \<Longrightarrow> ok b \<Longrightarrow> num a = num b \<Longrightarrow> a = b"
    and num_bound: "ok a \<Longrightarrow> num a < bound"
    and plus_law: "ok a \<Longrightarrow> ok b \<Longrightarrow>
      (case plus a b of Inl _ \<Rightarrow> bound \<le> num a + num b | Inr r \<Rightarrow> ok r \<and> num r = num a + num b)"
    and mul_law: "ok a \<Longrightarrow> ok b \<Longrightarrow>
      (case mul a b of Inl _ \<Rightarrow> bound \<le> num a * num b | Inr r \<Rightarrow> ok r \<and> num r = num a * num b)"
    and quo_law: "ok a \<Longrightarrow> ok b \<Longrightarrow>
      (case quo a b of Inl _ \<Rightarrow> num b = 0 | Inr r \<Rightarrow> ok r \<and> num b \<noteq> 0 \<and> num r = num a div num b)"
begin

lemma mul_quo:
  assumes "ok a" "ok b" "num b \<noteq> 0" "mul a b = Inr p"
  shows "quo p b = Inr a"
proof -
  have p: "ok p" "num p = num a * num b" using mul_law [OF assms(1,2)] assms(4) by auto
  then obtain r where "quo p b = Inr r" "ok r" "num r = num a"
    using quo_law [OF p(1) assms(2)] assms(3) by (cases "quo p b") auto
  then show ?thesis using num_inj assms(1) by simp
qed

end

locale arith_sim = lo: checked_arith num ok bound plus mul quo + hi: checked_arith num' ok' bound plus' mul' quo'
  for num :: "'a \<Rightarrow> nat" and ok bound and plus mul quo :: "'a \<Rightarrow> 'a \<Rightarrow> 'e + 'a"
    and num' :: "'b \<Rightarrow> nat" and ok' and plus' mul' quo' :: "'b \<Rightarrow> 'b \<Rightarrow> 'f + 'b" +
  fixes h :: "'a \<Rightarrow> 'b"
  assumes h_ok: "ok a \<Longrightarrow> ok' (h a)" and h_num: "ok a \<Longrightarrow> num' (h a) = num a"
begin

lemma plus_sim: "ok a \<Longrightarrow> ok b \<Longrightarrow> case plus a b of Inl _ \<Rightarrow> isl (plus' (h a) (h b)) | Inr r \<Rightarrow> plus' (h a) (h b) = Inr (h r)"
  using lo.plus_law [of a b] hi.plus_law [OF h_ok [of a] h_ok [of b]]
  by (cases "plus a b"; cases "plus' (h a) (h b)") (auto simp: h_num h_ok dest: lo.num_bound hi.num_bound intro: hi.num_inj)

lemma mul_sim: "ok a \<Longrightarrow> ok b \<Longrightarrow> case mul a b of Inl _ \<Rightarrow> isl (mul' (h a) (h b)) | Inr r \<Rightarrow> mul' (h a) (h b) = Inr (h r)"
  using lo.mul_law [of a b] hi.mul_law [OF h_ok [of a] h_ok [of b]]
  by (cases "mul a b"; cases "mul' (h a) (h b)") (auto simp: h_num h_ok dest: lo.num_bound hi.num_bound intro: hi.num_inj)

lemma quo_sim: "ok a \<Longrightarrow> ok b \<Longrightarrow> case quo a b of Inl _ \<Rightarrow> isl (quo' (h a) (h b)) | Inr r \<Rightarrow> quo' (h a) (h b) = Inr (h r)"
  using lo.quo_law [of a b] hi.quo_law [OF h_ok [of a] h_ok [of b]]
  by (cases "quo a b"; cases "quo' (h a) (h b)") (auto simp: h_num h_ok dest: lo.num_bound hi.num_bound intro: hi.num_inj)

end

definition u256_of :: "limbs \<Rightarrow> u256" where
  "u256_of a = of_nat (uval a)"

definition u256_result :: "uint_panic + limbs \<Rightarrow> consensus_error + u256" where
  "u256_result r = (case r of Inl _ \<Rightarrow> Inl ConsPanicked | Inr x \<Rightarrow> Inr (u256_of x))"

lemma radix_4: "radix ^ 4 = 2 ^ 256"
  by (simp add: radix_def)

lemma unat_u256_of: "length a = 4 \<Longrightarrow> unat (u256_of a) = uval a"
  using uval_bound [of a] by (simp add: u256_of_def unat_of_nat radix_4)

interpretation limbs256: checked_arith uval "\<lambda>a. length a = 4" "2 ^ 256" uint_add uint_mul uint_div
proof unfold_locales
  fix a b :: limbs assume len: "length a = 4" "length b = 4"
  show "uval a = uval b \<Longrightarrow> a = b" using len by (simp add: uval_inj)
  show "uval a < 2 ^ 256" using uval_bound [of a] len radix_4 by simp
  show "case uint_add a b of Inl _ \<Rightarrow> 2 ^ 256 \<le> uval a + uval b | Inr r \<Rightarrow> length r = 4 \<and> uval r = uval a + uval b"
    using uint_add_val [of a b] len radix_4 by (simp split: sum.splits)
  show "case uint_mul a b of Inl _ \<Rightarrow> 2 ^ 256 \<le> uval a * uval b | Inr r \<Rightarrow> length r = 4 \<and> uval r = uval a * uval b"
    using uint_mul_val [of a b] len radix_4 by (simp split: sum.splits)
  have "a \<noteq> []" using len by auto
  with div_mod_val [of a b] len
  show "case uint_div a b of Inl _ \<Rightarrow> uval b = 0 | Inr r \<Rightarrow> length r = 4 \<and> uval b \<noteq> 0 \<and> uval r = uval a div uval b"
    by (cases "div_mod a b") (auto simp: uint_div_def)
qed

interpretation word256: checked_arith unat "\<lambda>_. True" "2 ^ 256" u256_add u256_mul u256_div
proof unfold_locales
  fix a b :: u256
  show "unat a = unat b \<Longrightarrow> a = b" by (rule unsigned_word_eqI)
  show "unat a < 2 ^ 256" using unsigned_less [of a] by simp
  show "case u256_add a b of Inl _ \<Rightarrow> 2 ^ 256 \<le> unat a + unat b | Inr r \<Rightarrow> True \<and> unat r = unat a + unat b"
    by (simp add: u256_add_def unat_word_ariths)
  show "case u256_mul a b of Inl _ \<Rightarrow> 2 ^ 256 \<le> unat a * unat b | Inr r \<Rightarrow> True \<and> unat r = unat a * unat b"
    by (simp add: u256_mul_def unat_word_ariths)
  show "case u256_div a b of Inl _ \<Rightarrow> unat b = 0 | Inr r \<Rightarrow> True \<and> unat b \<noteq> 0 \<and> unat r = unat a div unat b"
    by (simp add: u256_div_def unat_div unat_eq_0)
qed

interpretation u256_sim: arith_sim uval "\<lambda>a. length a = 4" "2 ^ 256" uint_add uint_mul uint_div
  unat "\<lambda>_. True" u256_add u256_mul u256_div u256_of
  by unfold_locales (simp_all add: unat_u256_of)

lemma u256_shifts:
  assumes "length a = 4"
  shows "u256_of (uint_shl a s) = push_bit s (u256_of a)" "u256_of (uint_shr a s) = drop_bit s (u256_of a)"
proof (rule_tac [!] unsigned_word_eqI)
  show "unat (u256_of (uint_shl a s)) = unat (push_bit s (u256_of a))"
    using assms by (simp add: unat_u256_of uint_shl_val unat_push_bit_mod radix_4)
  show "unat (u256_of (uint_shr a s)) = unat (drop_bit s (u256_of a))"
    using assms by (simp only: unat_u256_of uint_shr_val unat_drop length_shifts)
qed

lemma unat_not: "unat (NOT w :: 'a::len word) = 2 ^ LENGTH('a) - 1 - unat w"
proof -
  have "NOT w = - 1 - w" by (simp add: not_eq_complement)
  then show ?thesis using unat_sub [of w "- 1"] by (simp add: unsigned_minus_1_eq_mask mask_eq_exp_minus_1)
qed

lemma uval_not: "uval (uint_not a) + uval a + 1 = radix ^ length a"
proof (induction a)
  case (Cons d ds)
  have "unat (NOT d) + unat d + 1 = radix" using unat_radix [of d] by (simp add: unat_not radix_def)
  moreover have "radix * uval (uint_not ds) + radix * uval ds + radix = radix * radix ^ length ds"
    by (simp flip: Cons add: distrib_left)
  ultimately show ?case by (simp add: uint_not_def)
qed (simp add: uint_not_def)

lemma u256_not: "length a = 4 \<Longrightarrow> u256_of (uint_not a) = NOT (u256_of a)"
proof (rule unsigned_word_eqI)
  assume len: "length a = 4"
  moreover have "length (uint_not a) = 4" using len by (simp add: uint_not_def)
  ultimately show "unat (u256_of (uint_not a)) = unat (NOT (u256_of a))"
    using uval_not [of a] radix_4 by (simp add: unat_not unat_u256_of)
qed

section \<open>Main results\<close>

text \<open>C9: The four-word integers of the crate implement the 256-bit words that the model of the consensus rules
  uses: checked addition, multiplication and division agree, panics included, and so do the shifts,
  the comparison and the number of bits; different word arrays are different numbers.\<close>

theorem u256_refined:
  assumes "length a = 4" "length b = 4"
  shows "u256_result (uint_add a b) = u256_add (u256_of a) (u256_of b) \<and>
    u256_result (uint_mul a b) = u256_mul (u256_of a) (u256_of b) \<and>
    u256_result (uint_div a b) = u256_div (u256_of a) (u256_of b) \<and>
    u256_of (uint_not a) = NOT (u256_of a) \<and>
    u256_of (uint_shl a s) = push_bit s (u256_of a) \<and>
    u256_of (uint_shr a s) = drop_bit s (u256_of a) \<and>
    uint_cmp a b = cmp (u256_of a) (u256_of b) \<and>
    uint_bits a = u256_bits (u256_of a) \<and>
    (u256_of a = u256_of b \<longleftrightarrow> a = b)"
proof (intro conjI)
  have panic: "isl (u256_add x y) \<Longrightarrow> u256_add x y = Inl ConsPanicked" "isl (u256_mul x y) \<Longrightarrow> u256_mul x y = Inl ConsPanicked"
    "isl (u256_div x y) \<Longrightarrow> u256_div x y = Inl ConsPanicked" for x y
    by (auto simp: u256_add_def u256_mul_def u256_div_def split: if_splits)
  show "u256_result (uint_add a b) = u256_add (u256_of a) (u256_of b)"
    using u256_sim.plus_sim [OF assms] panic(1) by (simp add: u256_result_def split: sum.splits)
  show "u256_result (uint_mul a b) = u256_mul (u256_of a) (u256_of b)"
    using u256_sim.mul_sim [OF assms] panic(2) by (simp add: u256_result_def split: sum.splits)
  show "u256_result (uint_div a b) = u256_div (u256_of a) (u256_of b)"
    using u256_sim.quo_sim [OF assms] panic(3) by (simp add: u256_result_def split: sum.splits)
  show "u256_of (uint_shl a s) = push_bit s (u256_of a)" "u256_of (uint_shr a s) = drop_bit s (u256_of a)"
    "u256_of (uint_not a) = NOT (u256_of a)"
    using u256_shifts [OF assms(1)] u256_not [OF assms(1)] by simp_all
  show "uint_cmp a b = cmp (u256_of a) (u256_of b)" "u256_of a = u256_of b \<longleftrightarrow> a = b"
    using assms unat_u256_of [of a] unat_u256_of [of b] uval_inj [of a b]
    by (auto simp: uint_cmp_val cmp_def word_less_nat_alt word_unat_eq_iff)
  have "a \<noteq> []" using assms by auto
  then show "uint_bits a = u256_bits (u256_of a)" using assms by (simp add: uint_bits_val u256_bits_def unat_u256_of)
qed

theorem u256_refined_witness:
  "u256_result (uint_mul [0, 3, 0, 0] [5, 0, 1, 0]) = u256_mul (u256_of [0, 3, 0, 0]) (u256_of [5, 0, 1, 0])"
  using u256_refined [of "[0, 3, 0, 0]" "[5, 0, 1, 0]"] by simp

text \<open>C8: Division of two integers of the same number of words panics exactly when the divisor is zero, and otherwise
  returns the quotient and the remainder of the numbers, whichever of the three branches of \<open>div_mod\<close>
  runs: the early return, the division by one word, or Algorithm D with its corrected and added-back
  digits.\<close>

theorem div_mod_correct:
  assumes "length a = length b" "a \<noteq> []"
  shows "(uval b = 0 \<longrightarrow> div_mod a b = Inl DivisionByZero) \<and>
    (uval b \<noteq> 0 \<longrightarrow>
      (\<exists>q r. div_mod a b = Inr (q, r) \<and> length q = length a \<and> length r = length a
         \<and> uval q = uval a div uval b \<and> uval r = uval a mod uval b))"
  using div_mod_val [OF assms] by (cases "div_mod a b") (auto split: prod.splits)

theorem div_mod_correct_witness:
  "\<exists>q r. div_mod [5, 7, - 1, 3] [1, 2, - 1, 0] = Inr (q, r) \<and> length q = length [5, 7, - 1, 3 :: u64] \<and>
     length r = length [5, 7, - 1, 3 :: u64] \<and> uval q = uval [5, 7, - 1, 3] div uval [1, 2, - 1, 0] \<and>
     uval r = uval [5, 7, - 1, 3] mod uval [1, 2, - 1, 0]"
proof -
  have "uval [1, 2, - 1, 0] \<noteq> 0" by simp
  then show ?thesis using div_mod_correct [of "[5, 7, - 1, 3]" "[1, 2, - 1, 0]"] by simp
qed

text \<open>C10: \<open>integer_sqrt\<close> returns, without a panic, the largest integer whose square is at most the argument.\<close>

theorem integer_sqrt_correct:
  assumes "a \<noteq> []"
  shows "\<exists>r. integer_sqrt a = Some (Inr r) \<and> length r = length a
    \<and> uval r * uval r \<le> uval a \<and> uval a < (uval r + 1) * (uval r + 1)"
proof (cases "uval a \<le> 1")
  case True
  then have "integer_sqrt a = Some (Inr a)" using assms by (simp add: integer_sqrt_def uint_cmp_order Let_def)
  moreover have "uval a = 0 \<or> uval a = 1" using True by linarith
  ultimately show ?thesis by auto
next
  case False
  define k where "k = (uint_bits a + 1) div 2"
  define x where "x = uint_shl (uint_one (length a)) k"
  have pos: "0 < uval a" using False by simp
  note start = sqrt_start [OF assms pos, folded k_def]
  have "2 ^ k < radix ^ length a" using start(2) by linarith
  then have x: "uval x = 2 ^ k" "length x = length a" using assms by (simp_all add: x_def uint_shl_val)
  have "uval a < (uval x + 1) * (uval x + 1)" unfolding x(1) using start(1) by (simp add: algebra_simps)
  moreover have "2 * uval x + 2 < radix ^ length a" "0 < uval x" using start(2) by (simp_all add: x(1))
  moreover have "integer_sqrt a = sqrt_loop a x"
    using False assms by (simp add: integer_sqrt_def uint_cmp_order Let_def x_def k_def)
  ultimately show ?thesis using sqrt_loop_val [OF x(2) pos] by simp
qed

theorem integer_sqrt_correct_witness:
  "\<exists>r. integer_sqrt [0, 9] = Some (Inr r) \<and> length r = Suc (Suc 0) \<and> uval r * uval r \<le> 9 * radix \<and> 9 * radix < (uval r + 1) * (uval r + 1)"
  using integer_sqrt_correct [of "[0, 9]"] by (simp add: mult.commute)

text \<open>C11: Exponentiation by squaring returns the power when it fits and reports the overflow when it does not:
  \<open>pow\<close> for every exponent that is even or below half the range, \<open>overflowing_pow\<close>, which also gives the
  power modulo the range, for every exponent.\<close>

theorem pow_correct:
  assumes "length e = length x" "x \<noteq> []"
  shows "((even (uval e) \<or> uval e < radix ^ length x div 2) \<longrightarrow>
      (if uval x ^ uval e < radix ^ length x
       then \<exists>r. uint_pow x e = Some (Inr r) \<and> uval r = uval x ^ uval e \<and> length r = length x
       else uint_pow x e = Some (Inl ArithmeticOverflow))) \<and>
    (\<exists>r. overflowing_pow x e = Some (Inr (r, radix ^ length x \<le> uval x ^ uval e))
       \<and> uval r = uval x ^ uval e mod radix ^ length x \<and> length r = length x)"
proof (intro conjI impI)
  have pos: "0 < length x" using assms(2) by simp
  show "\<exists>r. overflowing_pow x e = Some (Inr (r, radix ^ length x \<le> uval x ^ uval e))
       \<and> uval r = uval x ^ uval e mod radix ^ length x \<and> length r = length x"
    by (rule overflowing_pow_val [OF assms(1) pos])
  assume "even (uval e) \<or> uval e < radix ^ length x div 2"
  then obtain res where res: "uint_pow x e = Some res" "pow_result (length x) (uval x ^ uval e) res"
    using uint_pow_val [OF assms(1) pos] by auto
  have "uval x ^ uval e < radix ^ length x" if "pow_result (length x) (uval x ^ uval e) (Inr r)" for r
    using that uval_bound [of r] by (simp add: pow_result_def)
  then show "if uval x ^ uval e < radix ^ length x
       then \<exists>r. uint_pow x e = Some (Inr r) \<and> uval r = uval x ^ uval e \<and> length r = length x
       else uint_pow x e = Some (Inl ArithmeticOverflow)"
    using res by (cases res) (auto simp: pow_result_def)
qed

theorem pow_correct_witness:
  "(\<exists>r. uint_pow [3, 0] [5, 0] = Some (Inr r) \<and> uval r = 243 \<and> length r = Suc (Suc 0)) \<and>
   uint_pow [0, 1] [2, 0] = Some (Inl ArithmeticOverflow)"
  using pow_correct [of "[5, 0]" "[3, 0]"] pow_correct [of "[2, 0]" "[0, 1]"]
  by (simp add: radix_def)

text \<open>For an odd exponent with the topmost bit set, \<open>pow\<close> clears that bit in place of the last one: raising \<open>x\<close>
  to the power \<open>2 ^ (64 * n - 1) + 1\<close> returns the cube of \<open>x\<close> where an overflow should be reported.\<close>

theorem pow_top_bit_lost:
  assumes "length e = length x" "x \<noteq> []" "uval e = radix ^ length x div 2 + 1" "uval x * uval x * uval x < radix ^ length x"
  shows "\<exists>r. uint_pow x e = Some (Inr r) \<and> uval r = uval x * uval x * uval x"
proof -
  have ne: "e \<noteq> []" using assms(1,2) by auto
  obtain k where k: "length x = Suc k" using assms(2) by (cases x) auto
  have half: "radix ^ length x div 2 = radix ^ k * 2 ^ 63" by (simp add: k radix_def)
  have gt: "uint_cmp e (uint_one (length e)) = Greater" using ne assms(3) half by (simp add: uint_cmp_order)
  have odd: "\<not> uint_is_even e" using ne assms(3) half by (simp add: uint_is_even_val)
  have "uval (clear_last_bit e) = (radix ^ k * 2 ^ 63 + 1) mod (radix ^ k * 2 ^ 63)"
    using clear_last_bit_val(1) [OF ne] assms(1,3) half by simp
  also have "\<dots> = 1 mod (radix ^ k * 2 ^ 63)" by (rule mod_add_self1)
  also have "\<dots> = 1"
  proof -
    have "1 * 1 < radix ^ k * 2 ^ 63" by (intro mult_le_less_imp_less) simp_all
    then show ?thesis by simp
  qed
  finally have zero: "uval (uint_shr (clear_last_bit e) 1) = 0" by (simp add: uint_shr_val)
  have sq_le: "uval x * uval x < radix ^ length x"
    using assms(4) by (cases "uval x") (auto intro: le_less_trans)
  have small: "uval x * 1 < radix ^ length x" using uval_bound [of x] by simp
  obtain y where y: "uint_mul x (uint_one (length x)) = Inr y" "uval y = uval x" "length y = length x"
    using uint_mul_val [of x "uint_one (length x)"] small assms(2) by (cases "uint_mul x (uint_one (length x))") auto
  obtain s where s: "uint_mul x x = Inr s" "uval s = uval x * uval x" "length s = length x"
    using uint_mul_val [of x x] sq_le by (cases "uint_mul x x") auto
  obtain r where r: "uint_mul s y = Inr r" "uval r = uval x * uval x * uval x"
    using uint_mul_val [of s y] s y assms(4) by (cases "uint_mul s y") auto
  have "uint_pow x e = pow_loop (uint_shr (clear_last_bit e) 1) s y"
    using gt odd y s assms(3) by (simp add: uint_pow_def uval_is_zero pow_loop.simps [of e])
  also have "\<dots> = Some (Inr r)"
    using zero r clear_last_bit_val(2) [OF ne] ne by (subst pow_loop.simps) (simp add: uint_cmp_order)
  finally show ?thesis using r by simp
qed

theorem pow_top_bit_lost_witness:
  "\<exists>r. uint_pow [2, 0] [1, 0x8000000000000000] = Some (Inr r) \<and> uval r = 8"
  using pow_top_bit_lost [of "[1, 0x8000000000000000]" "[2, 0]"] by (simp add: radix_def)

text \<open>C12: The decimal text of an integer is written without a panic, consists of digits, and is read back as the
  integer.\<close>

theorem decimal_round_trip:
  assumes "a \<noteq> []"
  shows "\<exists>s. uint_display a = Inr s \<and> list_all (\<lambda>c. 48 \<le> c \<and> c \<le> 57) s \<and> from_dec_str (length a) s = Inr a"
proof -
  have pos: "0 < length a" using assms by simp
  obtain s where s: "uint_display a = Inr s" "list_all (\<lambda>c. digit_val c \<le> 9) s" "dec_value 0 s = uval a"
    using uint_display_val [OF pos] by blast
  obtain r where r: "rfold from_dec_turn s (uint_zero (length a)) = Inr r" "uval r = dec_value 0 s" "length r = length a"
    using from_dec_fold [OF s(2), of "uint_zero (length a)"] pos s(3) uval_bound [of a] by auto
  have "r = a" using uval_inj [OF r(3)] r(2) s(3) by simp
  with r(1) have "from_dec_str (length a) s = Inr a" by (simp add: from_dec_str_def)
  moreover have "list_all (\<lambda>c. 48 \<le> c \<and> c \<le> 57) s" using s(2) by (simp add: list_all_iff digit_range)
  ultimately show ?thesis using s(1) by blast
qed

theorem decimal_round_trip_witness:
  "\<exists>s. uint_display [1, 2] = Inr s \<and> list_all (\<lambda>c. 48 \<le> c \<and> c \<le> 57) s \<and> from_dec_str (length [1, 2 :: u64]) s = Inr [1, 2]"
  by (rule decimal_round_trip) simp

end
