(* ===== verification/Rlp.thy ===== *)
theory Rlp
  imports Compact
begin

text \<open>
  Recursive length prefix encoding (\<open>common/rlp/src\<close>): the stream encoder of \<open>stream.rs\<close>, which reserves
  one byte for the prefix of a list, counts the items appended to each open list and inserts the
  length when the last one arrives, and the view of \<open>rlpin.rs\<close>, which finds items by index and keeps the
  offset of the last one found.  The reference is the recursive definition of the format on trees
  of byte strings.  Lengths and offsets are \<open>usize\<close> values below \<open>2 ^ 64\<close> and modelled by \<open>nat\<close>; where
  the source checks an addition the check is written out.
\<close>

section \<open>The stream\<close>

datatype rlp_panic = TooManyItems | StreamNotFinished | NoOpenList | ListTypeMismatch | PositionOutOfRange

record list_info =
  li_position :: nat
  li_current :: nat
  li_max :: "nat option"

record rlp_stream =
  rs_lists :: "list_info list"
  rs_start :: nat
  rs_buffer :: bytes
  rs_finished :: bool

definition new_with_buffer :: "bytes \<Rightarrow> rlp_stream" where
  "new_with_buffer buf = \<lparr>rs_lists = [], rs_start = length buf, rs_buffer = buf, rs_finished = False\<rparr>"

definition stream_new :: rlp_stream where
  "stream_new = new_with_buffer []"

definition total_written :: "rlp_stream \<Rightarrow> nat" where
  "total_written s = length (rs_buffer s) - rs_start s"

definition put_bytes :: "bytes \<Rightarrow> rlp_stream \<Rightarrow> rlp_stream" where
  "put_bytes bs s = s\<lparr>rs_buffer := rs_buffer s @ bs\<rparr>"

definition poke :: "nat \<Rightarrow> u8 \<Rightarrow> rlp_stream \<Rightarrow> rlp_panic + rlp_stream" where
  "poke i b s =
     (if i < length (rs_buffer s) then Inr (s\<lparr>rs_buffer := (rs_buffer s)[i := b]\<rparr>) else Inl PositionOutOfRange)"

definition rotate_right :: "nat \<Rightarrow> 'a list \<Rightarrow> 'a list" where
  "rotate_right k xs = drop (length xs - k) xs @ take (length xs - k) xs"

definition leading_empty_bytes :: "'a::len word \<Rightarrow> nat" where
  "leading_empty_bytes w = (LENGTH('a) - bit_length (unat w)) div 8"

text \<open>The length is cast to 32 bits before it is written.\<close>

definition insert_size :: "nat \<Rightarrow> nat \<Rightarrow> rlp_stream \<Rightarrow> rlp_panic + (u8 \<times> rlp_stream)" where
  "insert_size sz pos s =
     (let sz = of_nat sz :: u32;
          leading = leading_empty_bytes sz;
          size_bytes = 4 - of_nat leading :: u8
      in if \<not> pos \<le> total_written s then Inl PositionOutOfRange
         else
           (let s = put_bytes (drop leading (to_be_bytes sz)) s;
                at = rs_start s + pos
            in Inr (size_bytes,
                 s\<lparr>rs_buffer := take at (rs_buffer s) @ rotate_right (unat size_bytes) (drop at (rs_buffer s))\<rparr>)))"

definition insert_list_payload :: "nat \<Rightarrow> nat \<Rightarrow> rlp_stream \<Rightarrow> rlp_panic + rlp_stream" where
  "insert_list_payload len pos s =
     (if len \<le> 55 then poke (rs_start s + pos - 1) (0xc0 + of_nat len) s
      else
        rbind (insert_size len pos s) (\<lambda>(inserted, s).
          poke (rs_start s + pos - 1) (0xf7 + inserted) s))"

definition encode_value :: "bytes \<Rightarrow> rlp_stream \<Rightarrow> rlp_panic + rlp_stream" where
  "encode_value val s =
     (let len = length val in
      if len = 0 then Inr (put_bytes [0x80] s)
      else if len \<le> 55 then
        (let first = val ! 0 in
         if len = 1 \<and> first < 0x80 then Inr (put_bytes [first] s)
         else Inr (put_bytes (drop 1 val) (put_bytes [first] (put_bytes [0x80 + of_nat len] s))))
      else
        (let s = put_bytes [0] s; pos = total_written s in
         rbind (insert_size len pos s) (\<lambda>(inserted, s).
           rbind (poke (rs_start s + pos - 1) (0xb7 + inserted) s) (\<lambda>s. Inr (put_bytes val s)))))"

text \<open>
  \<open>note_appended\<close> closes the innermost list when it is complete, which counts as an item of the next
  one.  \<open>insert_list_payload\<close> leaves the open lists alone; they are written out again for the
  termination proof only.
\<close>

function note_appended :: "nat \<Rightarrow> rlp_stream \<Rightarrow> rlp_panic + rlp_stream" where
  "note_appended inserted_items s =
     (if rs_lists s = [] then Inr s
      else
        (let x = (last (rs_lists s))\<lparr>li_current := li_current (last (rs_lists s)) + inserted_items\<rparr>;
             s = s\<lparr>rs_lists := butlast (rs_lists s) @ [x]\<rparr>
         in case li_max x of
              None \<Rightarrow> Inr (s\<lparr>rs_finished := False\<rparr>)
            | Some mx \<Rightarrow>
                if mx < li_current x then Inl TooManyItems
                else if li_current x = mx then
                  (let s = s\<lparr>rs_lists := butlast (rs_lists s)\<rparr>; len = total_written s - li_position x in
                   case insert_list_payload len (li_position x) s of
                     Inl e \<Rightarrow> Inl e
                   | Inr s' \<Rightarrow>
                       (case note_appended 1 (s'\<lparr>rs_lists := rs_lists s\<rparr>) of
                          Inl e \<Rightarrow> Inl e
                        | Inr s'' \<Rightarrow> Inr (s''\<lparr>rs_finished := True\<rparr>)))
                else Inr (s\<lparr>rs_finished := False\<rparr>)))"
  by pat_completeness auto
termination
  by (relation "measure (\<lambda>(_, s). length (rs_lists s))") (auto simp: length_butlast)

declare note_appended.simps [simp del]

definition append_empty_data :: "rlp_stream \<Rightarrow> rlp_panic + rlp_stream" where
  "append_empty_data s = note_appended 1 (put_bytes [0x80] s)"

definition append_raw :: "bytes \<Rightarrow> nat \<Rightarrow> rlp_stream \<Rightarrow> rlp_panic + rlp_stream" where
  "append_raw bs item_count s = note_appended item_count (put_bytes bs s)"

definition begin_list :: "nat \<Rightarrow> rlp_stream \<Rightarrow> rlp_panic + rlp_stream" where
  "begin_list len s =
     (let s = s\<lparr>rs_finished := False\<rparr> in
      if len = 0 then rbind (note_appended 1 (put_bytes [0xc0] s)) (\<lambda>s. Inr (s\<lparr>rs_finished := True\<rparr>))
      else
        (let s = put_bytes [0] s in
         Inr (s\<lparr>rs_lists := rs_lists s @ [\<lparr>li_position = total_written s, li_current = 0, li_max = Some len\<rparr>]\<rparr>)))"

definition begin_unbounded_list :: "rlp_stream \<Rightarrow> rlp_stream" where
  "begin_unbounded_list s =
     (let s = put_bytes [0] (s\<lparr>rs_finished := False\<rparr>) in
      s\<lparr>rs_lists := rs_lists s @ [\<lparr>li_position = total_written s, li_current = 0, li_max = None\<rparr>]\<rparr>)"

definition finalize_unbounded_list :: "rlp_stream \<Rightarrow> rlp_panic + rlp_stream" where
  "finalize_unbounded_list s =
     (if rs_lists s = [] then Inl NoOpenList
      else
        (let x = last (rs_lists s); s = s\<lparr>rs_lists := butlast (rs_lists s)\<rparr> in
         if li_max x \<noteq> None then Inl ListTypeMismatch
         else
           rbind (insert_list_payload (total_written s - li_position x) (li_position x) s) (\<lambda>s.
           rbind (note_appended 1 s) (\<lambda>s. Inr (s\<lparr>rs_finished := True\<rparr>)))))"

text \<open>\<open>append\<close> for a value whose \<open>rlp_append\<close> is the argument.\<close>

definition append_with :: "(rlp_stream \<Rightarrow> rlp_panic + rlp_stream) \<Rightarrow> rlp_stream \<Rightarrow> rlp_panic + rlp_stream" where
  "append_with rlp_append s =
     rbind (rlp_append (s\<lparr>rs_finished := False\<rparr>)) (\<lambda>s. if \<not> rs_finished s then note_appended 1 s else Inr s)"

definition append_list_with :: "('v \<Rightarrow> rlp_stream \<Rightarrow> rlp_panic + rlp_stream) \<Rightarrow> 'v list \<Rightarrow> rlp_stream \<Rightarrow> rlp_panic + rlp_stream" where
  "append_list_with rlp_append vs s =
     rbind (begin_list (length vs) s) (rfold (\<lambda>v. append_with (rlp_append v)) vs)"

definition estimate_size :: "rlp_stream \<Rightarrow> nat \<Rightarrow> nat" where
  "estimate_size s add =
     (let total_size = total_written s + add in
      fold (\<lambda>l base_size.
          let len = total_size - li_position l in
          if 55 < len then base_size + (8 - leading_empty_bytes (of_nat len :: u64)) else base_size)
        (rs_lists s) total_size)"

definition append_raw_checked :: "bytes \<Rightarrow> nat \<Rightarrow> nat \<Rightarrow> rlp_stream \<Rightarrow> rlp_panic + (bool \<times> rlp_stream)" where
  "append_raw_checked bs item_count max_size s =
     (if max_size < estimate_size s (length bs) then Inr (False, s)
      else rbind (append_raw bs item_count s) (\<lambda>s. Inr (True, s)))"

definition stream_clear :: "rlp_stream \<Rightarrow> rlp_stream" where
  "stream_clear s = s\<lparr>rs_buffer := take (rs_start s) (rs_buffer s), rs_lists := []\<rparr>"

definition is_finished :: "rlp_stream \<Rightarrow> bool" where
  "is_finished s \<longleftrightarrow> rs_lists s = []"

definition stream_out :: "rlp_stream \<Rightarrow> rlp_panic + bytes" where
  "stream_out s = (if is_finished s then Inr (rs_buffer s) else Inl StreamNotFinished)"

text \<open>\<open>rlp::encode\<close> and \<open>rlp::encode_list\<close>.\<close>

definition rlp_encode_with :: "(rlp_stream \<Rightarrow> rlp_panic + rlp_stream) \<Rightarrow> rlp_panic + bytes" where
  "rlp_encode_with rlp_append = rbind (append_with rlp_append stream_new) stream_out"

definition encode_list_with :: "('v \<Rightarrow> rlp_stream \<Rightarrow> rlp_panic + rlp_stream) \<Rightarrow> 'v list \<Rightarrow> rlp_panic + bytes" where
  "encode_list_with rlp_append vs = rbind (append_list_with rlp_append vs stream_new) stream_out"

text \<open>The values of the standard types (\<open>impls.rs\<close>): an integer is written without leading zero bytes.\<close>

definition append_u8 :: "u8 \<Rightarrow> rlp_stream \<Rightarrow> rlp_panic + rlp_stream" where
  "append_u8 w = (if w \<noteq> 0 then encode_value [w] else encode_value [])"

definition append_uint :: "'a::len word \<Rightarrow> rlp_stream \<Rightarrow> rlp_panic + rlp_stream" where
  "append_uint w = encode_value (drop (leading_empty_bytes w) (to_be_bytes w))"

definition append_bool :: "bool \<Rightarrow> rlp_stream \<Rightarrow> rlp_panic + rlp_stream" where
  "append_bool b = append_u8 (of_bool b)"

definition append_option :: "('v \<Rightarrow> rlp_stream \<Rightarrow> rlp_panic + rlp_stream) \<Rightarrow> 'v option \<Rightarrow> rlp_stream \<Rightarrow> rlp_panic + rlp_stream" where
  "append_option rlp_append v s =
     (case v of None \<Rightarrow> begin_list 0 s | Some x \<Rightarrow> rbind (begin_list 1 s) (append_with (rlp_append x)))"

section \<open>The view\<close>

datatype decoder_error =
    RlpIsTooBig | RlpIsTooShort | RlpExpectedToBeList | RlpExpectedToBeData | RlpIncorrectListLen
  | RlpDataLenWithZeroPrefix | RlpInvalidIndirection | RlpInconsistentLengthAndData | RlpInvalidLength
  | RlpCustom string | RlpPanicked

record payload_info =
  header_len :: nat
  value_len :: nat

record rlp =
  rv_bytes :: bytes
  rv_offset :: "(nat \<times> nat) option"
  rv_count :: "nat option"

definition rlp_new :: "bytes \<Rightarrow> rlp" where
  "rlp_new bs = \<lparr>rv_bytes = bs, rv_offset = None, rv_count = None\<rparr>"

text \<open>At most eight bytes, the first not zero; the shifts and the sum stay within \<open>usize\<close>.\<close>

definition decode_usize :: "bytes \<Rightarrow> decoder_error + nat" where
  "decode_usize bs =
     (let l = length bs in
      if l \<le> 8 then
        (if bs = [] then Inl RlpPanicked
         else if bs ! 0 = 0 then Inl RlpInvalidIndirection
         else Inr (unat (fold (\<lambda>(i, b) res. res + push_bit ((l - 1 - i) * 8) (ucast b)) (enumerate 0 bs) (0 :: u64))))
      else Inl RlpIsTooBig)"

definition calculate_payload_info :: "bytes \<Rightarrow> nat \<Rightarrow> decoder_error + payload_info" where
  "calculate_payload_info header_bytes len_of_len =
     (let hl = 1 + len_of_len in
      if length header_bytes \<le> 1 then Inl RlpIsTooShort
      else if header_bytes ! 1 = 0 then Inl RlpDataLenWithZeroPrefix
      else if length header_bytes < hl then Inl RlpIsTooShort
      else
        rbind (decode_usize (take len_of_len (drop 1 header_bytes))) (\<lambda>vl.
          if vl \<le> 55 then Inl RlpInvalidIndirection else Inr \<lparr>header_len = hl, value_len = vl\<rparr>))"

definition payload_info_from :: "bytes \<Rightarrow> decoder_error + payload_info" where
  "payload_info_from header_bytes =
     (case header_bytes of
        [] \<Rightarrow> Inl RlpIsTooShort
      | l # _ \<Rightarrow>
          if l \<le> 0x7f then Inr \<lparr>header_len = 0, value_len = 1\<rparr>
          else if l \<le> 0xb7 then Inr \<lparr>header_len = 1, value_len = unat l - 0x80\<rparr>
          else if l \<le> 0xbf then calculate_payload_info header_bytes (unat l - 0xb7)
          else if l \<le> 0xf7 then Inr \<lparr>header_len = 1, value_len = unat l - 0xc0\<rparr>
          else calculate_payload_info header_bytes (unat l - 0xf7))"

definition payload_total :: "payload_info \<Rightarrow> nat" where
  "payload_total pi = header_len pi + value_len pi"

text \<open>\<open>BasicDecoder::payload_info\<close>: the item has to lie within the bytes.\<close>

definition payload_info_of :: "bytes \<Rightarrow> decoder_error + payload_info" where
  "payload_info_of bs =
     rbind (payload_info_from bs) (\<lambda>item.
       if header_len item + value_len item < 2 ^ 64 \<and> header_len item + value_len item \<le> length bs
       then Inr item else Inl RlpIsTooShort)"

definition decode_value :: "bytes \<Rightarrow> (bytes \<Rightarrow> decoder_error + 'v) \<Rightarrow> decoder_error + 'v" where
  "decode_value bs f =
     (case bs of
        [] \<Rightarrow> Inl RlpIsTooShort
      | l # _ \<Rightarrow>
          if l \<le> 0x7f then f [l]
          else if l \<le> 0xb7 then
            (let last_index_of = 1 + unat l - 0x80 in
             if length bs < last_index_of then Inl RlpInconsistentLengthAndData
             else
               (let d = take (last_index_of - 1) (drop 1 bs) in
                if l = 0x81 \<and> d ! 0 < 0x80 then Inl RlpInvalidIndirection else f d))
          else if l \<le> 0xbf then
            (let len_of_len = unat l - 0xb7; begin_of_value = 1 + len_of_len in
             if length bs < begin_of_value then Inl RlpInconsistentLengthAndData
             else
               rbind (decode_usize (take len_of_len (drop 1 bs))) (\<lambda>len.
                 if \<not> begin_of_value + len < 2 ^ 64 then Inl RlpInvalidLength
                 else if length bs < begin_of_value + len then Inl RlpInconsistentLengthAndData
                 else f (take len (drop begin_of_value bs))))
          else Inl RlpExpectedToBeData)"

definition is_null :: "rlp \<Rightarrow> bool" where
  "is_null r \<longleftrightarrow> rv_bytes r = []"

definition is_list :: "rlp \<Rightarrow> bool" where
  "is_list r \<longleftrightarrow> \<not> is_null r \<and> rv_bytes r ! 0 \<ge> 0xc0"

definition is_data :: "rlp \<Rightarrow> bool" where
  "is_data r \<longleftrightarrow> \<not> is_null r \<and> rv_bytes r ! 0 < 0xc0"

definition rlp_is_empty :: "rlp \<Rightarrow> bool" where
  "rlp_is_empty r \<longleftrightarrow> \<not> is_null r \<and> (rv_bytes r ! 0 = 0xc0 \<or> rv_bytes r ! 0 = 0x80)"

definition rlp_data :: "rlp \<Rightarrow> decoder_error + bytes" where
  "rlp_data r = rbind (payload_info_of (rv_bytes r)) (\<lambda>pi. Inr (take (value_len pi) (drop (header_len pi) (rv_bytes r))))"

definition rlp_size :: "rlp \<Rightarrow> nat" where
  "rlp_size r = (if is_data r then (case payload_info_of (rv_bytes r) of Inl _ \<Rightarrow> 0 | Inr b \<Rightarrow> value_len b) else 0)"

definition consume :: "bytes \<Rightarrow> nat \<Rightarrow> decoder_error + bytes" where
  "consume bs len = (if len \<le> length bs then Inr (drop len bs) else Inl RlpIsTooShort)"

definition consume_list_payload :: "bytes \<Rightarrow> decoder_error + (bytes \<times> nat)" where
  "consume_list_payload bs =
     rbind (payload_info_of bs) (\<lambda>item.
       if length bs < header_len item + value_len item then Inl RlpIsTooShort
       else Inr (take (value_len item) (drop (header_len item) bs), header_len item))"

definition consume_turn :: "bytes \<times> nat \<Rightarrow> decoder_error + (bytes \<times> nat)" where
  "consume_turn acc =
     (let (result, consumed) = acc in
      rbind (payload_info_of result) (\<lambda>i.
        let to_consume = header_len i + value_len i in
        rbind (consume result to_consume) (\<lambda>result. Inr (result, consumed + to_consume))))"

definition consume_items :: "bytes \<Rightarrow> nat \<Rightarrow> decoder_error + (bytes \<times> nat)" where
  "consume_items bs items = rfold (\<lambda>_. consume_turn) [0..<items] (bs, 0)"

text \<open>The view is read through interior mutability: finding an item stores its index and offset.\<close>

definition at_start :: "rlp \<Rightarrow> nat \<Rightarrow> decoder_error + (bytes \<times> nat \<times> nat)" where
  "at_start r index =
     (let fresh = rbind (consume_list_payload (rv_bytes r)) (\<lambda>(bs, consumed). Inr (bs, index, consumed)) in
      case rv_offset r of
        Some (cache_index, cache_offset) \<Rightarrow>
          if cache_index \<le> index
          then rbind (consume (rv_bytes r) cache_offset) (\<lambda>bs. Inr (bs, index - cache_index, cache_offset))
          else fresh
      | None \<Rightarrow> fresh)"

definition at_with_offset :: "nat \<Rightarrow> (rlp, decoder_error, rlp \<times> nat) action" where
  "at_with_offset index r =
     (if \<not> is_list r then (Inl RlpExpectedToBeList, r)
      else
        bind (lift_res (rbind (at_start r index) (\<lambda>(bs, indexes_to_skip, bytes_consumed).
                rbind (consume_items bs indexes_to_skip) (\<lambda>(bs, consumed). Inr (bs, bytes_consumed + consumed)))))
          (\<lambda>(bs, offset).
            bind (modify (\<lambda>r. r\<lparr>rv_offset := Some (index, offset)\<rparr>)) (\<lambda>_.
            bind (lift_res (payload_info_of bs)) (\<lambda>found.
              ret (rlp_new (take (header_len found + value_len found) bs), offset)))) r)"

definition rlp_at :: "nat \<Rightarrow> (rlp, decoder_error, rlp) action" where
  "rlp_at index = bind (at_with_offset index) (\<lambda>(r, _). ret r)"

text \<open>\<open>iter().count()\<close>: the items are counted until the first index that is not found.\<close>

partial_function (option) count_loop :: "nat \<Rightarrow> rlp \<Rightarrow> (nat \<times> rlp) option" where
  "count_loop index r =
     (case rlp_at index r of
        (Inl _, r) \<Rightarrow> Some (index, r)
      | (Inr _, r) \<Rightarrow> count_loop (Suc index) r)"

definition item_count :: "rlp \<Rightarrow> ((decoder_error + nat) \<times> rlp) option" where
  "item_count r =
     (if is_list r then
        (case rv_count r of
           Some c \<Rightarrow> Some (Inr c, r)
         | None \<Rightarrow> (case count_loop 0 r of None \<Rightarrow> None | Some (c, r) \<Rightarrow> Some (Inr c, r\<lparr>rv_count := Some c\<rparr>)))
      else Some (Inl RlpExpectedToBeList, r))"

text \<open>Decoding of the standard types.\<close>

definition decode_vec :: "bytes \<Rightarrow> decoder_error + bytes" where
  "decode_vec bs = decode_value bs Inr"

definition decode_u8 :: "bytes \<Rightarrow> decoder_error + u8" where
  "decode_u8 bs =
     decode_value bs (\<lambda>d.
       if length d = 1 \<and> d ! 0 \<noteq> 0 then Inr (d ! 0)
       else if length d = 0 then Inr 0
       else if length d = 1 then Inl RlpInvalidIndirection
       else Inl RlpIsTooBig)"

definition decode_uint :: "bytes \<Rightarrow> decoder_error + 'a::len word" where
  "decode_uint bs =
     decode_value bs (\<lambda>d.
       let l = length d in
       if l \<le> 1 then rbind (decode_u8 bs) (\<lambda>v. Inr (ucast v))
       else if l \<le> LENGTH('a) div 8 then
         (if d ! 0 = 0 then Inl RlpInvalidIndirection
          else Inr (fold (\<lambda>(i, b) res. res + push_bit ((l - 1 - i) * 8) (ucast b)) (enumerate 0 d) 0))
       else Inl RlpIsTooBig)"

definition decode_bool :: "bytes \<Rightarrow> decoder_error + bool" where
  "decode_bool bs =
     rbind (decode_u8 bs) (\<lambda>w.
       if w = 0 then Inr False else if w = 1 then Inr True else Inl (RlpCustom ''invalid boolean value''))"

end
