(* ===== verification/Rlp_Props.thy ===== *)
theory Rlp_Props
  imports Rlp
begin

text \<open>
  The stream encoder of \<open>Rlp\<close> against the recursive definition of the format, and the view against
  both: what was written is found again, item by item, with or without the offset cache.
\<close>

section \<open>The format\<close>

datatype rlp_item = Data bytes | Items "rlp_item list"

fun be_min :: "nat \<Rightarrow> bytes" where
  "be_min n = (if n = 0 then [] else be_min (n div 256) @ [of_nat n])"

declare be_min.simps [simp del]

definition len_prefix :: "u8 \<Rightarrow> nat \<Rightarrow> bytes" where
  "len_prefix base n = (if n \<le> 55 then [base + of_nat n] else (base + 55 + of_nat (length (be_min n))) # be_min n)"

definition data_spec :: "bytes \<Rightarrow> bytes" where
  "data_spec d = (if length d = 1 \<and> d ! 0 < 0x80 then d else len_prefix 0x80 (length d) @ d)"

definition list_spec :: "bytes \<Rightarrow> bytes" where
  "list_spec payload = len_prefix 0xc0 (length payload) @ payload"

fun rlp_spec :: "rlp_item \<Rightarrow> bytes" where
  "rlp_spec (Data d) = data_spec d"
| "rlp_spec (Items xs) = list_spec (concat (map rlp_spec xs))"

text \<open>Every payload is shorter than \<open>2 ^ 32\<close> bytes, the range of the length the encoder writes.\<close>

fun rlp_fits :: "rlp_item \<Rightarrow> bool" where
  "rlp_fits (Data d) \<longleftrightarrow> length d < 2 ^ 32"
| "rlp_fits (Items xs) \<longleftrightarrow> length (concat (map rlp_spec xs)) < 2 ^ 32 \<and> list_all rlp_fits xs"

text \<open>What the \<open>rlp_append\<close> of a nested value does with the stream.\<close>

fun item_append :: "rlp_item \<Rightarrow> rlp_stream \<Rightarrow> rlp_panic + rlp_stream" where
  "item_append (Data d) s = encode_value d s"
| "item_append (Items xs) s = 
     (case begin_list (length xs) s of Inl e \<Rightarrow> Inl e | Inr s' \<Rightarrow> rfold (\<lambda>x. append_with (item_append x)) xs s')"

section \<open>Lengths in bytes\<close>

lemma be_min_0 [simp]: "be_min 0 = []"
  by (simp add: be_min.simps)

lemma be_min_step: "0 < n \<Longrightarrow> be_min n = be_min (n div 256) @ [of_nat n]"
  by (simp add: be_min.simps [of n])

lemma be_enc_min: "k < 256 ^ n \<Longrightarrow> be_enc n k = replicate (n - length (be_min k)) 0 @ be_min k \<and> length (be_min k) \<le> n"
proof (induction n arbitrary: k)
  case (Suc n)
  show ?case
  proof (cases "k = 0")
    case True
    have "replicate n (0::u8) @ [0] = 0 # replicate n 0" by (simp add: replicate_append_same)
    with Suc.IH [of 0] True show ?thesis by simp
  next
    case False
    have "k div 256 < 256 ^ n" using Suc.prems by (simp add: less_mult_imp_div_less mult.commute)
    from Suc.IH [OF this] False show ?thesis by (simp add: be_min_step)
  qed
qed simp

lemma length_be_min: "length (be_min n) = (bit_length n + 7) div 8"
proof (induction n rule: be_min.induct)
  case (1 n)
  show ?case
  proof (cases "n < 256")
    case True
    then have "bit_length n \<le> 8" using bit_length_le [of n 8] by simp
    moreover have "0 < bit_length n" if "0 < n" using bit_length_bounds [OF that] by simp
    ultimately have "(bit_length n + 7) div 8 = 1" if "0 < n" using that by fastforce
    then show ?thesis using True by (cases "n = 0") (simp_all add: be_min_step)
  next
    case False
    have "n = n mod 2 ^ 8 + 2 ^ 8 * (n div 256)" by simp
    moreover have "n mod 2 ^ 8 < 2 ^ 8" "0 < n div 256" using False by auto
    ultimately have "bit_length n = 8 + bit_length (n div 256)" using bit_length_shift by metis
    then show ?thesis using 1 False by (simp add: be_min_step)
  qed
qed

text \<open>Dropping the empty leading bytes of a machine integer leaves its shortest spelling.\<close>

lemma trimmed_be:
  fixes w :: "'a::len word"
  assumes "LENGTH('a) = 8 * m"
  shows "drop (leading_empty_bytes w) (to_be_bytes w) = be_min (unat w)"
    "leading_empty_bytes w = m - length (be_min (unat w))" "length (be_min (unat w)) \<le> m"
proof -
  have "unat w < 2 ^ LENGTH('a)" by (rule unsigned_less)
  then have w: "unat w < 256 ^ m" "unat w < 2 ^ (8 * m)" by (simp_all add: assms power_mult)
  from bit_length_le [OF w(2)] show lead: "leading_empty_bytes w = m - length (be_min (unat w))"
    unfolding leading_empty_bytes_def length_be_min assms by linarith
  note enc = be_enc_min [OF w(1)]
  then show "length (be_min (unat w)) \<le> m" by simp
  have "to_be_bytes w = replicate (m - length (be_min (unat w))) 0 @ be_min (unat w)"
    using enc by (simp add: to_be_bytes_def assms)
  then show "drop (leading_empty_bytes w) (to_be_bytes w) = be_min (unat w)" by (simp add: lead)
qed

section \<open>The stream writes the format\<close>

lemma rotate_right_append: "rotate_right (length ys) (xs @ ys) = ys @ xs"
  by (simp add: rotate_right_def)

lemma put_bytes_simps [simp]:
  "rs_lists (put_bytes bs s) = rs_lists s" "rs_start (put_bytes bs s) = rs_start s"
  "rs_buffer (put_bytes bs s) = rs_buffer s @ bs" "rs_finished (put_bytes bs s) = rs_finished s"
  by (simp_all add: put_bytes_def)

lemma insert_size_val:
  assumes "rs_start s + pos \<le> length (rs_buffer s)" "sz < 2 ^ 32"
  shows "insert_size sz pos s =
    Inr (of_nat (length (be_min sz)),
      s\<lparr>rs_buffer := take (rs_start s + pos) (rs_buffer s) @ be_min sz @ drop (rs_start s + pos) (rs_buffer s)\<rparr>)"
proof -
  define w :: u32 where "w = of_nat sz"
  have w: "unat w = sz" using assms(2) by (simp add: w_def unat_of_nat)
  have t: "drop (leading_empty_bytes w) (to_be_bytes w) = be_min sz"
      "leading_empty_bytes w = 4 - length (be_min sz)" "length (be_min sz) \<le> 4"
    using trimmed_be [of 4 w] by (simp_all add: w)
  have sb: "4 - of_nat (leading_empty_bytes w) = (of_nat (length (be_min sz)) :: u8)"
    using t(2,3) by (simp add: of_nat_diff)
  have "unat (of_nat (length (be_min sz)) :: u8) = length (be_min sz)" using t(3) by (simp add: unat_of_nat)
  then show ?thesis
    using assms(1) by (simp add: insert_size_def Let_def w_def [symmetric] t(1) sb total_written_def rotate_right_append)
qed

lemma encode_value_val:
  assumes "length d < 2 ^ 32" "rs_start s \<le> length (rs_buffer s)"
  shows "encode_value d s = Inr (put_bytes (data_spec d) s)"
proof -
  consider "d = []" | x where "d = [x]" "x < 0x80" | "0 < length d" "length d \<le> 55" "\<not> (length d = 1 \<and> d ! 0 < 0x80)"
    | "55 < length d"
    by (cases d; cases "tl d") force+
  then show ?thesis
  proof cases
    case 4
    define s1 where "s1 = put_bytes [0] s"
    have "insert_size (length d) (total_written s1) s1 =
        Inr (of_nat (length (be_min (length d))), s1\<lparr>rs_buffer := rs_buffer s1 @ be_min (length d)\<rparr>)"
      using insert_size_val [of s1 "total_written s1" "length d"] assms by (simp add: s1_def total_written_def)
    then show ?thesis using 4 assms(2)
      by (simp add: encode_value_def Let_def s1_def [symmetric] poke_def)
        (simp add: s1_def data_spec_def len_prefix_def put_bytes_def total_written_def Let_def list_update_append)
  qed (auto simp: encode_value_def data_spec_def len_prefix_def put_bytes_def Let_def neq_Nil_conv)
qed

text \<open>Closing a list whose reserved byte and payload end the buffer.\<close>

lemma insert_list_payload_val:
  assumes buf: "rs_buffer s = pre @ 0 # payload" "rs_start s \<le> length pre"
    and pos: "pos = Suc (length pre) - rs_start s" and len: "length payload < 2 ^ 32"
  shows "insert_list_payload (length payload) pos s = Inr (s\<lparr>rs_buffer := pre @ list_spec payload\<rparr>)"
proof (cases "length payload \<le> 55")
  case True
  then show ?thesis using buf pos
    by (simp add: insert_list_payload_def poke_def list_spec_def len_prefix_def list_update_append)
next
  case False
  have "rs_start s + pos = Suc (length pre)" using buf(2) pos by simp
  then show ?thesis using False buf pos len insert_size_val [of s pos "length payload"]
    by (simp add: insert_list_payload_def poke_def list_spec_def len_prefix_def list_update_append)
qed

definition strip :: "rlp_stream \<Rightarrow> rlp_stream" where
  "strip s = s\<lparr>rs_finished := False\<rparr>"

definition strip_res :: "rlp_panic + rlp_stream \<Rightarrow> rlp_panic + rlp_stream" where
  "strip_res r = rbind r (\<lambda>s. Inr (strip s))"

definition done_res :: "rlp_panic + rlp_stream \<Rightarrow> bool" where
  "done_res r = (case r of Inl _ \<Rightarrow> True | Inr s \<Rightarrow> rs_finished s)"

lemma strip_simps [simp]:
  "strip (strip s) = strip s" "rs_lists (strip s) = rs_lists s" "rs_start (strip s) = rs_start s"
  "rs_buffer (strip s) = rs_buffer s" "\<not> rs_finished (strip s)"
  by (simp_all add: strip_def)

lemma append_with_strip: "append_with f s = append_with f (strip s)"
  by (simp add: append_with_def strip_def)

lemma append_with_cong: "strip_res r = strip_res r' \<Longrightarrow> rbind r (append_with f) = rbind r' (append_with f)"
proof (cases r; cases r')
  fix s t assume "strip_res r = strip_res r'" "r = Inr s" "r' = Inr t"
  then show ?thesis using append_with_strip [of f s] append_with_strip [of f t] by (simp add: strip_res_def)
qed (auto simp: strip_res_def)

text \<open>A stream inside a list of \<open>k\<close> items, of which \<open>n\<close> were expected; \<open>pre\<close> is what stands before it.\<close>

definition open_list :: "rlp_stream \<Rightarrow> bytes \<Rightarrow> nat \<Rightarrow> nat \<Rightarrow> rlp_stream" where
  "open_list s payload k n =
     s\<lparr>rs_buffer := rs_buffer s @ 0 # payload,
       rs_lists := rs_lists s @ [\<lparr>li_position = Suc (length (rs_buffer s)) - rs_start s, li_current = k, li_max = Some n\<rparr>]\<rparr>"

lemma note_appended_open:
  assumes "Suc k < n"
  shows "note_appended 1 (open_list s payload k n) = Inr (strip (open_list s payload (Suc k) n))"
  using assms by (simp add: note_appended.simps open_list_def strip_def Let_def)

lemma note_appended_close:
  assumes "rs_start s \<le> length (rs_buffer s)" "length payload < 2 ^ 32"
  shows "note_appended 1 (open_list s payload k (Suc k)) =
    rbind (note_appended 1 (put_bytes (list_spec payload) s)) (\<lambda>s. Inr (s\<lparr>rs_finished := True\<rparr>))"
proof -
  define s1 where "s1 = s\<lparr>rs_buffer := rs_buffer s @ 0 # payload\<rparr>"
  define pos where "pos = Suc (length (rs_buffer s)) - rs_start s"
  have "insert_list_payload (length payload) pos s1 = Inr (put_bytes (list_spec payload) s)"
    using insert_list_payload_val [of s1 "rs_buffer s" payload pos] assms by (simp add: s1_def pos_def put_bytes_def)
  moreover have "total_written s1 - pos = length payload"
    using assms(1) by (simp add: s1_def pos_def total_written_def)
  moreover have "(open_list s payload k (Suc k))\<lparr>rs_lists := rs_lists s\<rparr> = s1" by (simp add: open_list_def s1_def)
  ultimately show ?thesis
    by (subst note_appended.simps) (simp add: open_list_def s1_def pos_def Let_def rbind_def put_bytes_def)
qed

lemma put_bytes_open: "put_bytes bs (open_list s payload k n) = open_list s (payload @ bs) k n"
  by (simp add: put_bytes_def open_list_def)

definition appends_ok :: "rlp_item \<Rightarrow> bool" where
  "appends_ok x \<longleftrightarrow>
     (\<forall>s. rs_start s \<le> length (rs_buffer s) \<longrightarrow> \<not> rs_finished s \<longrightarrow>
        strip_res (append_with (item_append x) s) = strip_res (note_appended 1 (put_bytes (rlp_spec x) s))
        \<and> (done_res (note_appended 1 (put_bytes (rlp_spec x) s)) \<longrightarrow> done_res (append_with (item_append x) s)))"

lemma strip_res_done [simp]: "strip_res (rbind r (\<lambda>s. Inr (s\<lparr>rs_finished := b\<rparr>))) = strip_res r"
  by (cases r) (simp_all add: strip_res_def strip_def)

lemma done_res_set [simp]: "done_res (rbind r (\<lambda>s. Inr (s\<lparr>rs_finished := True\<rparr>)))"
  by (cases r) (simp_all add: done_res_def)

lemma rfold_append_strip:
  "xs \<noteq> [] \<Longrightarrow> rfold (\<lambda>x. append_with (f x)) xs s = rfold (\<lambda>x. append_with (f x)) xs (strip s)"
  using append_with_strip [of "f (hd xs)" s] by (cases xs) simp_all

lemma open_list_fold:
  assumes "xs \<noteq> []" "\<And>x. x \<in> set xs \<Longrightarrow> appends_ok x" "rs_start s \<le> length (rs_buffer s)" "\<not> rs_finished s"
    "length (payload @ concat (map rlp_spec xs)) < 2 ^ 32"
  shows "strip_res (rfold (\<lambda>x. append_with (item_append x)) xs (open_list s payload k (k + length xs))) =
      strip_res (note_appended 1 (put_bytes (list_spec (payload @ concat (map rlp_spec xs))) s))
    \<and> done_res (rfold (\<lambda>x. append_with (item_append x)) xs (open_list s payload k (k + length xs)))"
  using assms
proof (induction xs arbitrary: payload k)
  case (Cons x ys)
  define n where "n = k + length (x # ys)"
  define r where "r = append_with (item_append x) (open_list s payload k n)"
  have frame: "rs_start (open_list s payload k n) \<le> length (rs_buffer (open_list s payload k n))"
      "\<not> rs_finished (open_list s payload k n)"
    using Cons.prems(3,4) by (simp_all add: open_list_def)
  have r: "strip_res r = strip_res (note_appended 1 (open_list s (payload @ rlp_spec x) k n))"
      "done_res (note_appended 1 (open_list s (payload @ rlp_spec x) k n)) \<Longrightarrow> done_res r"
    using Cons.prems(2) [of x] frame by (simp_all add: appends_ok_def r_def put_bytes_open)
  have go: "rfold (\<lambda>x. append_with (item_append x)) (x # ys) (open_list s payload k n) =
      rbind r (rfold (\<lambda>x. append_with (item_append x)) ys)"
    by (simp add: r_def)
  show ?case
  proof (cases "ys = []")
    case True
    have close: "note_appended 1 (open_list s (payload @ rlp_spec x) k n) =
        rbind (note_appended 1 (put_bytes (list_spec (payload @ rlp_spec x)) s)) (\<lambda>s. Inr (s\<lparr>rs_finished := True\<rparr>))"
      using note_appended_close [of s "payload @ rlp_spec x" k] Cons.prems(3,5) True by (simp add: n_def)
    have "rbind r (rfold (\<lambda>x. append_with (item_append x)) ys) = r" using True by (cases r) simp_all
    then show ?thesis using go r close True by (simp add: n_def)
  next
    case False
    have "note_appended 1 (open_list s (payload @ rlp_spec x) k n) = Inr (strip (open_list s (payload @ rlp_spec x) (Suc k) n))"
      using False by (intro note_appended_open) (simp add: n_def neq_Nil_conv)
    with r(1) obtain t where t: "r = Inr t" "strip t = strip (open_list s (payload @ rlp_spec x) (Suc k) n)"
      by (cases r) (auto simp: strip_res_def)
    moreover have "strip (open_list s (payload @ rlp_spec x) (Suc k) n) = open_list s (payload @ rlp_spec x) (Suc k) n"
      using Cons.prems(4) by (simp add: strip_def open_list_def)
    ultimately have "rfold (\<lambda>x. append_with (item_append x)) (x # ys) (open_list s payload k n) =
        rfold (\<lambda>x. append_with (item_append x)) ys (open_list s (payload @ rlp_spec x) (Suc k) (Suc k + length ys))"
      using go False rfold_append_strip [of ys item_append t] by (simp add: n_def)
    then show ?thesis
      using Cons.IH [of "payload @ rlp_spec x" "Suc k"] False Cons.prems by (simp add: n_def)
  qed
qed simp

lemma append_with_done: "done_res (f (strip s)) \<Longrightarrow> append_with f s = f (strip s)"
  by (cases "f (strip s)") (simp_all add: append_with_def done_res_def strip_def [symmetric])

lemma items_append_val:
  assumes s: "rs_start s \<le> length (rs_buffer s)" "\<not> rs_finished s"
    and xs: "\<And>x. x \<in> set xs \<Longrightarrow> appends_ok x" "length (concat (map rlp_spec xs)) < 2 ^ 32"
  shows "strip_res (item_append (Items xs) s) = strip_res (note_appended 1 (put_bytes (rlp_spec (Items xs)) s))"
    "done_res (item_append (Items xs) s)"
proof -
  have strip: "s\<lparr>rs_finished := False\<rparr> = s" using s(2) by simp
  have "strip_res (item_append (Items xs) s) = strip_res (note_appended 1 (put_bytes (rlp_spec (Items xs)) s))
      \<and> done_res (item_append (Items xs) s)"
  proof (cases "xs = []")
    case True
    let ?r = "rbind (note_appended 1 (put_bytes [0xc0] s)) (\<lambda>s. Inr (s\<lparr>rs_finished := True\<rparr>))"
    have "item_append (Items xs) s = ?r"
      using True by (cases ?r) (simp_all add: begin_list_def strip)
    moreover have "rlp_spec (Items xs) = [0xc0]" using True by (simp add: list_spec_def len_prefix_def)
    ultimately show ?thesis by simp
  next
    case False
    have "begin_list (length xs) s = Inr (open_list s [] 0 (length xs))"
      using False s(1) by (simp add: begin_list_def strip open_list_def put_bytes_def total_written_def Let_def)
    then show ?thesis
      using open_list_fold [OF False xs(1) s, of "[]" 0] xs(2) by simp
  qed
  then show "strip_res (item_append (Items xs) s) = strip_res (note_appended 1 (put_bytes (rlp_spec (Items xs)) s))"
    "done_res (item_append (Items xs) s)"
    by simp_all
qed

lemma item_appends_ok: "rlp_fits x \<Longrightarrow> appends_ok x"
proof (induction x)
  case (Data d)
  have "append_with (item_append (Data d)) s = note_appended 1 (put_bytes (rlp_spec (Data d)) s)"
    if "rs_start s \<le> length (rs_buffer s)" "\<not> rs_finished s" for s
  proof -
    have s: "s\<lparr>rs_finished := False\<rparr> = s" using that by simp
    show ?thesis unfolding append_with_def s using that Data by (simp add: encode_value_val)
  qed
  then show ?case by (simp add: appends_ok_def)
next
  case (Items xs)
  have xs: "\<And>x. x \<in> set xs \<Longrightarrow> appends_ok x" "length (concat (map rlp_spec xs)) < 2 ^ 32"
    using Items by (auto simp: list_all_iff)
  have "append_with (item_append (Items xs)) s = item_append (Items xs) s"
    if "rs_start s \<le> length (rs_buffer s)" "\<not> rs_finished s" for s
  proof -
    have "strip s = s" using that by (simp add: strip_def)
    then show ?thesis using append_with_done [of "item_append (Items xs)" s] items_append_val(2) [OF that xs] by simp
  qed
  then show ?case unfolding appends_ok_def using items_append_val [OF _ _ xs] by simp
qed

lemma append_on_finished:
  assumes "rlp_fits x" "rs_lists s = []" "rs_start s \<le> length (rs_buffer s)"
  obtains t where "append_with (item_append x) s = Inr t" "rs_buffer t = rs_buffer s @ rlp_spec x" "rs_lists t = []"
    "rs_start t = rs_start s"
proof -
  have "strip_res (append_with (item_append x) (strip s)) = strip_res (note_appended 1 (put_bytes (rlp_spec x) (strip s)))"
    using item_appends_ok [OF assms(1)] assms(3) by (simp add: appends_ok_def)
  moreover have "note_appended 1 (put_bytes (rlp_spec x) (strip s)) = Inr (put_bytes (rlp_spec x) (strip s))"
    using assms(2) by (simp add: note_appended.simps)
  ultimately obtain t where t: "append_with (item_append x) s = Inr t" "strip t = strip (put_bytes (rlp_spec x) (strip s))"
    using append_with_strip [of "item_append x" s] by (cases "append_with (item_append x) (strip s)") (auto simp: strip_res_def)
  have "rs_buffer t = rs_buffer (strip t)" "rs_lists t = rs_lists (strip t)" "rs_start t = rs_start (strip t)" by simp_all
  then show thesis using t assms(2) by (intro that [of t]) simp_all
qed

lemma encode_item: "rlp_fits x \<Longrightarrow> rlp_encode_with (item_append x) = Inr (rlp_spec x)"
  using append_on_finished [of x stream_new] unfolding stream_new_def new_with_buffer_def
  by (force simp: rlp_encode_with_def stream_out_def is_finished_def stream_new_def new_with_buffer_def)

section \<open>The view reads the format\<close>

lemma be_dec_Cons: "be_dec (b # bs) = unat b * 256 ^ length bs + be_dec bs"
proof (induction bs rule: rev_induct)
  case (snoc c bs)
  have "be_dec (b # bs @ [c]) = be_dec (b # bs) * 256 + unat c" using be_dec_snoc [of "b # bs" c] by simp
  then show ?case using snoc by (simp add: be_dec_snoc algebra_simps)
qed (simp add: be_dec_def)

lemma shifted_byte: "push_bit (k * 8) (ucast (b :: u8) :: 'a::len word) = of_nat (unat b * 256 ^ k)"
proof -
  have "ucast b = (of_nat (unat b) :: 'a word)" by (rule unsigned_word_eqI) (simp add: unat_ucast_mod unat_of_nat)
  then show ?thesis by (simp add: push_bit_eq_mult power_mult mult.commute [of k])
qed

lemma decode_fold:
  "i + length bs = l \<Longrightarrow>
     fold (\<lambda>(i, b) res. res + push_bit ((l - 1 - i) * 8) (ucast b)) (enumerate i bs) (acc :: 'a::len word) = acc + of_nat (be_dec bs)"
proof (induction bs arbitrary: i acc)
  case (Cons b bs)
  have "l - 1 - i = length bs" using Cons.prems by simp
  then have "push_bit ((l - 1 - i) * 8) (ucast b) = (of_nat (unat b * 256 ^ length bs) :: 'a word)"
    by (simp only: shifted_byte)
  with Cons show ?case by (simp add: be_dec_Cons add.assoc)
qed (simp add: be_dec_def)

lemma decode_usize_val:
  assumes "bs \<noteq> []" "bs ! 0 \<noteq> 0" "length bs \<le> 8"
  shows "decode_usize bs = Inr (be_dec bs)"
proof -
  have "be_dec bs < 256 ^ length bs" by (rule be_dec_less)
  also have "(256::nat) ^ length bs \<le> 256 ^ 8" using assms(3) by (intro power_increasing) simp_all
  finally have "unat (of_nat (be_dec bs) :: u64) = be_dec bs" by (simp add: unat_of_nat)
  then show ?thesis
    using assms decode_fold [of 0 bs "length bs" "0 :: u64"] by (simp add: decode_usize_def Let_def)
qed

lemma be_dec_min: "be_dec (be_min n) = n"
proof (induction n rule: be_min.induct)
  case (1 n)
  show ?case
  proof (cases "n = 0")
    case True
    then show ?thesis by (simp add: be_dec_def)
  next
    case False
    then show ?thesis using 1 by (simp add: be_min_step be_dec_snoc unat_of_nat)
  qed
qed

lemma hd_be_min: "0 < n \<Longrightarrow> be_min n \<noteq> [] \<and> be_min n ! 0 \<noteq> 0"
proof (induction n rule: be_min.induct)
  case (1 n)
  show ?case
  proof (cases "n < 256")
    case True
    then have "be_min n = [of_nat n]" using 1(2) by (simp add: be_min_step)
    moreover have "(of_nat n :: u8) \<noteq> 0" using True 1(2) by (simp add: word_of_nat_eq_0_iff) (auto dest: dvd_imp_le)
    ultimately show ?thesis by simp
  next
    case False
    then have "be_min (n div 256) \<noteq> []" "be_min (n div 256) ! 0 \<noteq> 0" using 1 by auto
    then show ?thesis using 1(2) by (simp add: be_min_step nth_append)
  qed
qed

lemma be_min_bound: "n < 2 ^ 32 \<Longrightarrow> length (be_min n) \<le> 4"
  using be_enc_min [of n 4] by simp

lemma calculate_payload_val:
  assumes "55 < n" "n < 2 ^ 32"
  shows "calculate_payload_info (l # be_min n @ rest) (length (be_min n)) =
    Inr \<lparr>header_len = 1 + length (be_min n), value_len = n\<rparr>"
proof -
  have m: "be_min n \<noteq> []" "be_min n ! 0 \<noteq> 0" "length (be_min n) \<le> 8"
    using hd_be_min [of n] assms be_min_bound [OF assms(2)] by auto
  then have "(be_min n @ rest) ! 0 \<noteq> 0" by (simp add: nth_append)
  then show ?thesis
    using m assms decode_usize_val [OF m] by (simp add: calculate_payload_info_def Let_def be_dec_min nth_append)
qed

lemma unat_prefix:
  "n \<le> 55 \<Longrightarrow> unat (0x80 + of_nat n :: u8) = 0x80 + n" "n \<le> 55 \<Longrightarrow> unat (0xc0 + of_nat n :: u8) = 0xc0 + n"
  "k \<le> 4 \<Longrightarrow> unat (0xb7 + of_nat k :: u8) = 0xb7 + k" "k \<le> 4 \<Longrightarrow> unat (0xf7 + of_nat k :: u8) = 0xf7 + k"
  by (simp_all add: unat_word_ariths unat_of_nat)

lemma prefix_info:
  assumes "n < 2 ^ 32"
  shows "payload_info_from (len_prefix 0x80 n @ rest) = Inr \<lparr>header_len = length (len_prefix 0x80 n), value_len = n\<rparr>"
    "payload_info_from (len_prefix 0xc0 n @ rest) = Inr \<lparr>header_len = length (len_prefix 0xc0 n), value_len = n\<rparr>"
proof -
  have k: "0 < length (be_min n)" "length (be_min n) \<le> 4" if "55 < n"
    using that hd_be_min [of n] be_min_bound [OF assms] by auto
  show "payload_info_from (len_prefix 0x80 n @ rest) = Inr \<lparr>header_len = length (len_prefix 0x80 n), value_len = n\<rparr>"
    using k calculate_payload_val [of n "0xb7 + of_nat (length (be_min n))" rest] assms unat_prefix(1) [of n] unat_prefix(3) [of "length (be_min n)"]
    by (cases "n \<le> 55") (simp_all add: len_prefix_def payload_info_from_def word_le_nat_alt)
  show "payload_info_from (len_prefix 0xc0 n @ rest) = Inr \<lparr>header_len = length (len_prefix 0xc0 n), value_len = n\<rparr>"
    using k calculate_payload_val [of n "0xf7 + of_nat (length (be_min n))" rest] assms unat_prefix(2) [of n] unat_prefix(4) [of "length (be_min n)"]
    by (cases "n \<le> 55") (simp_all add: len_prefix_def payload_info_from_def word_le_nat_alt)
qed

lemma length_len_prefix: "n < 2 ^ 32 \<Longrightarrow> length (len_prefix base n) \<le> 5"
  using be_min_bound [of n] by (simp add: len_prefix_def)

lemma list_info:
  assumes "length p < 2 ^ 32"
  shows "payload_info_of (list_spec p @ rest) = Inr \<lparr>header_len = length (len_prefix 0xc0 (length p)), value_len = length p\<rparr>"
  using prefix_info(2) [OF assms, of "p @ rest"] length_len_prefix [OF assms, of "0xc0"] assms
  by (simp add: payload_info_of_def list_spec_def)

lemma data_info:
  assumes "length d < 2 ^ 32"
  shows "\<exists>h. payload_info_of (data_spec d @ rest) = Inr \<lparr>header_len = h, value_len = length d\<rparr> \<and> h + length d = length (data_spec d)"
proof (cases "length d = 1 \<and> d ! 0 < 0x80")
  case True
  then obtain x where x: "d = [x]" "x < 0x80" by (cases d) auto
  then have "x \<le> 0x7f" by (simp add: word_le_nat_alt word_less_nat_alt)
  then show ?thesis using x by (simp add: data_spec_def payload_info_of_def payload_info_from_def)
next
  case False
  then have "data_spec d = len_prefix 0x80 (length d) @ d" unfolding data_spec_def by (simp only: if_False)
  then show ?thesis
    using prefix_info(1) [OF assms, of "d @ rest"] length_len_prefix [OF assms, of "0x80"] assms
    by (simp add: payload_info_of_def)
qed

lemma item_info:
  assumes "rlp_fits x"
  shows "\<exists>i. payload_info_of (rlp_spec x @ rest) = Inr i \<and> header_len i + value_len i = length (rlp_spec x)"
proof (cases x)
  case (Data d)
  then show ?thesis using data_info [of d rest] assms by auto
next
  case (Items xs)
  then show ?thesis using list_info [of "concat (map rlp_spec xs)" rest] assms by (auto simp: list_spec_def)
qed

lemma decode_data:
  assumes "length d < 2 ^ 32"
  shows "decode_value (data_spec d @ rest) f = f d"
proof (cases "length d = 1 \<and> d ! 0 < 0x80")
  case True
  then obtain x where x: "d = [x]" "x < 0x80" by (cases d) auto
  then have "x \<le> 0x7f" by (simp add: word_le_nat_alt word_less_nat_alt)
  then show ?thesis using x by (simp add: data_spec_def decode_value_def)
next
  case big: False
  then have spec: "data_spec d = len_prefix 0x80 (length d) @ d" unfolding data_spec_def by (simp only: if_False)
  show ?thesis
  proof (cases "length d \<le> 55")
    case True
    define l :: u8 where "l = 0x80 + of_nat (length d)"
    have l: "unat l = 0x80 + length d" using unat_prefix(1) [OF True] by (simp add: l_def)
    have "\<not> (l = 0x81 \<and> d ! 0 < 0x80)" using big l by (auto simp: word_unat_eq_iff)
    then show ?thesis using True l
      by (auto simp: spec len_prefix_def l_def [symmetric] decode_value_def word_le_nat_alt Let_def nth_append)
  next
    case False
    define k where "k = length (be_min (length d))"
    define l :: u8 where "l = 0xb7 + of_nat k"
    have m: "be_min (length d) \<noteq> []" "be_min (length d) ! 0 \<noteq> 0" "length (be_min (length d)) \<le> 8"
      using hd_be_min [of "length d"] False be_min_bound [OF assms] by fastforce+
    have l: "unat l = 0xb7 + k" "0 < k" "k \<le> 4"
      using unat_prefix(3) [of k] be_min_bound [OF assms] m(1) by (simp_all add: l_def k_def)
    then show ?thesis using False assms decode_usize_val [OF m]
      by (simp add: spec len_prefix_def l_def [symmetric] k_def [symmetric] decode_value_def word_le_nat_alt Let_def be_dec_min)
  qed
qed

section \<open>Finding items\<close>

lemma consume_turn_shift:
  "consume_turn (bs, k + c) = rbind (consume_turn (bs, c)) (\<lambda>(r, c). Inr (r, k + c))"
  by (cases "payload_info_of bs") (auto simp: consume_turn_def consume_def Let_def)

lemma consume_fold_shift:
  "rfold (\<lambda>_. consume_turn) is (bs, k + c) = rbind (rfold (\<lambda>_. consume_turn) is (bs, c)) (\<lambda>(r, c). Inr (r, k + c))"
proof (induction "is" arbitrary: bs c)
  case (Cons i "is")
  show ?case
    using Cons by (cases "consume_turn (bs, c)") (auto simp: consume_turn_shift)
qed simp

lemma consume_items_add:
  "consume_items bs (i + j) = rbind (consume_items bs i) (\<lambda>(r, c). rbind (consume_items r j) (\<lambda>(r', c'). Inr (r', c + c')))"
proof -
  have const: "rfold (\<lambda>_. consume_turn) is a = rfold (\<lambda>_. consume_turn) js a" if "length is = length js" for "is" js :: "nat list" and a
    using that by (induction "is" js arbitrary: a rule: list_induct2) (simp_all add: rbind_def split: sum.split)
  have "[0..<i + j] = [0..<i] @ [i..<i + j]" by (rule upt_add_eq_append) simp
  then have "consume_items bs (i + j) = rbind (consume_items bs i) (rfold (\<lambda>_. consume_turn) [i..<i + j])"
    by (simp add: consume_items_def rfold_append)
  also have "\<dots> = rbind (consume_items bs i) (\<lambda>(r, c). rbind (consume_items r j) (\<lambda>(r', c'). Inr (r', c + c')))"
  proof (rule arg_cong [of _ _ "rbind (consume_items bs i)"], rule ext)
    fix a :: "bytes \<times> nat"
    obtain r c where a: "a = (r, c)" by fastforce
    show "rfold (\<lambda>_. consume_turn) [i..<i + j] a = (case a of (r, c) \<Rightarrow> rbind (consume_items r j) (\<lambda>(r', c'). Inr (r', c + c')))"
      using const [of "[i..<i + j]" "[0..<j]" a] consume_fold_shift [of "[0..<j]" r c 0] by (simp add: a consume_items_def)
  qed
  finally show ?thesis .
qed

lemma consume_items_drop:
  "consume_items bs i = Inr (rest, c) \<Longrightarrow> rest = drop c bs \<and> c \<le> length bs"
proof (induction i arbitrary: rest c)
  case (Suc i)
  obtain r k where 1: "consume_items bs i = Inr (r, k)"
    using Suc.prems by (cases "consume_items bs i") (auto simp: consume_items_def rfold_append)
  have "consume_turn (r, k) = Inr (rest, c)"
    using Suc.prems 1 by (simp add: consume_items_def rfold_append rbind_def split: sum.splits)
  then have "rest = drop (c - k) r \<and> k \<le> c \<and> c - k \<le> length r"
    by (auto simp: consume_turn_def consume_def Let_def rbind_Inr split: if_splits)
  then show ?case using Suc.IH [OF 1] by auto
qed (simp add: consume_items_def)

text \<open>A list that fills its bytes, and an offset cache that agrees with them.\<close>

definition exact_list :: "bytes \<Rightarrow> bool" where
  "exact_list bs \<longleftrightarrow> bs \<noteq> [] \<and> bs ! 0 \<ge> 0xc0
     \<and> (case payload_info_of bs of Inl _ \<Rightarrow> False | Inr i \<Rightarrow> header_len i + value_len i = length bs)"

definition list_header :: "bytes \<Rightarrow> nat" where
  "list_header bs = (case payload_info_of bs of Inl _ \<Rightarrow> 0 | Inr i \<Rightarrow> header_len i)"

definition cache_ok :: "rlp \<Rightarrow> bool" where
  "cache_ok r \<longleftrightarrow> exact_list (rv_bytes r) \<and>
     (case rv_offset r of
        None \<Rightarrow> True
      | Some (i, off) \<Rightarrow>
          (case consume_items (drop (list_header (rv_bytes r)) (rv_bytes r)) i of
             Inl _ \<Rightarrow> False
           | Inr (_, c) \<Rightarrow> off = list_header (rv_bytes r) + c))"

lemma exact_list_payload:
  "exact_list bs \<Longrightarrow> consume_list_payload bs = Inr (drop (list_header bs) bs, list_header bs) \<and> list_header bs \<le> length bs"
  by (cases "payload_info_of bs") (auto simp: exact_list_def consume_list_payload_def list_header_def)

text \<open>With or without the cache, the search arrives at the same bytes and offset.\<close>

definition found_at :: "rlp \<Rightarrow> nat \<Rightarrow> decoder_error + (bytes \<times> nat)" where
  "found_at r index =
     rbind (at_start r index) (\<lambda>(bs, indexes_to_skip, bytes_consumed).
       rbind (consume_items bs indexes_to_skip) (\<lambda>(bs, consumed). Inr (bs, bytes_consumed + consumed)))"

lemma found_at_val:
  assumes "cache_ok r"
  shows "found_at r index =
    rbind (consume_items (drop (list_header (rv_bytes r)) (rv_bytes r)) index) (\<lambda>(bs, c). Inr (bs, list_header (rv_bytes r) + c))"
proof -
  define h where "h = list_header (rv_bytes r)"
  define p where "p = drop h (rv_bytes r)"
  have exact: "exact_list (rv_bytes r)" using assms by (simp add: cache_ok_def)
  note payload = exact_list_payload [OF exact, folded h_def, folded p_def]
  show ?thesis
  proof (cases "\<exists>i off. rv_offset r = Some (i, off) \<and> i \<le> index")
    case True
    then obtain i off where c: "rv_offset r = Some (i, off)" "i \<le> index" by blast
    then obtain rest k where k: "consume_items p i = Inr (rest, k)" "off = h + k"
      using assms by (auto simp: cache_ok_def p_def h_def split: sum.splits)
    have rest: "rest = drop k p" "k \<le> length p" using consume_items_drop [OF k(1)] by auto
    have "consume (rv_bytes r) off = Inr rest"
      using rest k(2) payload by (auto simp: consume_def p_def h_def add.commute)
    then have "at_start r index = Inr (rest, index - i, off)" using c by (simp add: at_start_def Let_def)
    moreover have "consume_items p index = rbind (consume_items rest (index - i)) (\<lambda>(r', c'). Inr (r', k + c'))"
      using consume_items_add [of p i "index - i"] c(2) k(1) by simp
    ultimately show ?thesis
      unfolding h_def [symmetric] p_def [symmetric] found_at_def
      by (cases "consume_items rest (index - i)") (auto simp: k(2))
  next
    case False
    then have "at_start r index = Inr (p, index, h)"
      using payload by (cases "rv_offset r") (auto simp: at_start_def Let_def split: if_splits)
    then show ?thesis
      unfolding h_def [symmetric] p_def [symmetric] found_at_def by simp
  qed
qed

lemma at_with_offset_found:
  assumes "cache_ok r"
  shows "at_with_offset index r =
    (case found_at r index of
       Inl e \<Rightarrow> (Inl e, r)
     | Inr (bs, offset) \<Rightarrow>
         (rbind (payload_info_of bs) (\<lambda>i. Inr (rlp_new (take (header_len i + value_len i) bs), offset)),
          r\<lparr>rv_offset := Some (index, offset)\<rparr>))"
proof -
  have "is_list r" using assms by (simp add: cache_ok_def exact_list_def is_list_def is_null_def)
  then show ?thesis
    unfolding at_with_offset_def found_at_def [symmetric]
    by (cases "found_at r index") (auto simp: bind_def rbind_def split: sum.splits)
qed

text \<open>
  The interface of a view with a cache: an answer is the one a fresh view gives, whatever was asked
  before.
\<close>

locale cached_view =
  fixes ok :: "'s \<Rightarrow> bool" and ask :: "'q \<Rightarrow> 's \<Rightarrow> 'a \<times> 's" and fresh :: "'s \<Rightarrow> 's"
  assumes ask_fresh: "ok s \<Longrightarrow> fst (ask q s) = fst (ask q (fresh s))"
    and ask_ok: "ok s \<Longrightarrow> ok (snd (ask q s))"
    and fresh_ask: "ok s \<Longrightarrow> fresh (snd (ask q s)) = fresh s"
begin

lemma asked_ok: "ok s \<Longrightarrow> ok (fold (\<lambda>q s. snd (ask q s)) qs s) \<and> fresh (fold (\<lambda>q s. snd (ask q s)) qs s) = fresh s"
  by (induction qs arbitrary: s) (auto simp: ask_ok fresh_ask)

lemma history_irrelevant: "ok s \<Longrightarrow> fst (ask q (fold (\<lambda>q s. snd (ask q s)) qs s)) = fst (ask q (fresh s))"
  using asked_ok [of s qs] ask_fresh by metis

end

lemma rlp_at_split: "rlp_at index r = apfst (\<lambda>a. rbind a (\<lambda>(x, _). Inr x)) (at_with_offset index r)"
  by (cases "at_with_offset index r") (auto simp: rlp_at_def bind_def rbind_def split: sum.splits)

interpretation rlp_view: cached_view cache_ok rlp_at "\<lambda>r. rlp_new (rv_bytes r)"
proof unfold_locales
  fix r :: rlp and index :: nat
  assume ok: "cache_ok r"
  have fresh: "cache_ok (rlp_new (rv_bytes r))" using ok by (simp add: cache_ok_def rlp_new_def)
  have "found_at (rlp_new (rv_bytes r)) index = found_at r index"
    using found_at_val [OF ok] found_at_val [OF fresh] by (simp add: rlp_new_def)
  then show "fst (rlp_at index r) = fst (rlp_at index (rlp_new (rv_bytes r)))"
    by (simp add: rlp_at_split at_with_offset_found [OF ok] at_with_offset_found [OF fresh] split: sum.split prod.split)
  show "rlp_new (rv_bytes (snd (rlp_at index r))) = rlp_new (rv_bytes r)"
    by (simp add: rlp_at_split at_with_offset_found [OF ok] split: sum.split prod.split)
  have "cache_ok (r\<lparr>rv_offset := Some (index, offset)\<rparr>)" if "found_at r index = Inr (bs, offset)" for bs offset
    using that found_at_val [OF ok, of index] ok by (auto simp: cache_ok_def rbind_Inr)
  then show "cache_ok (snd (rlp_at index r))"
    using ok by (simp add: rlp_at_split at_with_offset_found [OF ok] split: sum.split prod.split)
qed

section \<open>Lists that were encoded\<close>

lemma consume_items_concat:
  assumes "list_all rlp_fits xs"
  shows "i \<le> length xs \<Longrightarrow>
      consume_items (concat (map rlp_spec xs)) i = Inr (concat (map rlp_spec (drop i xs)), length (concat (map rlp_spec (take i xs))))"
proof (induction i)
  case (Suc i)
  define x ys where "x = xs ! i" and "ys = drop (Suc i) xs"
  have split: "drop i xs = x # ys" "take (Suc i) xs = take i xs @ [x]"
    using Suc.prems by (simp_all add: x_def ys_def Cons_nth_drop_Suc take_Suc_conv_app_nth)
  have "rlp_fits x" using assms Suc.prems by (simp add: x_def list_all_length)
  from item_info [OF this, of "concat (map rlp_spec ys)"] obtain j
    where j: "payload_info_of (rlp_spec x @ concat (map rlp_spec ys)) = Inr j" "header_len j + value_len j = length (rlp_spec x)"
    by blast
  have "consume_items (concat (map rlp_spec xs)) (Suc i) = consume_turn (concat (map rlp_spec (drop i xs)), length (concat (map rlp_spec (take i xs))))"
    using Suc by (simp add: consume_items_def rfold_append rbind_def split: sum.split)
  also have "\<dots> = Inr (concat (map rlp_spec ys), length (concat (map rlp_spec (take (Suc i) xs))))"
    using j by (simp add: split consume_turn_def consume_def Let_def)
  finally show ?case by (simp add: ys_def)
qed (simp add: consume_items_def)

lemma list_spec_exact:
  assumes "length p < 2 ^ 32"
  shows "exact_list (list_spec p)" "list_header (list_spec p) = length (len_prefix 0xc0 (length p))"
    "drop (list_header (list_spec p)) (list_spec p) = p"
proof -
  note info = list_info [OF assms, of "[]", simplified]
  show h: "list_header (list_spec p) = length (len_prefix 0xc0 (length p))" by (simp add: list_header_def info)
  then show "drop (list_header (list_spec p)) (list_spec p) = p" by (simp add: list_spec_def)
  have "list_spec p \<noteq> [] \<and> list_spec p ! 0 \<ge> 0xc0"
    using unat_prefix(2) [of "length p"] unat_prefix(4) [of "length (be_min (length p))"] be_min_bound [OF assms]
    by (auto simp: list_spec_def len_prefix_def word_le_nat_alt)
  then show "exact_list (list_spec p)" by (simp add: exact_list_def info) (simp add: list_spec_def)
qed

lemma consume_items_empty: "consume_items [] (Suc k) = Inl RlpIsTooShort"
  using consume_items_add [of "[]" 1 k]
  by (simp add: consume_items_def consume_turn_def payload_info_of_def payload_info_from_def)

lemma at_encoded:
  assumes "rlp_fits (Items xs)"
  shows "fst (rlp_at i (rlp_new (rlp_spec (Items xs)))) = (if i < length xs then Inr (rlp_new (rlp_spec (xs ! i))) else Inl RlpIsTooShort)"
proof -
  define p where "p = concat (map rlp_spec xs)"
  define r where "r = rlp_new (rlp_spec (Items xs))"
  have fit: "length p < 2 ^ 32" "list_all rlp_fits xs" using assms by (simp_all add: p_def)
  note exact = list_spec_exact [OF fit(1)]
  have bytes: "rv_bytes r = list_spec p" by (simp add: r_def rlp_new_def p_def)
  have ok: "cache_ok r" using exact(1) by (simp add: cache_ok_def bytes) (simp add: r_def rlp_new_def)
  have found: "found_at r i = rbind (consume_items p i) (\<lambda>(bs, c). Inr (bs, list_header (rv_bytes r) + c))"
    using found_at_val [OF ok, of i] exact(3) by (simp add: bytes)
  show ?thesis
  proof (cases "i < length xs")
    case True
    define x ys where "x = xs ! i" and "ys = drop (Suc i) xs"
    have "drop i xs = x # ys" using True by (simp add: x_def ys_def Cons_nth_drop_Suc)
    then have "consume_items p i = Inr (rlp_spec x @ concat (map rlp_spec ys), length (concat (map rlp_spec (take i xs))))"
      using consume_items_concat [OF fit(2), of i] True by (simp add: p_def)
    moreover have "rlp_fits x" using fit(2) True by (simp add: x_def list_all_length)
    then obtain j where "payload_info_of (rlp_spec x @ concat (map rlp_spec ys)) = Inr j" "header_len j + value_len j = length (rlp_spec x)"
      using item_info by blast
    ultimately show ?thesis
      using True found unfolding r_def [symmetric] by (simp add: rlp_at_split at_with_offset_found [OF ok]) (simp add: x_def)?
  next
    case False
    have all: "consume_items p (length xs) = Inr ([], length p)" using consume_items_concat [OF fit(2), of "length xs"] by (simp add: p_def)
    have "consume_items p i = (if i = length xs then Inr ([], length p) else Inl RlpIsTooShort)"
    proof (cases "i = length xs")
      case diff: False
      then obtain k where "i = length xs + Suc k" using \<open>\<not> i < length xs\<close> by (metis less_imp_Suc_add linorder_neqE_nat add_Suc_right)
      then show ?thesis using consume_items_add [of p "length xs" "Suc k"] all consume_items_empty by simp
    qed (simp add: all)
    then show ?thesis
      using False found unfolding r_def [symmetric]
      by (simp add: rlp_at_split at_with_offset_found [OF ok] payload_info_of_def payload_info_from_def)
  qed
qed

lemma count_loop_val:
  assumes "rlp_fits (Items xs)" "cache_ok r" "rv_bytes r = rlp_spec (Items xs)" "i \<le> length xs"
  shows "\<exists>r'. count_loop i r = Some (length xs, r')"
  using assms(2-)
proof (induction "length xs - i" arbitrary: i r)
  case 0
  have "fst (rlp_at i r) = Inl RlpIsTooShort"
    using rlp_view.ask_fresh [OF 0(2), of i] at_encoded [OF assms(1), of i] 0 by simp
  then obtain r' where "rlp_at i r = (Inl RlpIsTooShort, r')" by (cases "rlp_at i r") auto
  then show ?case using 0 by (simp add: count_loop.simps [of i r])
next
  case (Suc n)
  then have lt: "i < length xs" by simp
  have "fst (rlp_at i r) = Inr (rlp_new (rlp_spec (xs ! i)))"
    using rlp_view.ask_fresh [OF Suc.prems(1), of i] at_encoded [OF assms(1), of i] Suc.prems(2) lt by simp
  then obtain r' where r': "rlp_at i r = (Inr (rlp_new (rlp_spec (xs ! i))), r')" by (cases "rlp_at i r") auto
  have "cache_ok r'" "rv_bytes r' = rlp_spec (Items xs)"
    using rlp_view.ask_ok [OF Suc.prems(1), of i] rlp_view.fresh_ask [OF Suc.prems(1), of i] r' Suc.prems(2)
    by (simp_all add: rlp_new_def)
  moreover have "n = length xs - Suc i" using Suc.hyps(2) by simp
  ultimately show ?case using Suc.hyps(1) [of "Suc i" r'] r' lt by (simp add: count_loop.simps [of i r])
qed

lemma item_count_encoded:
  assumes "rlp_fits (Items xs)"
  shows "map_option fst (item_count (rlp_new (rlp_spec (Items xs)))) = Some (Inr (length xs))"
proof -
  define r where "r = rlp_new (rlp_spec (Items xs))"
  have exact: "exact_list (rlp_spec (Items xs))" using list_spec_exact(1) assms by simp
  then have "cache_ok r" "rv_bytes r = rlp_spec (Items xs)" by (simp_all add: r_def rlp_new_def cache_ok_def)
  from count_loop_val [OF assms this, of 0] obtain r' where "count_loop 0 r = Some (length xs, r')" by auto
  moreover have "is_list r" using exact by (simp add: r_def rlp_new_def is_list_def is_null_def exact_list_def)
  moreover have "rv_count r = None" by (simp add: r_def rlp_new_def)
  ultimately show ?thesis unfolding r_def [symmetric] by (simp add: item_count_def)
qed

section \<open>Integers\<close>

lemma append_uint_item:
  fixes w :: "'a::len word"
  assumes "LENGTH('a) = 8 * m"
  shows "append_uint w = item_append (Data (be_min (unat w)))"
  using trimmed_be(1) [OF assms, of w] by (simp add: append_uint_def fun_eq_iff)

lemma decode_uint_val:
  fixes w :: "'a::len word"
  assumes "LENGTH('a) = 8 * m" "m < 2 ^ 32"
  shows "decode_uint (data_spec (be_min (unat w))) = Inr w"
proof -
  define d where "d = be_min (unat w)"
  have len: "length d \<le> m" using trimmed_be(3) [OF assms(1), of w] by (simp add: d_def)
  have dec: "be_dec d = unat w" by (simp add: d_def be_dec_min)
  have "length d < 2 ^ 32" using len assms(2) by simp
  note read = decode_data [OF this, of "[]", unfolded append_Nil2]
  have hd: "d ! 0 \<noteq> 0" if "d \<noteq> []" using that hd_be_min [of "unat w"] by (cases "unat w = 0") (simp_all add: d_def)
  consider "d = []" | b where "d = [b]" "b \<noteq> 0" | "1 < length d" "d ! 0 \<noteq> 0" using hd by (cases d; cases "tl d") auto
  then have "decode_uint (data_spec d) = Inr w"
  proof cases
    case 1
    then have "w = 0" using dec by (simp add: be_dec_def unat_eq_0)
    then show ?thesis using 1 unfolding decode_uint_def decode_u8_def read by simp
  next
    case (2 b)
    then have "unat b = unat w" using dec by (simp add: be_dec_def)
    then have "ucast b = w" by (simp add: word_unat_eq_iff unat_ucast_mod)
    then show ?thesis using 2 unfolding decode_uint_def decode_u8_def read by simp
  next
    case 3
    then show ?thesis
      using len assms(1) dec decode_fold [of 0 d "length d" "0 :: 'a word"]
      by (simp add: decode_uint_def Let_def read)
  qed
  then show ?thesis by (simp add: d_def)
qed

section \<open>Properties\<close>

text \<open>C13: Appending a nested value through the stream (\<open>begin_list\<close>, the appends of the items, the size inserted
  in front of a list when its last item arrives, recursively for every enclosing list) returns exactly
  the bytes of the recursive definition of the format, when every payload is shorter than \<open>2 ^ 32\<close> bytes.
\<close>

theorem stream_writes_format:
  assumes "rlp_fits x"
  shows "rlp_encode_with (item_append x) = Inr (rlp_spec x)"
  by (rule encode_item [OF assms])

theorem stream_writes_format_witness:
  "rlp_encode_with (item_append (Items [Data [1], Items [], Items [Data [0x80, 2], Items [Data []]]]))
     = Inr [0xc8, 1, 0xc0, 0xc5, 0x82, 0x80, 2, 0xc1, 0x80]"
  using stream_writes_format [of "Items [Data [1], Items [], Items [Data [0x80, 2], Items [Data []]]]"]
  by (simp add: list_spec_def data_spec_def len_prefix_def)

text \<open>C14: A list that was written is read back: the count of its items is the number of values appended (and the
  counting loop ends), the item at each index below it is the view of that value's own bytes, every
  other index is the error \<open>RlpIsTooShort\<close>, and a data item decodes to its bytes.
\<close>

theorem encoded_list_read:
  assumes "rlp_fits (Items xs)"
  shows "\<exists>bs. rlp_encode_with (item_append (Items xs)) = Inr bs
    \<and> map_option fst (item_count (rlp_new bs)) = Some (Inr (length xs))
    \<and> (\<forall>i. fst (rlp_at i (rlp_new bs)) = (if i < length xs then Inr (rlp_new (rlp_spec (xs ! i))) else Inl RlpIsTooShort))
    \<and> (\<forall>i d. i < length xs \<longrightarrow> xs ! i = Data d \<longrightarrow> decode_vec (rlp_spec (xs ! i)) = Inr d)"
proof -
  have "length d < 2 ^ 32" if "i < length xs" "xs ! i = Data d" for i d
    using that assms by (auto simp: list_all_length dest!: spec [of _ i])
  then have "decode_vec (data_spec d) = Inr d" if "i < length xs" "xs ! i = Data d" for i d
    using that decode_data [of d "[]"] by (simp add: decode_vec_def)
  then show ?thesis
    using encode_item [OF assms] item_count_encoded [OF assms] at_encoded [OF assms] by (intro exI [of _ "rlp_spec (Items xs)"]) auto
qed

theorem encoded_list_read_witness:
  "\<exists>bs. rlp_encode_with (item_append (Items [Data [7, 8], Items []])) = Inr bs
    \<and> map_option fst (item_count (rlp_new bs)) = Some (Inr (Suc (Suc 0)))
    \<and> fst (rlp_at 1 (rlp_new bs)) = Inr (rlp_new [0xc0]) \<and> fst (rlp_at 2 (rlp_new bs)) = Inl RlpIsTooShort
    \<and> decode_vec [0x82, 7, 8] = Inr [7, 8]"
proof -
  have fits: "rlp_fits (Items [Data [7, 8], Items []])" by (simp add: list_spec_def data_spec_def len_prefix_def)
  let ?xs = "[Data [7, 8], Items []]"
  from encoded_list_read [OF fits] obtain bs where
    bs: "rlp_encode_with (item_append (Items ?xs)) = Inr bs" "map_option fst (item_count (rlp_new bs)) = Some (Inr (length ?xs))"
    and items: "\<And>i. fst (rlp_at i (rlp_new bs)) = (if i < length ?xs then Inr (rlp_new (rlp_spec (?xs ! i))) else Inl RlpIsTooShort)"
    and data: "\<And>i d. i < length ?xs \<Longrightarrow> ?xs ! i = Data d \<Longrightarrow> decode_vec (rlp_spec (?xs ! i)) = Inr d"
    by blast
  have "decode_vec [0x82, 7, 8] = Inr [7, 8]" using data [of 0 "[7, 8]"] by (simp add: data_spec_def len_prefix_def)
  moreover have "fst (rlp_at 1 (rlp_new bs)) = Inr (rlp_new [0xc0])" using items [of 1] by (simp add: list_spec_def len_prefix_def)
  moreover have "fst (rlp_at 2 (rlp_new bs)) = Inl RlpIsTooShort" using items [of 2] by simp
  ultimately show ?thesis using bs by (intro exI [of _ bs]) simp
qed

text \<open>C15: On a view whose bytes are exactly one list, the offset cache of \<open>Rlp::at\<close> cannot be observed: after any
  sequence of queries, failing ones included, an index gives the answer of a fresh view.
\<close>

theorem offset_cache_transparent:
  assumes "exact_list bs"
  shows "fst (rlp_at i (fold (\<lambda>q r. snd (rlp_at q r)) qs (rlp_new bs))) = fst (rlp_at i (rlp_new bs))"
  using rlp_view.history_irrelevant [of "rlp_new bs"] assms by (simp add: cache_ok_def rlp_new_def)

theorem offset_cache_transparent_witness:
  "exact_list [0xc3, 1, 0x81, 0x80] \<and>
   fst (rlp_at 0 (fold (\<lambda>q r. snd (rlp_at q r)) [1, 5] (rlp_new [0xc3, 1, 0x81, 0x80]))) = fst (rlp_at 0 (rlp_new [0xc3, 1, 0x81, 0x80]))"
proof -
  have "exact_list [0xc3, 1, 0x81, 0x80]" by (simp add: exact_list_def payload_info_of_def payload_info_from_def)
  with offset_cache_transparent [OF this, of 0 "[1, 5]"] show ?thesis by blast
qed

text \<open>
  Without that condition it can: behind a list with a byte after its payload, index 1 is an error on a
  fresh view, and the trailing byte once index 0 was asked, since the cached path slices the view's bytes and
  not the list's payload.
\<close>

theorem cache_leaks_past_the_list:
  "fst (rlp_at 1 (rlp_new [0xc1, 1, 2])) = Inl RlpIsTooShort
   \<and> fst (rlp_at 1 (snd (rlp_at 0 (rlp_new [0xc1, 1, 2])))) = Inr (rlp_new [2])"
  by (simp add: rlp_at_split at_with_offset_def rlp_new_def at_start_def consume_list_payload_def consume_items_def
      consume_turn_def consume_def payload_info_of_def payload_info_from_def is_list_def is_null_def Let_def)

text \<open>C16: An unsigned integer of any width in whole bytes survives encoding and decoding, from the leading
  zero bytes dropped by the encoder to the shifted sum of the decoder.
\<close>

theorem rlp_uint_round_trip:
  fixes w :: "'a::len word"
  assumes "LENGTH('a) = 8 * m" "m < 2 ^ 32"
  shows "\<exists>bs. rlp_encode_with (append_uint w) = Inr bs \<and> decode_uint bs = Inr w"
proof -
  have "rlp_fits (Data (be_min (unat w)))" using trimmed_be(3) [OF assms(1), of w] assms(2) by simp
  from encode_item [OF this] show ?thesis
    using decode_uint_val [OF assms, of w] by (simp add: append_uint_item [OF assms(1)])
qed

theorem rlp_uint_round_trip_witness:
  "\<exists>bs. rlp_encode_with (append_uint (0x10400 :: 64 word)) = Inr bs \<and> decode_uint bs = Inr (0x10400 :: 64 word)"
  using rlp_uint_round_trip [of 8 "0x10400 :: 64 word"] by simp

end
