(* ===== verification/Spec2Isabelle.thy ===== *)
theory Spec2Isabelle
  imports Smt_Props State Txpool_Props Chain Uint_Props Rlp_Props
begin

text \<open>
  A verification development for the Odana chain (Rust workspace under \<open>src/\<close>).

  Parts, bottom up:
  \<^item> \<open>Prelude\<close>: results, actions, ordered maps and ordered sets.
  \<^item> \<open>Smt_Base\<close>, \<open>Smt_Proof\<close>, \<open>Smt_Tree\<close>: the sparse Merkle tree crate \<open>smt/\<close>.
\<close>

end
